(* ===== verification/TSQueue.thy ===== *)
theory TSQueue
  imports Prelude
begin

text \<open>
  \<^verbatim>\<open>tsqueue/include/tsqueue/tsqueue.hpp\<close>: the mutex-protected deque. Every member function
  holds \<open>m_mutex\<close> for its whole body, so each is one atomic operation on \<open>m_deq\<close>, whose first
  element is the front. Reading or popping an empty deque is undefined.
\<close>

record 'a tsqueue =
  m_deq :: "'a list"

definition new_queue :: "'a tsqueue" where
  "new_queue = \<lparr>m_deq = []\<rparr>"

definition front :: "'a tsqueue \<Rightarrow> 'a option" where
  "front q = (case m_deq q of [] \<Rightarrow> None | x # _ \<Rightarrow> Some x)"

definition back_q :: "'a tsqueue \<Rightarrow> 'a option" where
  "back_q q = (if m_deq q = [] then None else Some (last (m_deq q)))"

definition empty_q :: "'a tsqueue \<Rightarrow> bool" where
  "empty_q q \<longleftrightarrow> m_deq q = []"

definition size_q :: "'a tsqueue \<Rightarrow> nat" where
  "size_q q = length (m_deq q)"

definition clear :: "'a tsqueue \<Rightarrow> 'a tsqueue" where
  "clear q = q\<lparr>m_deq := []\<rparr>"

definition pop_front :: "'a tsqueue \<Rightarrow> ('a \<times> 'a tsqueue) option" where
  "pop_front q = (case m_deq q of [] \<Rightarrow> None | x # xs \<Rightarrow> Some (x, q\<lparr>m_deq := xs\<rparr>))"

definition pop_back :: "'a tsqueue \<Rightarrow> ('a \<times> 'a tsqueue) option" where
  "pop_back q = (if m_deq q = [] then None
     else Some (last (m_deq q), q\<lparr>m_deq := butlast (m_deq q)\<rparr>))"

definition push_back :: "'a \<Rightarrow> 'a tsqueue \<Rightarrow> 'a tsqueue" where
  "push_back item q = q\<lparr>m_deq := m_deq q @ [item]\<rparr>"

definition push_front :: "'a \<Rightarrow> 'a tsqueue \<Rightarrow> 'a tsqueue" where
  "push_front item q = q\<lparr>m_deq := item # m_deq q\<rparr>"

lemmas tsqueue_defs = new_queue_def front_def back_q_def empty_q_def size_q_def clear_def
  pop_front_def pop_back_def push_back_def push_front_def


section \<open>The queue contract\<close>

text \<open>
  What the clients of the queue (the server's update loop, the connection's write chain, the
  sessions' main loops) rely on: elements leave in the order in which they entered.
\<close>

locale fifo =
  fixes new :: "'q"
    and push :: "'a \<Rightarrow> 'q \<Rightarrow> 'q"
    and pop :: "'q \<Rightarrow> ('a \<times> 'q) option"
    and is_empty :: "'q \<Rightarrow> bool"
    and elems :: "'q \<Rightarrow> 'a list"
  assumes elems_new: "elems new = []"
    and elems_push: "elems (push x q) = elems q @ [x]"
    and is_empty_iff: "is_empty q \<longleftrightarrow> elems q = []"
    and pop_empty: "elems q = [] \<Longrightarrow> pop q = None"
    and pop_first: "elems q = x # xs \<Longrightarrow> \<exists>q'. pop q = Some (x, q') \<and> elems q' = xs"
begin

fun pops :: "nat \<Rightarrow> 'q \<Rightarrow> ('a list \<times> 'q) option" where
  "pops 0 q = Some ([], q)"
| "pops (Suc n) q = (case pop q of None \<Rightarrow> None
     | Some (x, q') \<Rightarrow> map_option (apfst ((#) x)) (pops n q'))"

lemma elems_pushes: "elems (fold push xs q) = elems q @ xs"
  by (induction xs arbitrary: q) (simp_all add: elems_push)

lemma pop_defined: "pop q \<noteq> None \<longleftrightarrow> \<not> is_empty q"
  using pop_first[of q] pop_empty[of q] by (cases "elems q") (auto simp: is_empty_iff)

lemma pops_prefix:
  "n \<le> length (elems q) \<Longrightarrow>
     \<exists>q'. pops n q = Some (take n (elems q), q') \<and> elems q' = drop n (elems q)"
proof (induction n arbitrary: q)
  case 0
  then show ?case by simp
next
  case (Suc n)
  then obtain x xs where e: "elems q = x # xs"
    by (cases "elems q") auto
  then obtain q' where "pop q = Some (x, q')" and "elems q' = xs"
    using pop_first by blast
  then show ?case using Suc e by fastforce
qed

lemma pushes_then_pops:
  "\<exists>q. pops (length xs) (fold push xs new) = Some (xs, q) \<and> is_empty q"
  using pops_prefix[of "length xs" "fold push xs new"]
  by (auto simp: elems_pushes elems_new is_empty_iff)

end

interpretation tsq: fifo new_queue push_back pop_front empty_q m_deq
  by unfold_locales (auto simp: tsqueue_defs split: list.splits)

lemma m_deq_simps [simp]:
  "m_deq new_queue = []" "m_deq (push_back x q) = m_deq q @ [x]" "m_deq (clear q) = []"
  "m_deq (push_front x q) = x # m_deq q" "empty_q q \<longleftrightarrow> m_deq q = []"
  by (simp_all add: tsqueue_defs)

lemma pop_front_eq_Some: "pop_front q = Some (x, q') \<longleftrightarrow> m_deq q = x # m_deq q'"
  by (cases q; cases q') (auto simp: tsqueue_defs split: list.splits)

lemma pop_front_eq_None: "pop_front q = None \<longleftrightarrow> m_deq q = []"
  by (auto simp: tsqueue_defs split: list.splits)

lemma tsqueue_eqI: "m_deq (q :: 'a tsqueue) = m_deq q' \<Longrightarrow> q = q'"
  by simp

section \<open>Arrivals\<close>

text \<open>
  The other thread pushes to the queue at any time, but a thread that drains the queue sees it
  only when it asks whether it is empty or waits. The arrivals are therefore a list of batches,
  the next of which is in the queue at each such moment; when the list is used up nothing
  arrives any more, and a wait on an empty queue never ends (\<open>None\<close>).
\<close>

type_synonym 'a schedule = "'a list list"

definition arrive :: "'a schedule \<Rightarrow> 'a tsqueue \<Rightarrow> 'a schedule \<times> 'a tsqueue" where
  "arrive sch q = (case sch of [] \<Rightarrow> ([], q) | b # bs \<Rightarrow> (bs, fold push_back b q))"

fun wait_q :: "'a schedule \<Rightarrow> 'a tsqueue \<Rightarrow> ('a schedule \<times> 'a tsqueue) option" where
  "wait_q [] q = (if empty_q q then None else Some ([], q))"
| "wait_q (b # bs) q = (if empty_q q then wait_q bs (fold push_back b q) else Some (b # bs, q))"

definition pending_in :: "'a schedule \<Rightarrow> 'a tsqueue \<Rightarrow> 'a list" where
  "pending_in sch q = m_deq q @ concat sch"

lemma m_deq_fold_push [simp]: "m_deq (fold push_back xs q) = m_deq q @ xs"
  by (induction xs arbitrary: q) simp_all

lemma pending_arrive: "arrive sch q = (sch', q') \<Longrightarrow> pending_in sch' q' = pending_in sch q"
  by (auto simp: arrive_def pending_in_def split: list.splits)

lemma pending_wait:
  "wait_q sch q = Some (sch', q') \<Longrightarrow> pending_in sch' q' = pending_in sch q \<and> m_deq q' \<noteq> []"
  by (induction sch q rule: wait_q.induct) (auto simp: pending_in_def split: if_splits)

lemma wait_None_iff: "wait_q sch q = None \<longleftrightarrow> pending_in sch q = []"
  by (induction sch q rule: wait_q.induct) (auto simp: pending_in_def)

lemma pending_pop:
  "arrive sch q = (sch', q1) \<Longrightarrow> pop_front q1 = Some (om, q') \<Longrightarrow>
     pending_in sch q = om # pending_in sch' q'"
  using pending_arrive[of sch q sch' q1] by (simp add: pending_in_def pop_front_eq_Some)

section \<open>Blocking: the condition variable\<close>

text \<open>
  \<open>wait\<close> and \<open>waitFor\<close> block on \<open>m_blocking_cv\<close>; \<open>push_back\<close> and \<open>push_front\<close> insert under
  the mutex and call \<open>notify_one\<close> after releasing it, so the insertion and the notification are
  two steps, between which other threads run. Each queue of the program has one consumer (the
  thread that waits and pops) and any number of producers. \<open>Blocked timed\<close> is a consumer asleep
  in the wait (\<open>timed\<close> for \<open>waitFor\<close>), \<open>Woken timed\<close> one that has been woken and has not yet
  reacquired the mutex to test the predicate again. \<open>notifies\<close> counts the producers between
  their insertion and their \<open>notify_one\<close>. Spurious wake-ups are allowed, as the standard does.
\<close>

datatype consumer = Running | Blocked bool | Woken bool

record 'a cv_queue =
  cv_q :: "'a tsqueue"
  notifies :: nat
  cons_pc :: consumer

datatype 'a cv_act = CvPushBack 'a | CvPushFront 'a | CvNotify | CvWait | CvWaitFor
  | CvSpurious | CvRecheck | CvTimeout | CvPop 'a

definition cv_init :: "'a cv_queue" where
  "cv_init = \<lparr>cv_q = new_queue, notifies = 0, cons_pc = Running\<rparr>"

fun notify_one :: "consumer \<Rightarrow> consumer" where
  "notify_one (Blocked t) = Woken t"
| "notify_one c = c"

lemma notify_one_not_Blocked [simp]: "notify_one c \<noteq> Blocked t"
  by (cases c) auto

inductive cv_step :: "'a cv_queue \<Rightarrow> 'a cv_act \<Rightarrow> 'a cv_queue \<Rightarrow> bool" where
  push_back: "cv_step s (CvPushBack x) (s\<lparr>cv_q := push_back x (cv_q s), notifies := Suc (notifies s)\<rparr>)"
| push_front: "cv_step s (CvPushFront x) (s\<lparr>cv_q := push_front x (cv_q s), notifies := Suc (notifies s)\<rparr>)"
| notify: "notifies s = Suc n \<Longrightarrow>
     cv_step s CvNotify (s\<lparr>notifies := n, cons_pc := notify_one (cons_pc s)\<rparr>)"
| wait_q: "cons_pc s = Running \<Longrightarrow>
     cv_step s CvWait (if empty_q (cv_q s) then s\<lparr>cons_pc := Blocked False\<rparr> else s)"
| waitFor: "cons_pc s = Running \<Longrightarrow>
     cv_step s CvWaitFor (if empty_q (cv_q s) then s\<lparr>cons_pc := Blocked True\<rparr> else s)"
| spurious: "cons_pc s = Blocked t \<Longrightarrow> cv_step s CvSpurious (s\<lparr>cons_pc := Woken t\<rparr>)"
| recheck: "cons_pc s = Woken t \<Longrightarrow>
     cv_step s CvRecheck (s\<lparr>cons_pc := (if empty_q (cv_q s) then Blocked t else Running)\<rparr>)"
| timeout: "cons_pc s = Blocked True \<or> cons_pc s = Woken True \<Longrightarrow>
     cv_step s CvTimeout (s\<lparr>cons_pc := Running\<rparr>)"
| pop: "cons_pc s = Running \<Longrightarrow> pop_front (cv_q s) = Some (x, q') \<Longrightarrow>
     cv_step s (CvPop x) (s\<lparr>cv_q := q'\<rparr>)"

inductive_cases cv_stepE: "cv_step s a s'"
inductive_simps cv_recheck_iff: "cv_step s CvRecheck s'"
inductive_simps cv_notify_iff: "cv_step s CvNotify s'"

inductive cv_run :: "'a cv_queue \<Rightarrow> 'a cv_act list \<Rightarrow> 'a cv_queue \<Rightarrow> bool" where
  cv_run_Nil: "cv_run s [] s"
| cv_run_snoc: "cv_run s as s' \<Longrightarrow> cv_step s' a s'' \<Longrightarrow> cv_run s (as @ [a]) s''"

definition cv_inv :: "'a cv_queue \<Rightarrow> bool" where
  "cv_inv s \<longleftrightarrow> (\<forall>t. cons_pc s = Blocked t \<longrightarrow> m_deq (cv_q s) \<noteq> [] \<longrightarrow> 0 < notifies s)"

lemma cv_inv_step: "cv_step s a s' \<Longrightarrow> cv_inv s \<Longrightarrow> cv_inv s'"
  by (induction rule: cv_step.induct) (auto simp: cv_inv_def split: if_splits)

lemma cv_inv_run: "cv_run s as s' \<Longrightarrow> cv_inv s \<Longrightarrow> cv_inv s'"
  by (induction rule: cv_run.induct) (auto intro: cv_inv_step)

lemma cv_inv_init: "cv_inv cv_init"
  by (simp add: cv_inv_def cv_init_def)

text \<open>The elements inserted and removed by a run, in order (no \<open>push_front\<close>).\<close>

fun pushed :: "'a cv_act list \<Rightarrow> 'a list" where
  "pushed [] = []"
| "pushed (CvPushBack x # as) = x # pushed as"
| "pushed (_ # as) = pushed as"

fun popped :: "'a cv_act list \<Rightarrow> 'a list" where
  "popped [] = []"
| "popped (CvPop x # as) = x # popped as"
| "popped (_ # as) = popped as"

lemma pushed_append [simp]: "pushed (as @ bs) = pushed as @ pushed bs"
  by (induction as rule: pushed.induct) auto

lemma popped_append [simp]: "popped (as @ bs) = popped as @ popped bs"
  by (induction as rule: popped.induct) auto

lemma cv_step_elems:
  "cv_step s a s' \<Longrightarrow> (\<And>x. a \<noteq> CvPushFront x) \<Longrightarrow>
     popped [a] @ m_deq (cv_q s') = m_deq (cv_q s) @ pushed [a]"
  by (induction rule: cv_step.induct) (auto simp: pop_front_eq_Some)

lemma cv_run_elems:
  "cv_run s as s' \<Longrightarrow> (\<And>x. CvPushFront x \<notin> set as) \<Longrightarrow>
     popped as @ m_deq (cv_q s') = m_deq (cv_q s) @ pushed as"
proof (induction rule: cv_run.induct)
  case (cv_run_Nil s)
  then show ?case by simp
next
  case (cv_run_snoc s as s' a s'')
  have "popped as @ m_deq (cv_q s') = m_deq (cv_q s) @ pushed as"
    by (rule cv_run_snoc.IH) (use cv_run_snoc.prems in auto)
  moreover have "popped [a] @ m_deq (cv_q s'') = m_deq (cv_q s') @ pushed [a]"
    using cv_run_snoc.hyps(2) by (rule cv_step_elems) (use cv_run_snoc.prems in auto)
  ultimately show ?case by (metis append_assoc popped_append pushed_append)
qed

text \<open>C24: No wake-up is lost. However producers and the consumer interleave, whenever the
  consumer sleeps in \<open>wait\<close> or \<open>waitFor\<close> while the queue holds an element, some producer still
  has to deliver its notification, and that notification followed by the consumer's test of the
  predicate makes the wait return, with the queue untouched.\<close>

theorem wait_no_lost_wakeup:
  assumes "cv_run cv_init as s" and "cons_pc s = Blocked t" and "m_deq (cv_q s) \<noteq> []"
  shows "\<exists>s1 s2. cv_step s CvNotify s1 \<and> cv_step s1 CvRecheck s2 \<and>
           cons_pc s2 = Running \<and> cv_q s2 = cv_q s"
proof -
  have "0 < notifies s"
    using cv_inv_run[OF assms(1) cv_inv_init] assms(2,3) by (auto simp: cv_inv_def)
  then obtain n where "notifies s = Suc n" by (cases "notifies s") auto
  then show ?thesis using assms(2,3) by (auto simp: cv_notify_iff cv_recheck_iff)
qed

theorem wait_no_lost_wakeup_witness:
  "\<exists>s s1 s2. m_deq (cv_q s) = [7::nat] \<and> cv_step s CvNotify s1 \<and> cv_step s1 CvRecheck s2 \<and>
     cons_pc s2 = Running"
proof -
  let ?s1 = "cv_init\<lparr>cons_pc := Blocked False\<rparr> :: nat cv_queue"
  let ?s2 = "?s1\<lparr>cv_q := push_back 7 new_queue, notifies := 1\<rparr>"
  have "cv_step cv_init CvWait ?s1"
    using cv_step.wait_q[of "cv_init :: nat cv_queue"] by (simp add: cv_init_def)
  moreover have "cv_step ?s1 (CvPushBack 7) ?s2"
    using cv_step.push_back[of ?s1 7] by (simp add: cv_init_def)
  ultimately have "cv_run cv_init ([] @ [CvWait] @ [CvPushBack 7]) ?s2"
    by (metis append.assoc cv_run_Nil cv_run_snoc)
  moreover have "cons_pc ?s2 = Blocked False" and "m_deq (cv_q ?s2) \<noteq> []" by simp_all
  ultimately obtain s1 s2 where "cv_step ?s2 CvNotify s1" "cv_step s1 CvRecheck s2"
      "cons_pc s2 = Running"
    using wait_no_lost_wakeup[of _ ?s2 False] by blast
  moreover have "m_deq (cv_q ?s2) = [7]" by simp
  ultimately show ?thesis by blast
qed

text \<open>The queue is first-in first-out under every interleaving: what the consumer has popped,
  followed by what is still stored, is exactly what the producers have pushed, in the order of
  their insertions. Nothing is lost, duplicated or reordered.\<close>

theorem queue_fifo:
  assumes "cv_run cv_init as s" and "\<And>x. CvPushFront x \<notin> set as"
  shows "popped as @ m_deq (cv_q s) = pushed as"
  using cv_run_elems[OF assms] by (simp add: cv_init_def)

theorem queue_fifo_witness:
  "\<exists>s :: nat cv_queue. popped [CvPushBack 1, CvPushBack 2, CvPop (1::nat)] @ m_deq (cv_q s) =
     pushed [CvPushBack 1, CvPushBack 2, CvPop 1] \<and> m_deq (cv_q s) = [2]"
proof -
  let ?s1 = "cv_init\<lparr>cv_q := push_back 1 new_queue, notifies := 1\<rparr> :: nat cv_queue"
  let ?s2 = "?s1\<lparr>cv_q := push_back 2 (cv_q ?s1), notifies := 2\<rparr>"
  let ?s3 = "?s2\<lparr>cv_q := \<lparr>m_deq = [2]\<rparr>\<rparr>"
  have "cv_step cv_init (CvPushBack 1) ?s1"
    using cv_step.push_back[of "cv_init :: nat cv_queue" 1] by (simp add: cv_init_def)
  moreover have "cv_step ?s1 (CvPushBack 2) ?s2"
    using cv_step.push_back[of ?s1 2] by (simp add: cv_init_def numeral_2_eq_2)
  moreover have "cv_step ?s2 (CvPop 1) ?s3"
    using cv_step.pop[of ?s2 1 "\<lparr>m_deq = [2]\<rparr>"]
    by (simp add: cv_init_def tsqueue_defs)
  ultimately have "cv_run cv_init ((([] @ [CvPushBack 1]) @ [CvPushBack 2]) @ [CvPop 1]) ?s3"
    by (meson cv_run_Nil cv_run_snoc)
  then show ?thesis using queue_fifo[of _ ?s3] by (auto intro!: exI[of _ ?s3])
qed

end
