(* ===== verification/Message.thy ===== *)
theory Message
  imports Prelude
begin

text \<open>
  \<^verbatim>\<open>net_common/include/net_common/net_message.hpp\<close>: a message is a header (type id and body
  size) and a body that the stream operators use as a stack of object representations:
  \<open><<\<close> appends the bytes of an object, \<open>>>\<close> takes them off the end again, so fields are read
  in the reverse order of writing. The template parameter \<open>T\<close> of the source is only
  instantiated with \<open>EMessageType\<close>, an enum over \<open>uint32_t\<close> that can hold every 32-bit value.
  All containers the program streams have one-byte elements.

  \<open>operator>>\<close> computes \<open>body.size() - sizeof(DataType)\<close> without a check. With a shorter body
  the difference wraps and \<open>memcpy\<close> reads out of bounds: the model returns \<open>None\<close>.
\<close>

record message_header =
  hdr_id :: u32
  hdr_size :: u32

record message =
  header :: message_header
  body :: bytes

text \<open>\<open>Message msg;\<close>: id 0, size 0, no body.\<close>

definition new_message :: message where
  "new_message = \<lparr>header = \<lparr>hdr_id = 0, hdr_size = 0\<rparr>, body = []\<rparr>"

definition set_id :: "u32 \<Rightarrow> message \<Rightarrow> message" where
  "set_id i m = m\<lparr>header := (header m)\<lparr>hdr_id := i\<rparr>\<rparr>"

definition msg_size :: "message \<Rightarrow> nat" where
  "msg_size m = length (body m)"

text \<open>\<open>msg.header.size = msg.size()\<close>: a \<open>size_t\<close> narrowed to 32 bits.\<close>

definition sync_size :: "message \<Rightarrow> message" where
  "sync_size m = m\<lparr>header := (header m)\<lparr>hdr_size := word_of_nat (msg_size m)\<rparr>\<rparr>"

text \<open>\<open>operator<<\<close> of a trivially copyable object, given by its bytes.\<close>

definition put_data :: "bytes \<Rightarrow> message \<Rightarrow> message" where
  "put_data d m = sync_size (m\<lparr>body := body m @ d\<rparr>)"

text \<open>\<open>operator<<\<close> of a container of bytes.\<close>

definition put_container :: "bytes \<Rightarrow> message \<Rightarrow> message" where
  "put_container d m =
     (if length d = 0 then m else sync_size (m\<lparr>body := body m @ d\<rparr>))"

text \<open>\<open>operator>>\<close> into a trivially copyable object of \<open>n\<close> bytes.\<close>

definition get_data :: "nat \<Rightarrow> message \<Rightarrow> (bytes \<times> message) option" where
  "get_data n m =
     (if length (body m) < n then None
      else let offset = length (body m) - n
           in Some (take n (drop offset (body m)), sync_size (m\<lparr>body := take offset (body m)\<rparr>)))"

text \<open>
  \<open>operator>>\<close> into a container that already has its size: \<open>old\<close> is its content before. At
  most the whole body is taken; the elements that are not overwritten keep their value.
\<close>

definition get_container :: "bytes \<Rightarrow> message \<Rightarrow> bytes \<times> message" where
  "get_container old m =
     (if length old = 0 then (old, m)
      else let bytes_to_copy = min (length old) (length (body m));
               offset = length (body m) - bytes_to_copy
           in (take bytes_to_copy (drop offset (body m)) @ drop bytes_to_copy old,
               sync_size (m\<lparr>body := take offset (body m)\<rparr>)))"

text \<open>Integers and enums are trivially copyable.\<close>

definition put_word :: "'a::len word \<Rightarrow> message \<Rightarrow> message" where
  "put_word w = put_data (word_bytes w)"

definition get_word :: "message \<Rightarrow> ('a::len word \<times> message) option" where
  "get_word m = map_option (apfst bytes_word) (get_data (LENGTH('a) div 8) m)"

text \<open>\<open>operator<<(std::ostream &, const Message<T> &)\<close>: the text the debug log prints. The id
  goes through \<open>int\<close>, so ids from \<open>2 ^ 31\<close> on print as negative numbers.\<close>

definition print_message :: "message \<Rightarrow> string" where
  "print_message m =
     ''id='' @ show_int (sint (hdr_id (header m))) @ '' size='' @
       show_nat (unat (hdr_size (header m))) @ [CHR 0x0A] @ ''body:'' @ [CHR 0x0A] @
       concat (map (\<lambda>b. show_bits8 b @ ''.'') (body m)) @ [CHR 0x0A]"

section \<open>The stack discipline\<close>

text \<open>A message is \<open>sized\<close> when its header carries the size of its body. Every message built
  with the stream operators is; it is what the framing on the wire relies on.\<close>

definition sized :: "message \<Rightarrow> bool" where
  "sized m \<longleftrightarrow> hdr_size (header m) = word_of_nat (length (body m))"

lemma sync_size_sized [simp]: "sized m \<Longrightarrow> sync_size m = m"
  by (simp add: sized_def sync_size_def msg_size_def)

lemma sized_sync_size [simp]: "sized (sync_size m)"
  by (simp add: sized_def sync_size_def msg_size_def)

lemma body_sync_size [simp]: "body (sync_size m) = body m"
  by (simp add: sync_size_def)

lemma hdr_id_sync_size [simp]: "hdr_id (header (sync_size m)) = hdr_id (header m)"
  by (simp add: sync_size_def)

lemma sized_new_message [simp]: "sized new_message" "body new_message = []"
  by (simp_all add: sized_def new_message_def)

lemma set_id_simps [simp]: "body (set_id i m) = body m" "hdr_id (header (set_id i m)) = i"
  "sized (set_id i m) \<longleftrightarrow> sized m"
  by (simp_all add: set_id_def sized_def)

lemma put_data_simps [simp]:
  "body (put_data d m) = body m @ d" "sized (put_data d m)"
  "hdr_id (header (put_data d m)) = hdr_id (header m)"
  by (simp_all add: put_data_def)

lemma put_container_simps [simp]:
  "body (put_container d m) = body m @ d" "sized m \<Longrightarrow> sized (put_container d m)"
  "hdr_id (header (put_container d m)) = hdr_id (header m)"
  by (simp_all add: put_container_def)

lemma put_word_simps [simp]:
  "body (put_word w m) = body m @ word_bytes w" "sized (put_word w m)"
  "hdr_id (header (put_word w m)) = hdr_id (header m)"
  by (simp_all add: put_word_def)

lemma sync_size_cut:
  "sized m \<Longrightarrow> sync_size (sync_size (m\<lparr>body := b\<rparr>)\<lparr>body := body m\<rparr>) = m"
  by (cases m) (simp add: sync_size_def sized_def msg_size_def)

lemma get_data_put_data [codec_simps]:
  "sized m \<Longrightarrow> length d = n \<Longrightarrow> get_data n (put_data d m) = Some (d, m)"
  by (simp add: get_data_def put_data_def sync_size_cut)

lemma get_container_put_container [codec_simps]:
  "sized m \<Longrightarrow> length old = length d \<Longrightarrow> get_container old (put_container d m) = (d, m)"
  by (auto simp: get_container_def put_container_def sync_size_cut)

lemma get_word_put_word [codec_simps]:
  "sized m \<Longrightarrow> 8 dvd LENGTH('a) \<Longrightarrow> get_word (put_word (w :: 'a::len word) m) = Some (w, m)"
  by (simp add: get_word_def put_word_def get_data_put_data)

lemma get_data_None_iff: "get_data n m = None \<longleftrightarrow> length (body m) < n"
  by (simp add: get_data_def Let_def)

lemma get_data_SomeD:
  "get_data n m = Some (d, m') \<Longrightarrow>
     body m = body m' @ d \<and> length d = n \<and> sized m' \<and> hdr_id (header m') = hdr_id (header m)"
  by (auto simp: get_data_def Let_def split: if_splits)

section \<open>The codec contract\<close>

text \<open>
  What the code that reads a message relies on: reading an object right after it was written
  returns it and restores the message. \<open>wf\<close> is the condition under which the object's size
  fields describe it.
\<close>

locale stream_codec =
  fixes put :: "'a \<Rightarrow> message \<Rightarrow> message"
    and get :: "message \<Rightarrow> ('a \<times> message) option"
    and wf :: "'a \<Rightarrow> bool"
  assumes get_put: "wf x \<Longrightarrow> sized m \<Longrightarrow> get (put x m) = Some (x, m)"
    and put_sized: "sized m \<Longrightarrow> sized (put x m)"
    and put_hdr_id: "hdr_id (header (put x m)) = hdr_id (header m)"
begin

text \<open>\<open>encode\<close> and \<open>decode\<close> of \<^verbatim>\<open>ppcommon.hpp\<close> are this on a fresh message.\<close>

lemma fresh_round_trip:
  assumes "wf x"
  shows "get (put x (set_id i new_message)) = Some (x, set_id i new_message)"
    and "sized (put x (set_id i new_message))"
    and "hdr_id (header (put x (set_id i new_message))) = i"
  using assms by (simp_all add: get_put put_sized put_hdr_id)

lemma put_inject:
  assumes "wf x" "wf y" "sized m" "put x m = put y m"
  shows "x = y"
  using assms by (metis get_put option.inject prod.inject)

end

text \<open>Two objects streamed one after the other, and read back in reverse.\<close>

locale stream_codec2 = A: stream_codec putA getA wfA + B: stream_codec putB getB wfB
  for putA :: "'a \<Rightarrow> message \<Rightarrow> message" and getA wfA
    and putB :: "'b \<Rightarrow> message \<Rightarrow> message" and getB wfB
begin

sublocale both: stream_codec "\<lambda>(x, y) m. putB y (putA x m)"
  "\<lambda>m. Option.bind (getB m) (\<lambda>(y, m1). map_option (\<lambda>(x, m2). ((x, y), m2)) (getA m1))"
  "\<lambda>(x, y). wfA x \<and> wfB y"
  by unfold_locales
    (auto simp: A.get_put B.get_put A.put_sized B.put_sized A.put_hdr_id B.put_hdr_id)

end

interpretation u8_codec: stream_codec "put_word :: u8 \<Rightarrow> _" get_word "\<lambda>_. True"
  by unfold_locales (simp_all add: codec_simps)

interpretation u64_codec: stream_codec "put_word :: u64 \<Rightarrow> _" get_word "\<lambda>_. True"
  by unfold_locales (simp_all add: codec_simps)

end
