(* ===== verification/Connection.thy ===== *)
theory Connection
  imports TSQueue Message
begin

text \<open>
  \<^verbatim>\<open>net_common/include/net_common/net_connection.hpp\<close>: one end of a TCP connection.

  The code runs on two threads: the owner's thread calls \<open>send\<close>, \<open>disconnect\<close> and
  \<open>disconnectAfterFlush\<close>, which only read flags and post tasks; everything else runs on the
  single thread of the \<open>io_context\<close>. Boost.Asio is not part of the repository. The model keeps
  what the code has handed to it (the posted tasks and the outstanding asynchronous operations)
  as fields of the state, and lets it complete every outstanding operation at any time, with
  success or with an error, and run the posted tasks in any order; the theorems that need the
  posting order say so. Asio's documented rule that a stream has at most one outstanding
  composed write and one outstanding composed read is a precondition of the initiating
  functions here: breaking it is undefined (\<open>None\<close>), as is using the front of an empty queue.
  The 8-byte handshake write is tracked apart from the message writes, but counts as a write of the
  same socket. Memory is taken to be unbounded: the \<open>resize\<close> of a body to the size that the peer
  announced, up to \<open>2 ^ 32 - 1\<close> bytes, succeeds (in the code it can throw out of the handler, which
  ends the program).
\<close>

section \<open>State\<close>

datatype EOwner = Server | Client

datatype write_op = WIdle | WHeader | WBody
datatype read_op = RIdle | RValidation | RHeader | RBody

datatype conn_task = TaskSend message | TaskClose | TaskCloseAfterFlush

record connection =
  m_owner_type :: EOwner
  m_socket_open :: bool
  m_messages_out :: "message tsqueue"
  m_forming_in_message :: message
  m_id :: u32
  m_pending_writes :: nat
  m_validated :: bool
  m_close_after_flush :: bool
  m_handshake_out :: u64
  m_handshake_in :: u64
  m_handshake_crypted :: u64
  \<comment> \<open>what was handed to the io_context and the socket\<close>
  tasks :: "conn_task list"
  connecting :: bool
  hs_writing :: bool
  writing :: write_op
  reading :: read_op
  sent_bytes :: bytes  \<comment> \<open>message bytes of the completed writes\<close>

text \<open>\<^verbatim>\<open>net_message.hpp\<close>: a message with the connection it came from (null at a client).\<close>

record owned_message =
  remote :: "nat option"
  owned_msg :: message

text \<open>The source ends the mixing line with \<open>, 4\<close>, a comma expression whose value is dropped:
  the second operand of \<open>|\<close> is not shifted.\<close>

definition obfuscate :: "u64 \<Rightarrow> u64" where
  "obfuscate x =
     (let out = x XOR 0xBABA15ACAB0011FF;
          out = drop_bit 4 (out AND 0xC0A0C0A0B0B0B0) OR (out AND 0x0C0A0C0A0B0B0B)
      in out XOR 0xBABA15FACE1EE788)"

text \<open>The constructor; \<open>clock_now\<close> is the reading of the system clock, \<open>is_open\<close> the state of the
  socket that is moved in.\<close>

definition new_connection :: "EOwner \<Rightarrow> bool \<Rightarrow> u64 \<Rightarrow> connection" where
  "new_connection parent is_open clock_now =
     (let c = \<lparr>m_owner_type = parent, m_socket_open = is_open, m_messages_out = new_queue,
               m_forming_in_message = new_message, m_id = 0, m_pending_writes = 0,
               m_validated = False, m_close_after_flush = False, m_handshake_out = 0,
               m_handshake_in = 0, m_handshake_crypted = 0, tasks = [], connecting = False,
               hs_writing = False, writing = WIdle, reading = RIdle, sent_bytes = []\<rparr>
      in if parent = Server
         then c\<lparr>m_handshake_out := clock_now, m_handshake_crypted := obfuscate clock_now\<rparr>
         else c)"

section \<open>Owner's operations\<close>

definition getId :: "connection \<Rightarrow> u32" where
  "getId c = m_id c"

definition isConnected :: "connection \<Rightarrow> bool" where
  "isConnected c \<longleftrightarrow> m_socket_open c"

definition isValidated :: "connection \<Rightarrow> bool" where
  "isValidated c \<longleftrightarrow> m_validated c"

definition close_socket :: "connection \<Rightarrow> connection" where
  "close_socket c = c\<lparr>m_socket_open := False\<rparr>"

definition disconnect :: "connection \<Rightarrow> connection" where
  "disconnect c = (if isConnected c then c\<lparr>tasks := tasks c @ [TaskClose]\<rparr> else c)"

definition disconnectAfterFlush :: "connection \<Rightarrow> connection" where
  "disconnectAfterFlush c = c\<lparr>tasks := tasks c @ [TaskCloseAfterFlush]\<rparr>"

definition send :: "message \<Rightarrow> connection \<Rightarrow> bool \<times> connection" where
  "send m c =
     (if \<not> m_validated c then (False, c)
      else if \<not> isConnected c then (False, c)
      else (True, c\<lparr>m_pending_writes := m_pending_writes c + 1, tasks := tasks c @ [TaskSend m]\<rparr>))"

definition getPendingWrites :: "connection \<Rightarrow> nat" where
  "getPendingWrites c = m_pending_writes c"

text \<open>The predicate that \<open>waitForOutgoingQueueEmpty\<close> waits for on \<open>m_flush_cv\<close>.\<close>

definition flush_ready :: "connection \<Rightarrow> bool" where
  "flush_ready c \<longleftrightarrow> m_pending_writes c = 0 \<and> empty_q (m_messages_out c)"

text \<open>\<open>waitForIncomingQueueMessage\<close> keeps waiting while this holds.\<close>

definition keep_waiting :: "connection \<Rightarrow> 'a tsqueue \<Rightarrow> bool" where
  "keep_waiting c q \<longleftrightarrow> isConnected c \<and> empty_q q"

section \<open>Writing\<close>

definition header_bytes :: "message_header \<Rightarrow> bytes" where
  "header_bytes h = word_bytes (hdr_id h) @ word_bytes (hdr_size h)"

text \<open>Start of an asynchronous message write.\<close>

definition writeHeader :: "connection \<Rightarrow> connection option" where
  "writeHeader c =
     (if hs_writing c \<or> writing c \<noteq> WIdle \<or> front (m_messages_out c) = None then None
      else Some (c\<lparr>writing := WHeader\<rparr>))"

definition writeBody :: "connection \<Rightarrow> connection option" where
  "writeBody c =
     (if hs_writing c \<or> writing c \<noteq> WIdle \<or> front (m_messages_out c) = None then None
      else Some (c\<lparr>writing := WBody\<rparr>))"

text \<open>The tail that both write handlers share: the message is on the wire.\<close>

definition message_written :: "connection \<Rightarrow> connection option" where
  "message_written c =
     (case pop_front (m_messages_out c) of
        None \<Rightarrow> None
      | Some (_, q) \<Rightarrow>
          let c1 = c\<lparr>m_messages_out := q\<rparr>;
              c2 = (if m_pending_writes c1 > 0
                    then c1\<lparr>m_pending_writes := m_pending_writes c1 - 1\<rparr> else c1)
          in if \<not> empty_q (m_messages_out c2) then writeHeader c2
             else if m_close_after_flush c2 then Some (close_socket c2)
             else Some c2)"

definition writeHeader_done :: "bool \<Rightarrow> connection \<Rightarrow> connection option" where
  "writeHeader_done ok c =
     (let c = c\<lparr>writing := WIdle\<rparr> in
      if ok then
        (case front (m_messages_out c) of
           None \<Rightarrow> None
         | Some m \<Rightarrow>
             let c = c\<lparr>sent_bytes := sent_bytes c @ header_bytes (header m)\<rparr>
             in if length (body m) > 0 then writeBody c else message_written c)
      else Some (close_socket c))"

definition writeBody_done :: "bool \<Rightarrow> connection \<Rightarrow> connection option" where
  "writeBody_done ok c =
     (let c = c\<lparr>writing := WIdle\<rparr> in
      if ok then
        (case front (m_messages_out c) of
           None \<Rightarrow> None
         | Some m \<Rightarrow> message_written (c\<lparr>sent_bytes := sent_bytes c @ body m\<rparr>))
      else Some (close_socket c))"

section \<open>Reading and the handshake\<close>

definition readHeader :: "connection \<Rightarrow> connection option" where
  "readHeader c = (if reading c \<noteq> RIdle then None else Some (c\<lparr>reading := RHeader\<rparr>))"

definition readBody :: "connection \<Rightarrow> connection option" where
  "readBody c = (if reading c \<noteq> RIdle then None else Some (c\<lparr>reading := RBody\<rparr>))"

definition readValidation :: "connection \<Rightarrow> connection option" where
  "readValidation c = (if reading c \<noteq> RIdle then None else Some (c\<lparr>reading := RValidation\<rparr>))"

definition writeValidation :: "connection \<Rightarrow> connection option" where
  "writeValidation c = (if hs_writing c \<or> writing c \<noteq> WIdle then None else Some (c\<lparr>hs_writing := True\<rparr>))"

definition writeValidation_done :: "bool \<Rightarrow> connection \<Rightarrow> connection option" where
  "writeValidation_done ok c =
     (let c = c\<lparr>hs_writing := False\<rparr> in
      if ok then
        if m_owner_type c = Client then readHeader (c\<lparr>m_validated := True\<rparr>) else Some c
      else Some (close_socket c))"

text \<open>The value read is \<open>Some v\<close>, an error \<open>None\<close>. \<open>onClientValidated\<close> of the server, called
  between the validation and \<open>readHeader\<close>, only writes to the debug log.\<close>

definition readValidation_done :: "u64 option \<Rightarrow> connection \<Rightarrow> connection option" where
  "readValidation_done r c =
     (let c = c\<lparr>reading := RIdle\<rparr> in
      case r of
        Some v \<Rightarrow>
          let c = c\<lparr>m_handshake_in := v\<rparr> in
          if m_owner_type c = Server then
            if m_handshake_in c = m_handshake_crypted c
            then readHeader (c\<lparr>m_validated := True\<rparr>)
            else Some (close_socket c)
          else writeValidation (c\<lparr>m_handshake_out := obfuscate (m_handshake_in c)\<rparr>)
      | None \<Rightarrow> Some (close_socket c))"

definition connectToClient :: "u32 \<Rightarrow> connection \<Rightarrow> connection option" where
  "connectToClient uid c =
     (if m_owner_type c = Server \<and> m_socket_open c
      then Option.bind (writeValidation (c\<lparr>m_id := uid\<rparr>)) readValidation
      else Some c)"

definition connectToServer :: "connection \<Rightarrow> connection" where
  "connectToServer c = (if m_owner_type c = Client then c\<lparr>connecting := True\<rparr> else c)"

text \<open>The handler of \<open>async_connect\<close> does nothing on an error; whether Asio leaves the socket open
  then is not fixed.\<close>

definition connect_done :: "bool \<Rightarrow> bool \<Rightarrow> connection \<Rightarrow> connection option" where
  "connect_done ok still_open c =
     (let c = c\<lparr>connecting := False\<rparr> in
      if ok then readValidation (c\<lparr>m_socket_open := True\<rparr>)
      else Some (c\<lparr>m_socket_open := still_open\<rparr>))"

text \<open>\<open>shared_from_this()\<close> is the address \<open>self\<close>.\<close>

definition addToIncomingMessageQueue ::
    "nat \<Rightarrow> connection \<times> owned_message tsqueue \<Rightarrow> (connection \<times> owned_message tsqueue) option" where
  "addToIncomingMessageQueue self s =
     (case s of (c, q) \<Rightarrow>
        let om = \<lparr>remote = (if m_owner_type c = Server then Some self else None),
                  owned_msg = m_forming_in_message c\<rparr>;
            q' = push_back om q
        in map_option (\<lambda>c'. (c', q')) (readHeader (c\<lparr>m_forming_in_message := new_message\<rparr>)))"

definition readHeader_done :: "nat \<Rightarrow> message_header option \<Rightarrow>
    connection \<times> owned_message tsqueue \<Rightarrow> (connection \<times> owned_message tsqueue) option" where
  "readHeader_done self r s =
     (case s of (c, q) \<Rightarrow>
        let c = c\<lparr>reading := RIdle\<rparr> in
        case r of
          Some h \<Rightarrow>
            let fm = (m_forming_in_message c)\<lparr>header := h\<rparr> in
            if hdr_size h > 0 then
              let n = unat (hdr_size h);
                  fm = fm\<lparr>body := take n (body fm) @ replicate (n - length (body fm)) 0\<rparr>
              in map_option (\<lambda>c'. (c', q)) (readBody (c\<lparr>m_forming_in_message := fm\<rparr>))
            else addToIncomingMessageQueue self (c\<lparr>m_forming_in_message := fm\<rparr>, q)
        | None \<Rightarrow> Some (close_socket c, q))"

definition readBody_done :: "nat \<Rightarrow> bytes option \<Rightarrow>
    connection \<times> owned_message tsqueue \<Rightarrow> (connection \<times> owned_message tsqueue) option" where
  "readBody_done self r s =
     (case s of (c, q) \<Rightarrow>
        let c = c\<lparr>reading := RIdle\<rparr> in
        case r of
          Some bs \<Rightarrow> addToIncomingMessageQueue self
            (c\<lparr>m_forming_in_message := (m_forming_in_message c)\<lparr>body := bs\<rparr>\<rparr>, q)
        | None \<Rightarrow> Some (close_socket c, q))"

section \<open>Posted tasks\<close>

fun run_task :: "conn_task \<Rightarrow> connection \<Rightarrow> connection option" where
  "run_task (TaskSend m) c =
     (let already_writing = \<not> empty_q (m_messages_out c);
          c = c\<lparr>m_messages_out := push_back m (m_messages_out c)\<rparr>
      in if \<not> already_writing then writeHeader c else Some c)"
| "run_task TaskClose c = Some (close_socket c)"
| "run_task TaskCloseAfterFlush c =
     (if empty_q (m_messages_out c) then Some (close_socket c)
      else Some (c\<lparr>m_close_after_flush := True\<rparr>))"

section \<open>The connection as a transition system\<close>

text \<open>
  An event is a call of the owner (with the result of \<open>send\<close>), the execution of the \<open>i\<close>-th
  posted task, or the completion of an outstanding operation. An event is enabled when the task or
  operation it is about exists; \<open>conn_exec\<close> is what the code does then. \<open>AsioOpen\<close> is Asio opening
  and closing the socket for the endpoints it tries during \<open>async_connect\<close>.
\<close>

type_synonym conn_state = "connection \<times> owned_message tsqueue"

datatype conn_event = CallSend message bool | CallDisconnect | CallDisconnectAfterFlush
  | RunTask nat | HeaderWritten bool | BodyWritten bool | ValidationWritten bool
  | ValidationRead "u64 option" | HeaderRead "message_header option" | BodyRead "bytes option"
  | ConnectDone bool bool | AsioOpen bool

fun conn_enabled :: "conn_event \<Rightarrow> connection \<Rightarrow> bool" where
  "conn_enabled (CallSend m r) c \<longleftrightarrow> r = fst (send m c)"
| "conn_enabled CallDisconnect c \<longleftrightarrow> True"
| "conn_enabled CallDisconnectAfterFlush c \<longleftrightarrow> True"
| "conn_enabled (RunTask i) c \<longleftrightarrow> i < length (tasks c)"
| "conn_enabled (HeaderWritten _) c \<longleftrightarrow> writing c = WHeader"
| "conn_enabled (BodyWritten _) c \<longleftrightarrow> writing c = WBody"
| "conn_enabled (ValidationWritten _) c \<longleftrightarrow> hs_writing c"
| "conn_enabled (ValidationRead _) c \<longleftrightarrow> reading c = RValidation"
| "conn_enabled (HeaderRead _) c \<longleftrightarrow> reading c = RHeader"
| "conn_enabled (BodyRead r) c \<longleftrightarrow> reading c = RBody \<and>
     (case r of None \<Rightarrow> True | Some bs \<Rightarrow> length bs = length (body (m_forming_in_message c)))"
| "conn_enabled (ConnectDone _ _) c \<longleftrightarrow> connecting c"
| "conn_enabled (AsioOpen _) c \<longleftrightarrow> connecting c"

text \<open>The events of the network thread; the others are calls of the owner.\<close>

fun network_event :: "conn_event \<Rightarrow> bool" where
  "network_event (CallSend _ _) = False"
| "network_event CallDisconnect = False"
| "network_event CallDisconnectAfterFlush = False"
| "network_event _ = True"

definition take_task :: "nat \<Rightarrow> connection \<Rightarrow> conn_task \<times> connection" where
  "take_task i c = (tasks c ! i, c\<lparr>tasks := take i (tasks c) @ drop (Suc i) (tasks c)\<rparr>)"

fun conn_exec :: "nat \<Rightarrow> conn_event \<Rightarrow> conn_state \<Rightarrow> conn_state option" where
  "conn_exec self (CallSend m _) (c, q) = Some (snd (send m c), q)"
| "conn_exec self CallDisconnect (c, q) = Some (disconnect c, q)"
| "conn_exec self CallDisconnectAfterFlush (c, q) = Some (disconnectAfterFlush c, q)"
| "conn_exec self (RunTask i) (c, q) =
     (case take_task i c of (t, c1) \<Rightarrow> map_option (\<lambda>c'. (c', q)) (run_task t c1))"
| "conn_exec self (HeaderWritten ok) (c, q) = map_option (\<lambda>c'. (c', q)) (writeHeader_done ok c)"
| "conn_exec self (BodyWritten ok) (c, q) = map_option (\<lambda>c'. (c', q)) (writeBody_done ok c)"
| "conn_exec self (ValidationWritten ok) (c, q) =
     map_option (\<lambda>c'. (c', q)) (writeValidation_done ok c)"
| "conn_exec self (ValidationRead r) (c, q) = map_option (\<lambda>c'. (c', q)) (readValidation_done r c)"
| "conn_exec self (HeaderRead r) (c, q) = readHeader_done self r (c, q)"
| "conn_exec self (BodyRead r) (c, q) = readBody_done self r (c, q)"
| "conn_exec self (ConnectDone ok opn) (c, q) = map_option (\<lambda>c'. (c', q)) (connect_done ok opn c)"
| "conn_exec self (AsioOpen opn) (c, q) = Some (c\<lparr>m_socket_open := opn\<rparr>, q)"

inductive conn_step :: "nat \<Rightarrow> conn_state \<Rightarrow> conn_event \<Rightarrow> conn_state \<Rightarrow> bool" for self where
  conn_stepI: "conn_enabled e (fst s) \<Longrightarrow> conn_exec self e s = Some s' \<Longrightarrow> conn_step self s e s'"

inductive_simps conn_step_iff: "conn_step self s e s'"

inductive conn_run :: "nat \<Rightarrow> conn_state \<Rightarrow> conn_event list \<Rightarrow> conn_state \<Rightarrow> bool" for self where
  conn_run_Nil: "conn_run self s [] s"
| conn_run_snoc: "conn_run self s es s' \<Longrightarrow> conn_step self s' e s'' \<Longrightarrow> conn_run self s (es @ [e]) s''"

text \<open>The two ways a connection starts: accepted by the server and handed to \<open>connectToClient\<close>, or
  created by the client and handed to \<open>connectToServer\<close>.\<close>

definition server_start :: "u32 \<Rightarrow> u64 \<Rightarrow> connection option" where
  "server_start uid clock_now = connectToClient uid (new_connection Server True clock_now)"

definition client_start :: connection where
  "client_start = connectToServer (new_connection Client False 0)"

definition started :: "connection \<Rightarrow> bool" where
  "started c \<longleftrightarrow> c = client_start \<or> (\<exists>uid now. server_start uid now = Some c)"

section \<open>The invariant\<close>

fun task_msgs :: "conn_task list \<Rightarrow> message list" where
  "task_msgs [] = []"
| "task_msgs (TaskSend m # ts) = m # task_msgs ts"
| "task_msgs (_ # ts) = task_msgs ts"

lemma task_msgs_append [simp]: "task_msgs (xs @ ys) = task_msgs xs @ task_msgs ys"
  by (induction xs rule: task_msgs.induct) auto

text \<open>The write side: every accepted message that is not yet written is counted in
  \<open>m_pending_writes\<close> and is either posted or in \<open>m_messages_out\<close>; one write is outstanding exactly
  while the queue holds something, until a write fails and the socket is closed.\<close>

definition write_inv :: "connection \<Rightarrow> bool" where
  "write_inv c \<longleftrightarrow>
     m_pending_writes c = length (m_deq (m_messages_out c)) + length (task_msgs (tasks c)) \<and>
     (m_deq (m_messages_out c) = [] \<longrightarrow> writing c = WIdle) \<and>
     (m_deq (m_messages_out c) \<noteq> [] \<longrightarrow> writing c \<noteq> WIdle \<or> \<not> m_socket_open c) \<and>
     (writing c = WBody \<longrightarrow> body (hd (m_deq (m_messages_out c))) \<noteq> []) \<and>
     (m_pending_writes c \<noteq> 0 \<longrightarrow> m_validated c) \<and>
     (writing c \<noteq> WIdle \<longrightarrow> \<not> hs_writing c)"

text \<open>The read side and the handshake: before the validation nothing but the handshake is
  outstanding; the server's side is validated only by the answer it expects.\<close>

definition read_inv :: "connection \<Rightarrow> bool" where
  "read_inv c \<longleftrightarrow>
     (connecting c \<longrightarrow> m_owner_type c = Client \<and> reading c = RIdle \<and> \<not> hs_writing c \<and> \<not> m_validated c) \<and>
     (m_owner_type c = Client \<and> hs_writing c \<longrightarrow> reading c = RIdle \<and> \<not> m_validated c) \<and>
     (m_owner_type c = Client \<and> reading c = RValidation \<longrightarrow> \<not> hs_writing c) \<and>
     (reading c = RValidation \<longrightarrow> \<not> m_validated c) \<and>
     (reading c = RHeader \<or> reading c = RBody \<longrightarrow> m_validated c) \<and>
     (reading c = RHeader \<or> \<not> m_validated c \<longrightarrow> m_forming_in_message c = new_message) \<and>
     (reading c = RBody \<longrightarrow> sized (m_forming_in_message c)) \<and>
     (m_owner_type c = Server \<longrightarrow> m_handshake_crypted c = obfuscate (m_handshake_out c)) \<and>
     (m_owner_type c = Server \<and> m_validated c \<longrightarrow> m_handshake_in c = m_handshake_crypted c)"

lemmas conn_handler_defs = writeHeader_def writeBody_def message_written_def writeHeader_done_def
  writeBody_done_def readHeader_def readBody_def readValidation_def writeValidation_def
  writeValidation_done_def readValidation_done_def connect_done_def close_socket_def
  isConnected_def front_def pop_front_def

declare conn_handler_defs [conn_defs] disconnect_def [conn_defs] disconnectAfterFlush_def [conn_defs]
  send_def [conn_defs] take_task_def [conn_defs]

definition conn_inv :: "connection \<Rightarrow> bool" where
  "conn_inv c \<longleftrightarrow> write_inv c \<and> read_inv c"

lemma conn_inv_started: "started c \<Longrightarrow> conn_inv c"
  by (auto simp: started_def client_start_def server_start_def connectToServer_def
      connectToClient_def new_connection_def conn_inv_def write_inv_def read_inv_def conn_defs
      bind_eq_Some_conv)

lemma task_msgs_take_drop:
  assumes "i < length ts"
  shows "length (task_msgs (take i ts @ drop (Suc i) ts)) + length (task_msgs [ts ! i]) =
           length (task_msgs ts)"
proof -
  have "task_msgs ts = task_msgs (take i ts) @ task_msgs [ts ! i] @ task_msgs (drop (Suc i) ts)"
    by (metis append.assoc append_Cons append_Nil assms id_take_nth_drop task_msgs_append)
  then show ?thesis by simp
qed

text \<open>The write handlers on a non-empty queue, in closed form.\<close>

lemma front_None_iff [simp]: "front q = None \<longleftrightarrow> m_deq q = []"
  by (auto simp: front_def split: list.splits)

lemma front_Cons: "m_deq q = m # ms \<Longrightarrow> front q = Some m"
  by (simp add: front_def)

definition popped_msg :: "connection \<Rightarrow> connection" where
  "popped_msg c =
     (let c1 = c\<lparr>m_messages_out := \<lparr>m_deq = tl (m_deq (m_messages_out c))\<rparr>,
                m_pending_writes := m_pending_writes c - 1\<rparr>
      in if tl (m_deq (m_messages_out c)) \<noteq> [] then c1\<lparr>writing := WHeader\<rparr>
         else if m_close_after_flush c then close_socket c1 else c1)"

lemma pending_zero:
  "m_pending_writes c = 0 \<Longrightarrow> c\<lparr>m_messages_out := q, m_pending_writes := 0\<rparr> = c\<lparr>m_messages_out := q\<rparr>"
  by (cases c) simp

lemma message_written_eq:
  assumes "m_deq (m_messages_out c) = m # ms" "writing c = WIdle" "\<not> hs_writing c"
  shows "message_written c = Some (popped_msg c)"
proof -
  have "pop_front (m_messages_out c) = Some (m, \<lparr>m_deq = ms\<rparr>)"
    using assms(1) by (simp add: pop_front_eq_Some)
  then show ?thesis
    using assms
    by (cases "m_pending_writes c = 0")
      (simp_all add: message_written_def popped_msg_def writeHeader_def Let_def pending_zero)
qed

lemma writeHeader_done_eq:
  assumes "m_deq (m_messages_out c) = m # ms" "\<not> hs_writing c"
  shows "writeHeader_done ok c = Some
    (if \<not> ok then close_socket (c\<lparr>writing := WIdle\<rparr>)
     else if body m \<noteq> [] then c\<lparr>writing := WBody, sent_bytes := sent_bytes c @ header_bytes (header m)\<rparr>
     else popped_msg (c\<lparr>writing := WIdle, sent_bytes := sent_bytes c @ header_bytes (header m)\<rparr>))"
  using assms
  by (auto simp: writeHeader_done_def Let_def front_Cons writeBody_def message_written_eq[of _ m ms])

lemma writeBody_done_eq:
  assumes "m_deq (m_messages_out c) = m # ms" "\<not> hs_writing c"
  shows "writeBody_done ok c = Some
    (if \<not> ok then close_socket (c\<lparr>writing := WIdle\<rparr>)
     else popped_msg (c\<lparr>writing := WIdle, sent_bytes := sent_bytes c @ body m\<rparr>))"
  using assms
  by (auto simp: writeBody_done_def Let_def front_Cons message_written_eq[of _ m ms])

text \<open>A posted message would start a second write while the handshake's is outstanding.\<close>

definition overlaps :: "conn_task \<Rightarrow> connection \<Rightarrow> bool" where
  "overlaps t c \<longleftrightarrow> (\<exists>m. t = TaskSend m) \<and> m_deq (m_messages_out c) = [] \<and> hs_writing c"

lemma run_task_overlaps: "overlaps t c \<Longrightarrow> run_task t c = None"
  by (auto simp: overlaps_def Let_def writeHeader_def)

lemma run_task_Some: "run_task t c = Some c' \<Longrightarrow> \<not> overlaps t c"
  by (auto dest: run_task_overlaps)

lemma run_task_eq:
  assumes "m_deq (m_messages_out c) = [] \<longrightarrow> writing c = WIdle" "\<not> overlaps t c"
  shows "run_task t c = Some (case t of
      TaskSend m \<Rightarrow> c\<lparr>m_messages_out := push_back m (m_messages_out c),
                     writing := (if m_deq (m_messages_out c) = [] then WHeader else writing c)\<rparr>
    | TaskClose \<Rightarrow> close_socket c
    | TaskCloseAfterFlush \<Rightarrow>
        (if m_deq (m_messages_out c) = [] then close_socket c else c\<lparr>m_close_after_flush := True\<rparr>))"
  using assms by (cases t) (auto simp: Let_def writeHeader_def overlaps_def)

text \<open>No write-side event changes what the read side looks at, and the other way round except for
  the socket and the validation flag.\<close>

definition read_view :: "connection \<Rightarrow> EOwner \<times> bool \<times> bool \<times> read_op \<times> bool \<times> message \<times> u64 \<times> u64 \<times> u64" where
  "read_view c = (m_owner_type c, connecting c, hs_writing c, reading c, m_validated c,
     m_forming_in_message c, m_handshake_out c, m_handshake_in c, m_handshake_crypted c)"

lemma read_inv_cong: "read_view c = read_view c' \<Longrightarrow> read_inv c = read_inv c'"
  by (simp add: read_view_def read_inv_def)

lemma read_view_simps [simp]:
  "read_view (close_socket c) = read_view c"
  "read_view (popped_msg c) = read_view c"
  "read_view (c\<lparr>m_socket_open := opn\<rparr>) = read_view c"
  "read_view (c\<lparr>writing := w\<rparr>) = read_view c"
  "read_view (c\<lparr>tasks := ts\<rparr>) = read_view c"
  "read_view (c\<lparr>sent_bytes := b\<rparr>) = read_view c"
  "read_view (c\<lparr>m_messages_out := q\<rparr>) = read_view c"
  "read_view (c\<lparr>m_pending_writes := n\<rparr>) = read_view c"
  "read_view (c\<lparr>m_close_after_flush := b'\<rparr>) = read_view c"
  by (simp_all add: read_view_def close_socket_def popped_msg_def Let_def)

lemma write_inv_mono:
  assumes "write_inv c"
    and "m_messages_out c' = m_messages_out c" "tasks c' = tasks c" "writing c' = writing c"
      "m_pending_writes c' = m_pending_writes c"
    and "m_validated c \<Longrightarrow> m_validated c'"
    and "m_socket_open c' \<Longrightarrow> m_socket_open c \<or> \<not> m_validated c"
    and "hs_writing c' \<Longrightarrow> hs_writing c \<or> \<not> m_validated c"
  shows "write_inv c'"
  using assms by (auto simp: write_inv_def)

lemma write_inv_popped_msg:
  assumes "write_inv c" "writing c \<noteq> WIdle" "m_deq (m_messages_out c) = m # ms"
  shows "write_inv (popped_msg (c\<lparr>writing := WIdle, sent_bytes := b\<rparr>))"
  using assms by (auto simp: write_inv_def popped_msg_def close_socket_def Let_def)

lemma write_inv_failed:
  "write_inv c \<Longrightarrow> m_deq (m_messages_out c) \<noteq> [] \<Longrightarrow> write_inv (close_socket (c\<lparr>writing := WIdle\<rparr>))"
  by (auto simp: write_inv_def close_socket_def)

lemma write_inv_body:
  "write_inv c \<Longrightarrow> writing c \<noteq> WIdle \<Longrightarrow> m_deq (m_messages_out c) = m # ms \<Longrightarrow> body m \<noteq> [] \<Longrightarrow>
     write_inv (c\<lparr>writing := WBody, sent_bytes := b\<rparr>)"
  by (auto simp: write_inv_def)

lemma write_inv_nonempty:
  assumes "write_inv c" "writing c \<noteq> WIdle"
  obtains m ms where "m_deq (m_messages_out c) = m # ms"
  using assms by (cases "m_deq (m_messages_out c)") (auto simp: write_inv_def)

lemma write_inv_alone: "write_inv c \<Longrightarrow> writing c \<noteq> WIdle \<Longrightarrow> \<not> hs_writing c"
  by (simp add: write_inv_def)

lemma writeHeader_done_inv:
  assumes "write_inv c" "writing c = WHeader"
  shows "\<exists>c'. writeHeader_done ok c = Some c' \<and> write_inv c' \<and> read_view c' = read_view c"
proof -
  obtain m ms where "m_deq (m_messages_out c) = m # ms"
    by (rule write_inv_nonempty[OF assms(1)]) (use assms(2) in auto)
  then show ?thesis using assms write_inv_alone[OF assms(1)]
    by (simp add: writeHeader_done_eq write_inv_popped_msg write_inv_failed write_inv_body)
qed

lemma writeBody_done_inv:
  assumes "write_inv c" "writing c = WBody"
  shows "\<exists>c'. writeBody_done ok c = Some c' \<and> write_inv c' \<and> read_view c' = read_view c"
proof -
  obtain m ms where "m_deq (m_messages_out c) = m # ms"
    by (rule write_inv_nonempty[OF assms(1)]) (use assms(2) in auto)
  then show ?thesis using assms write_inv_alone[OF assms(1)]
    by (simp add: writeBody_done_eq write_inv_popped_msg write_inv_failed)
qed

lemma run_task_inv:
  assumes "write_inv c" "i < length (tasks c)" "take_task i c = (t, c1)" "\<not> overlaps t c1"
  shows "\<exists>c'. run_task t c1 = Some c' \<and> write_inv c' \<and> read_view c' = read_view c"
proof -
  have c1: "c1 = c\<lparr>tasks := take i (tasks c) @ drop (Suc i) (tasks c)\<rparr>" and t: "t = tasks c ! i"
    using assms(3) by (auto simp: take_task_def)
  have "m_deq (m_messages_out c1) = [] \<longrightarrow> writing c1 = WIdle"
    using assms(1) by (simp add: c1 write_inv_def)
  note eq = run_task_eq[OF this assms(4)]
  have no: "\<not> overlaps t c" using assms(4) by (simp add: overlaps_def c1)
  show ?thesis unfolding eq using assms(1) task_msgs_take_drop[OF assms(2)] no
    by (cases t) (auto simp: c1 t[symmetric] write_inv_def close_socket_def hd_append overlaps_def)
qed

text \<open>The read handlers and the handshake, in closed form.\<close>

lemma writeValidation_done_eq:
  assumes "m_owner_type c = Client \<longrightarrow> reading c = RIdle"
  shows "writeValidation_done ok c = Some
    (if \<not> ok then close_socket (c\<lparr>hs_writing := False\<rparr>)
     else if m_owner_type c = Client
     then c\<lparr>hs_writing := False, m_validated := True, reading := RHeader\<rparr>
     else c\<lparr>hs_writing := False\<rparr>)"
  using assms by (auto simp: writeValidation_done_def readHeader_def Let_def)

lemma readValidation_done_eq:
  assumes "m_owner_type c = Client \<longrightarrow> \<not> hs_writing c \<and> writing c = WIdle"
  shows "readValidation_done r c = Some
    (case r of None \<Rightarrow> close_socket (c\<lparr>reading := RIdle\<rparr>)
     | Some v \<Rightarrow>
       if m_owner_type c = Server then
         if v = m_handshake_crypted c
         then c\<lparr>reading := RHeader, m_handshake_in := v, m_validated := True\<rparr>
         else close_socket (c\<lparr>reading := RIdle, m_handshake_in := v\<rparr>)
       else c\<lparr>reading := RIdle, m_handshake_in := v, m_handshake_out := obfuscate v, hs_writing := True\<rparr>)"
  using assms EOwner.exhaust[of "m_owner_type c"]
  by (auto simp: readValidation_done_def readHeader_def writeValidation_def Let_def split: option.splits)

lemma connect_done_eq:
  assumes "reading c = RIdle"
  shows "connect_done ok opn c = Some
    (if ok then c\<lparr>connecting := False, m_socket_open := True, reading := RValidation\<rparr>
     else c\<lparr>connecting := False, m_socket_open := opn\<rparr>)"
  using assms by (simp add: connect_done_def readValidation_def)

definition owned :: "nat \<Rightarrow> connection \<Rightarrow> message \<Rightarrow> owned_message" where
  "owned self c m = \<lparr>remote = (if m_owner_type c = Server then Some self else None), owned_msg = m\<rparr>"

lemma addToIncomingMessageQueue_eq:
  assumes "reading c = RIdle"
  shows "addToIncomingMessageQueue self (c, q) = Some
    (c\<lparr>m_forming_in_message := new_message, reading := RHeader\<rparr>,
     push_back (owned self c (m_forming_in_message c)) q)"
  using assms by (simp add: addToIncomingMessageQueue_def readHeader_def owned_def)

lemma readHeader_done_eq:
  assumes "m_forming_in_message c = new_message"
  shows "readHeader_done self r (c, q) = Some
    (case r of None \<Rightarrow> (close_socket (c\<lparr>reading := RIdle\<rparr>), q)
     | Some h \<Rightarrow>
       if hdr_size h \<noteq> 0 then
         (c\<lparr>reading := RBody, m_forming_in_message :=
              \<lparr>header = h, body = replicate (unat (hdr_size h)) 0\<rparr>\<rparr>, q)
       else (c\<lparr>reading := RHeader, m_forming_in_message := new_message\<rparr>,
             push_back (owned self c \<lparr>header = h, body = []\<rparr>) q))"
  using assms
  by (auto simp: readHeader_done_def readBody_def addToIncomingMessageQueue_eq new_message_def
      owned_def Let_def word_gt_0 split: option.splits)

lemma readBody_done_eq:
  "readBody_done self r (c, q) = Some
    (case r of None \<Rightarrow> (close_socket (c\<lparr>reading := RIdle\<rparr>), q)
     | Some bs \<Rightarrow>
         (c\<lparr>reading := RHeader, m_forming_in_message := new_message\<rparr>,
          push_back (owned self c ((m_forming_in_message c)\<lparr>body := bs\<rparr>)) q))"
  by (auto simp: readBody_done_def addToIncomingMessageQueue_eq owned_def Let_def split: option.splits)

text \<open>How the steps of the read side change the state, each kept by the invariant.\<close>

lemma read_inv_close [simp]: "read_inv (close_socket c) = read_inv c"
  by (rule read_inv_cong) simp

lemma read_inv_idle: "read_inv c \<Longrightarrow> read_inv (c\<lparr>reading := RIdle\<rparr>)"
  by (simp add: read_inv_def)

lemma read_inv_next_header:
  "read_inv c \<Longrightarrow> reading c = RHeader \<or> reading c = RBody \<Longrightarrow>
     read_inv (c\<lparr>reading := RHeader, m_forming_in_message := new_message\<rparr>)"
  by (elim disjE; simp add: read_inv_def)

lemma read_inv_body:
  "read_inv c \<Longrightarrow> reading c = RHeader \<Longrightarrow> sized m \<Longrightarrow>
     read_inv (c\<lparr>reading := RBody, m_forming_in_message := m\<rparr>)"
  by (simp add: read_inv_def)

lemma read_inv_challenge:
  "read_inv c \<Longrightarrow> reading c = RValidation \<Longrightarrow> m_owner_type c = Client \<Longrightarrow>
     read_inv (c\<lparr>reading := RIdle, m_handshake_in := v, m_handshake_out := w, hs_writing := True\<rparr>)"
  by (simp add: read_inv_def)

lemma read_inv_answer:
  "read_inv c \<Longrightarrow> reading c = RValidation \<Longrightarrow> m_owner_type c = Server \<Longrightarrow>
     read_inv (c\<lparr>reading := RHeader, m_handshake_in := m_handshake_crypted c, m_validated := True\<rparr>)"
  by (simp add: read_inv_def)

lemma read_inv_wrong_answer:
  "read_inv c \<Longrightarrow> reading c = RValidation \<Longrightarrow> m_owner_type c = Server \<Longrightarrow>
     read_inv (c\<lparr>reading := RIdle, m_handshake_in := v\<rparr>)"
  by (simp add: read_inv_def)

lemmas read_inv_steps = read_inv_idle read_inv_next_header read_inv_body read_inv_challenge
  read_inv_answer read_inv_wrong_answer

lemma conn_invI:
  assumes "conn_inv c" "read_inv c'"
    and "m_messages_out c' = m_messages_out c" "tasks c' = tasks c" "writing c' = writing c"
      "m_pending_writes c' = m_pending_writes c"
    and "m_validated c \<Longrightarrow> m_validated c'"
    and "m_socket_open c' \<Longrightarrow> m_socket_open c \<or> \<not> m_validated c"
    and "hs_writing c' \<Longrightarrow> hs_writing c \<or> \<not> m_validated c"
  shows "conn_inv c'"
  using assms write_inv_mono[of c c'] by (simp add: conn_inv_def)

lemma writeValidation_done_inv:
  assumes "conn_inv c" "hs_writing c"
  shows "\<exists>c'. writeValidation_done ok c = Some c' \<and> conn_inv c'"
proof -
  have i: "read_inv c" using assms(1) by (simp add: conn_inv_def)
  let ?c = "if \<not> ok then close_socket (c\<lparr>hs_writing := False\<rparr>)
     else if m_owner_type c = Client
     then c\<lparr>hs_writing := False, m_validated := True, reading := RHeader\<rparr>
     else c\<lparr>hs_writing := False\<rparr>"
  have "m_owner_type c = Client \<longrightarrow> reading c = RIdle" using i assms(2) by (simp add: read_inv_def)
  then have "writeValidation_done ok c = Some ?c" by (rule writeValidation_done_eq)
  moreover have "read_inv ?c" using i assms(2) by (simp add: read_inv_def close_socket_def)
  then have "conn_inv ?c"
    by (rule conn_invI[OF assms(1)]) (simp_all add: close_socket_def split: if_splits)
  ultimately show ?thesis by blast
qed

lemma readValidation_done_inv:
  assumes "conn_inv c" "reading c = RValidation"
  shows "\<exists>c'. readValidation_done r c = Some c' \<and> conn_inv c'"
proof -
  have i: "read_inv c" using assms(1) by (simp add: conn_inv_def)
  have v: "\<not> m_validated c" using i assms(2) by (simp add: read_inv_def)
  then have "writing c = WIdle" using assms(1) by (auto simp: conn_inv_def write_inv_def)
  then have "m_owner_type c = Client \<longrightarrow> \<not> hs_writing c \<and> writing c = WIdle"
    using i assms(2) by (simp add: read_inv_def)
  note eq = readValidation_done_eq[OF this, of r]
  have "read_inv (the (readValidation_done r c))"
    unfolding eq option.sel
    using i assms(2) EOwner.exhaust[of "m_owner_type c"]
    by (cases r; cases "m_owner_type c") (simp_all add: read_inv_steps)
  then have "conn_inv (the (readValidation_done r c))"
    by (rule conn_invI[OF assms(1)])
      (simp_all add: eq v close_socket_def split: option.splits if_splits)
  then show ?thesis by (simp add: eq)
qed

lemma readHeader_done_inv:
  assumes "conn_inv c" "reading c = RHeader"
  shows "\<exists>c' q'. readHeader_done self r (c, q) = Some (c', q') \<and> conn_inv c'"
proof -
  have i: "read_inv c" using assms(1) by (simp add: conn_inv_def)
  have "m_forming_in_message c = new_message" using i assms(2) by (simp add: read_inv_def)
  note eq = readHeader_done_eq[OF this, of self r q]
  have "read_inv (fst (the (readHeader_done self r (c, q))))"
    unfolding eq option.sel
    using i assms(2) by (cases r) (simp_all add: read_inv_steps sized_def)
  then have "conn_inv (fst (the (readHeader_done self r (c, q))))"
    by (rule conn_invI[OF assms(1)])
      (simp_all add: eq close_socket_def split: option.splits if_splits)
  moreover obtain p where "readHeader_done self r (c, q) = Some p" using eq by blast
  ultimately show ?thesis by (cases p) simp
qed

lemma readBody_done_inv:
  assumes "conn_inv c" "reading c = RBody"
  shows "\<exists>c' q'. readBody_done self r (c, q) = Some (c', q') \<and> conn_inv c'"
proof -
  have i: "read_inv c" using assms(1) by (simp add: conn_inv_def)
  note eq = readBody_done_eq[of self r c q]
  have "read_inv (fst (the (readBody_done self r (c, q))))"
    unfolding eq option.sel using i assms(2) by (cases r) (simp_all add: read_inv_steps)
  then have "conn_inv (fst (the (readBody_done self r (c, q))))"
    by (rule conn_invI[OF assms(1)])
      (simp_all add: eq close_socket_def split: option.splits if_splits)
  moreover obtain p where "readBody_done self r (c, q) = Some p" using eq by blast
  ultimately show ?thesis by (cases p) simp
qed

lemma connect_done_inv:
  assumes "conn_inv c" "connecting c"
  shows "\<exists>c'. connect_done ok opn c = Some c' \<and> conn_inv c'" "conn_inv (c\<lparr>m_socket_open := opn\<rparr>)"
proof -
  have i: "read_inv c" and w: "write_inv c" using assms(1) by (simp_all add: conn_inv_def)
  have "reading c = RIdle" using i assms(2) by (simp add: read_inv_def)
  note eq = connect_done_eq[OF this, of ok opn]
  have v: "\<not> m_validated c" using i assms(2) by (simp add: read_inv_def)
  have "read_inv (the (connect_done ok opn c))"
    using i assms(2) by (simp add: eq read_inv_def)
  moreover have "write_inv (the (connect_done ok opn c))"
    by (rule write_inv_mono[OF w]) (simp_all add: eq v)
  ultimately show "\<exists>c'. connect_done ok opn c = Some c' \<and> conn_inv c'"
    by (simp add: eq conn_inv_def)
  show "conn_inv (c\<lparr>m_socket_open := opn\<rparr>)"
    using i write_inv_mono[OF w, of "c\<lparr>m_socket_open := opn\<rparr>"] v by (simp add: conn_inv_def read_inv_def)
qed

lemma call_read_view [simp]:
  "read_view (snd (send m c)) = read_view c" "read_view (disconnect c) = read_view c"
  "read_view (disconnectAfterFlush c) = read_view c"
  by (simp_all add: send_def disconnect_def disconnectAfterFlush_def read_view_def)

lemma call_write_inv:
  assumes "write_inv c"
  shows "write_inv (snd (send m c))" "write_inv (disconnect c)" "write_inv (disconnectAfterFlush c)"
  using assms by (auto simp: send_def disconnect_def disconnectAfterFlush_def write_inv_def)

lemma conn_inv_read_view:
  "conn_inv c \<Longrightarrow> read_view c' = read_view c \<Longrightarrow> write_inv c' \<Longrightarrow> conn_inv c'"
  using read_inv_cong[of c' c] by (simp add: conn_inv_def)

definition overlapping :: "conn_event \<Rightarrow> connection \<Rightarrow> bool" where
  "overlapping e c \<longleftrightarrow> (\<exists>i. e = RunTask i \<and> overlaps (tasks c ! i) c)"

lemma overlapping_undefined:
  assumes "overlapping e c"
  shows "conn_exec self e (c, q) = None"
proof -
  obtain i where e: "e = RunTask i" and o: "overlaps (tasks c ! i) c"
    using assms by (auto simp: overlapping_def)
  have "overlaps (fst (take_task i c)) (snd (take_task i c))"
    using o by (simp add: overlaps_def take_task_def)
  from run_task_overlaps[OF this] show ?thesis by (cases "take_task i c") (simp add: e)
qed

lemma task_pending: "i < length ts \<Longrightarrow> ts ! i = TaskSend m \<Longrightarrow> task_msgs ts \<noteq> []"
  using task_msgs_take_drop[of i ts] by auto

lemma overlapping_at_server:
  assumes "conn_inv c" "conn_enabled e c" "overlapping e c"
  shows "m_owner_type c = Server \<and> m_validated c"
proof -
  obtain i m where i: "e = RunTask i" "tasks c ! i = TaskSend m" "hs_writing c"
    using assms(3) by (auto simp: overlapping_def overlaps_def)
  then have "task_msgs (tasks c) \<noteq> []" using task_pending[of i "tasks c" m] assms(2) by simp
  then have v: "m_validated c" using assms(1) by (auto simp: conn_inv_def write_inv_def)
  moreover have "m_owner_type c \<noteq> Client" using assms(1) i(3) v
    by (auto simp: conn_inv_def read_inv_def)
  then have "m_owner_type c = Server" by (cases "m_owner_type c") auto
  ultimately show ?thesis by simp
qed

lemma conn_exec_inv:
  assumes "conn_inv c" "conn_enabled e c" "\<not> overlapping e c"
  shows "\<exists>c' q'. conn_exec self e (c, q) = Some (c', q') \<and> conn_inv c'"
proof -
  note W = conn_inv_read_view[OF assms(1)]
  have w: "write_inv c" using assms(1) by (simp add: conn_inv_def)
  show ?thesis
  proof (cases e)
    case (RunTask i)
    obtain t c1 where t: "take_task i c = (t, c1)" by fastforce
    have "i < length (tasks c)" using RunTask assms(2) by simp
    moreover have "\<not> overlaps t c1" using RunTask assms(3) t
      by (auto simp: overlapping_def overlaps_def take_task_def)
    ultimately obtain c' where "run_task t c1 = Some c'" "write_inv c'" "read_view c' = read_view c"
      using run_task_inv[OF w _ t] by blast
    then show ?thesis using W t RunTask by simp
  next
    case (HeaderWritten ok)
    then obtain c' where "writeHeader_done ok c = Some c'" "write_inv c'" "read_view c' = read_view c"
      using writeHeader_done_inv[OF w, of ok] assms(2) by auto
    then show ?thesis using HeaderWritten W by simp
  next
    case (BodyWritten ok)
    then obtain c' where "writeBody_done ok c = Some c'" "write_inv c'" "read_view c' = read_view c"
      using writeBody_done_inv[OF w, of ok] assms(2) by auto
    then show ?thesis using BodyWritten W by simp
  next
    case (ValidationWritten ok)
    then obtain c' where "writeValidation_done ok c = Some c'" "conn_inv c'"
      using writeValidation_done_inv[OF assms(1), of ok] assms(2) by auto
    then show ?thesis using ValidationWritten by simp
  next
    case (ValidationRead r)
    then obtain c' where "readValidation_done r c = Some c'" "conn_inv c'"
      using readValidation_done_inv[OF assms(1), of r] assms(2) by auto
    then show ?thesis using ValidationRead by simp
  next
    case (HeaderRead r)
    then show ?thesis using readHeader_done_inv[OF assms(1), of self r q] assms(2) by simp
  next
    case (BodyRead r)
    then show ?thesis using readBody_done_inv[OF assms(1), of self r q] assms(2) by simp
  next
    case (ConnectDone ok opn)
    then obtain c' where "connect_done ok opn c = Some c'" "conn_inv c'"
      using connect_done_inv(1)[OF assms(1), of ok opn] assms(2) by auto
    then show ?thesis using ConnectDone by simp
  next
    case (AsioOpen opn)
    then show ?thesis using connect_done_inv(2)[OF assms(1), of opn] assms(2) by simp
  qed (use W call_write_inv[OF w] in simp_all)
qed

lemma conn_exec_None_iff:
  assumes "conn_inv c" "conn_enabled e c"
  shows "conn_exec self e (c, q) = None \<longleftrightarrow> overlapping e c"
  using conn_exec_inv[OF assms, of self q] overlapping_undefined[of e c self q] by fastforce

lemma conn_exec_keeps_inv:
  assumes "conn_inv c" "conn_enabled e c" "conn_exec self e (c, q) = Some (c', q')"
  shows "conn_inv c'"
proof -
  have "\<not> overlapping e c" using overlapping_undefined[of e c self q] assms(3) by auto
  then show ?thesis using conn_exec_inv[OF assms(1,2), of self q] assms(3) by auto
qed

lemma conn_run_inv:
  assumes "conn_run self s es s'" "conn_inv (fst s)"
  shows "conn_inv (fst s')"
  using assms
proof (induction rule: conn_run.induct)
  case (conn_run_Nil s)
  then show ?case by simp
next
  case (conn_run_snoc s es s' e s'')
  then show ?case
    using conn_exec_keeps_inv[of "fst s'" e self "snd s'" "fst s''" "snd s''"]
    by (simp add: conn_step_iff)
qed

section \<open>Delivery\<close>

definition frame :: "message \<Rightarrow> bytes" where
  "frame m = header_bytes (header m) @ body m"

text \<open>The messages whose \<open>send\<close> returned true, in order.\<close>

fun accepted :: "conn_event list \<Rightarrow> message list" where
  "accepted [] = []"
| "accepted (CallSend m True # es) = m # accepted es"
| "accepted (_ # es) = accepted es"

lemma accepted_append [simp]: "accepted (es @ es') = accepted es @ accepted es'"
  by (induction es rule: accepted.induct) auto

text \<open>Posted tasks run in the order of posting.\<close>

definition fifo_tasks :: "conn_event list \<Rightarrow> bool" where
  "fifo_tasks es \<longleftrightarrow> (\<forall>i. RunTask i \<in> set es \<longrightarrow> i = 0)"

lemma fifo_tasks_snoc [simp]: "fifo_tasks (es @ [e]) \<longleftrightarrow> fifo_tasks es \<and> (\<forall>i. e = RunTask i \<longrightarrow> i = 0)"
  by (auto simp: fifo_tasks_def)

text \<open>\<open>ws\<close> are the messages completely written, \<open>P\<close> is the header of the one half written.\<close>

definition wire :: "message list \<Rightarrow> bytes \<Rightarrow> message list \<Rightarrow> connection \<Rightarrow> bool" where
  "wire ws P acc c \<longleftrightarrow>
     acc = ws @ m_deq (m_messages_out c) @ task_msgs (tasks c) \<and>
     sent_bytes c = concat (map frame ws) @ P \<and>
     (P = [] \<or> m_deq (m_messages_out c) \<noteq> [] \<and> body (hd (m_deq (m_messages_out c))) \<noteq> [] \<and>
        P = header_bytes (header (hd (m_deq (m_messages_out c))))) \<and>
     (writing c = WHeader \<longrightarrow> P = []) \<and>
     (writing c = WBody \<longrightarrow> P = header_bytes (header (hd (m_deq (m_messages_out c)))))"

text \<open>What a write-side step does to the number of written messages: \<open>d\<close> of them.\<close>

lemma popped_msg_simps [simp]:
  "m_messages_out (popped_msg c) = \<lparr>m_deq = tl (m_deq (m_messages_out c))\<rparr>"
  "tasks (popped_msg c) = tasks c" "sent_bytes (popped_msg c) = sent_bytes c"
  "m_close_after_flush (popped_msg c) = m_close_after_flush c"
  by (simp_all add: popped_msg_def Let_def close_socket_def)

lemma popped_msg_writing:
  "writing c = WIdle \<Longrightarrow> writing (popped_msg c) = (if tl (m_deq (m_messages_out c)) = [] then WIdle else WHeader)"
  by (simp add: popped_msg_def Let_def close_socket_def)

lemma popped_msg_open:
  "m_socket_open (popped_msg c) \<longleftrightarrow>
     m_socket_open c \<and> (tl (m_deq (m_messages_out c)) \<noteq> [] \<or> \<not> m_close_after_flush c)"
  by (auto simp: popped_msg_def Let_def close_socket_def)

lemma wire_popped_msg:
  assumes "wire ws P acc c" "m_deq (m_messages_out c) = m # ms"
    and "b = concat (map frame ws) @ frame m"
  shows "wire (ws @ [m]) [] acc (popped_msg (c\<lparr>writing := WIdle, sent_bytes := b\<rparr>))"
  using assms by (simp add: wire_def popped_msg_writing)

text \<open>A completed write moves \<open>d\<close> messages (none or one) from the queue to the wire and closes the
  socket only on an error or when the queue has been flushed.\<close>

definition wrote :: "bool \<Rightarrow> nat \<Rightarrow> connection \<Rightarrow> connection \<Rightarrow> bool" where
  "wrote ok d c c' \<longleftrightarrow>
     m_deq (m_messages_out c') = drop d (m_deq (m_messages_out c)) \<and>
     d \<le> length (m_deq (m_messages_out c)) \<and> tasks c' = tasks c \<and>
     m_close_after_flush c' = m_close_after_flush c \<and>
     (m_socket_open c \<and> ok \<and> \<not> m_socket_open c' \<longrightarrow>
        m_close_after_flush c \<and> drop d (m_deq (m_messages_out c)) = [])"

lemma wrote_popped_msg:
  "m_deq (m_messages_out c) = m # ms \<Longrightarrow>
     wrote ok 1 c (popped_msg (c\<lparr>writing := WIdle, sent_bytes := b\<rparr>))"
  by (auto simp: wrote_def popped_msg_open)

lemma wire_writeHeader_done:
  assumes "wire ws P acc c" "write_inv c" "writing c = WHeader" "writeHeader_done ok c = Some c'"
  shows "\<exists>d P'. wire (ws @ take d (m_deq (m_messages_out c))) P' acc c' \<and> wrote ok d c c'"
proof -
  obtain m ms where m: "m_deq (m_messages_out c) = m # ms"
    by (rule write_inv_nonempty[OF assms(2)]) (use assms(3) in auto)
  have P: "P = []" using assms(1,3) by (simp add: wire_def)
  have "\<not> hs_writing c" using write_inv_alone[OF assms(2)] assms(3) by simp
  note c' = assms(4)[unfolded writeHeader_done_eq[OF m this] option.inject, symmetric]
  consider (err) "\<not> ok" | (body) "ok" "body m \<noteq> []" | (nobody) "ok" "body m = []" by blast
  then show ?thesis
  proof cases
    case err
    then have "wire (ws @ take 0 (m_deq (m_messages_out c))) [] acc c' \<and> wrote ok 0 c c'"
      using assms(1) P by (simp add: c' wire_def wrote_def close_socket_def)
    then show ?thesis by blast
  next
    case body
    then have "wire (ws @ take 0 (m_deq (m_messages_out c))) (header_bytes (header m)) acc c' \<and>
        wrote ok 0 c c'"
      using assms(1) P m by (simp add: c' wire_def wrote_def)
    then show ?thesis by blast
  next
    case nobody
    then have "wire (ws @ take 1 (m_deq (m_messages_out c))) [] acc c' \<and> wrote ok 1 c c'"
      using assms(1) P m wrote_popped_msg[OF m]
      by (auto simp: c' frame_def wire_def popped_msg_writing)
    then show ?thesis by blast
  qed
qed

lemma wire_writeBody_done:
  assumes "wire ws P acc c" "write_inv c" "writing c = WBody" "writeBody_done ok c = Some c'"
  shows "\<exists>d P'. wire (ws @ take d (m_deq (m_messages_out c))) P' acc c' \<and> wrote ok d c c'"
proof -
  obtain m ms where m: "m_deq (m_messages_out c) = m # ms"
    by (rule write_inv_nonempty[OF assms(2)]) (use assms(3) in auto)
  have P: "P = header_bytes (header m)" using assms(1,3) m by (simp add: wire_def)
  have "\<not> hs_writing c" using write_inv_alone[OF assms(2)] assms(3) by simp
  note c' = assms(4)[unfolded writeBody_done_eq[OF m this] option.inject, symmetric]
  show ?thesis
  proof (cases ok)
    case False
    then have "wire (ws @ take 0 (m_deq (m_messages_out c))) P acc c' \<and> wrote ok 0 c c'"
      using assms(1) by (simp add: c' wire_def wrote_def close_socket_def)
    then show ?thesis by blast
  next
    case True
    then have "wire (ws @ take 1 (m_deq (m_messages_out c))) [] acc c' \<and> wrote ok 1 c c'"
      using assms(1) P m wrote_popped_msg[OF m]
      by (auto simp: c' frame_def wire_def popped_msg_writing)
    then show ?thesis by blast
  qed
qed

text \<open>The first posted task runs.\<close>

lemma take_task_0: "tasks c = t # ts \<Longrightarrow> take_task 0 c = (t, c\<lparr>tasks := ts\<rparr>)"
  by (simp add: take_task_def)

lemma wire_run_task:
  assumes "wire ws P acc c" "write_inv c" "tasks c = t # ts" "run_task t (c\<lparr>tasks := ts\<rparr>) = Some c'"
  shows "wire ws P acc c'"
proof -
  have "m_deq (m_messages_out (c\<lparr>tasks := ts\<rparr>)) = [] \<longrightarrow> writing (c\<lparr>tasks := ts\<rparr>) = WIdle"
    using assms(2) by (simp add: write_inv_def)
  note c' = assms(4)[unfolded run_task_eq[OF this run_task_Some[OF assms(4)]] option.inject, symmetric]
  show ?thesis
    using assms(1,3) by (cases t) (auto simp: c' wire_def close_socket_def)
qed

text \<open>The fields the write side is about are untouched by the read side.\<close>

lemma read_side_frame:
  assumes "conn_exec self e (c, q) = Some (c', q')"
    and "\<And>m b. e \<noteq> CallSend m b" "e \<noteq> CallDisconnect" "e \<noteq> CallDisconnectAfterFlush"
    and "\<And>i. e \<noteq> RunTask i" "\<And>b. e \<noteq> HeaderWritten b" "\<And>b. e \<noteq> BodyWritten b"
  shows "m_messages_out c' = m_messages_out c \<and> tasks c' = tasks c \<and> writing c' = writing c \<and>
    sent_bytes c' = sent_bytes c \<and> m_close_after_flush c' = m_close_after_flush c \<and>
    m_pending_writes c' = m_pending_writes c"
  using assms
  by (cases e) (auto simp: conn_handler_defs Let_def readHeader_done_def readBody_done_def
      addToIncomingMessageQueue_def split: if_splits option.splits)

lemma wire_frame:
  assumes "wire ws P acc c" "m_messages_out c' = m_messages_out c" "task_msgs (tasks c') = task_msgs (tasks c)"
    "writing c' = writing c" "sent_bytes c' = sent_bytes c"
  shows "wire ws P acc c'"
  using assms by (simp add: wire_def)

lemma fst_send: "fst (send m c) \<longleftrightarrow> m_validated c \<and> isConnected c"
  by (simp add: send_def)

lemma snd_send: "snd (send m c) = (if fst (send m c)
    then c\<lparr>m_pending_writes := m_pending_writes c + 1, tasks := tasks c @ [TaskSend m]\<rparr> else c)"
  by (simp add: send_def)

lemma wire_send:
  "wire ws P acc c \<Longrightarrow> wire ws P (acc @ (if fst (send m c) then [m] else [])) (snd (send m c))"
  by (simp add: snd_send wire_def)

lemma wire_started: "started c \<Longrightarrow> wire [] [] [] c"
  by (auto simp: wire_def started_def client_start_def server_start_def connectToServer_def
      connectToClient_def new_connection_def conn_defs bind_eq_Some_conv)

lemma wire_step:
  assumes "wire ws P acc c" "conn_inv c" "conn_enabled e c" "\<forall>i. e = RunTask i \<longrightarrow> i = 0"
    and "conn_exec self e (c, q) = Some (c', q')"
  shows "\<exists>ws' P'. wire ws' P' (acc @ accepted [e]) c'"
proof -
  have w: "write_inv c" using assms(2) by (simp add: conn_inv_def)
  show ?thesis
  proof (cases e)
    case (CallSend m b)
    then have "wire ws P (acc @ accepted [e]) c'"
      using assms(3,5) wire_send[OF assms(1), of m] by (cases b) auto
    then show ?thesis by blast
  next
    case (RunTask i)
    with assms(3,4) obtain t ts where ts: "tasks c = t # ts" "i = 0" by (cases "tasks c") auto
    with RunTask assms(5) have "run_task t (c\<lparr>tasks := ts\<rparr>) = Some c'" by (auto simp: take_task_0)
    with wire_run_task[OF assms(1) w ts(1)] RunTask show ?thesis by auto
  next
    case (HeaderWritten ok)
    then show ?thesis using wire_writeHeader_done[OF assms(1) w, of ok c'] assms(3,5) by auto
  next
    case (BodyWritten ok)
    then show ?thesis using wire_writeBody_done[OF assms(1) w, of ok c'] assms(3,5) by auto
  next
    case CallDisconnect
    then have "wire ws P acc c'"
      using assms(5) by (intro wire_frame[OF assms(1)]) (auto simp: disconnect_def)
    with CallDisconnect show ?thesis by auto
  next
    case CallDisconnectAfterFlush
    then have "wire ws P acc c'"
      using assms(5) by (intro wire_frame[OF assms(1)]) (auto simp: disconnectAfterFlush_def)
    with CallDisconnectAfterFlush show ?thesis by auto
  qed (use read_side_frame[OF assms(5)] wire_frame[OF assms(1), of c'] in \<open>simp, blast\<close>)+
qed

lemma conn_run_wire:
  assumes "conn_run self s es s'" "started (fst s)" "fifo_tasks es"
  shows "\<exists>ws P. wire ws P (accepted es) (fst s')"
  using assms
proof (induction rule: conn_run.induct)
  case (conn_run_Nil s)
  from conn_run_Nil.prems(1) have "wire [] [] [] (fst s)" by (rule wire_started)
  then show ?case by auto
next
  case (conn_run_snoc s es s' e s'')
  then obtain ws P where "wire ws P (accepted es) (fst s')" by auto
  moreover have "conn_inv (fst s')"
    using conn_run_inv[OF conn_run_snoc.hyps(1)] conn_inv_started conn_run_snoc.prems by blast
  moreover have "conn_enabled e (fst s')" "conn_exec self e (fst s', snd s') = Some (fst s'', snd s'')"
    using conn_run_snoc.hyps(2) by (simp_all add: conn_step_iff)
  moreover have "\<forall>i. e = RunTask i \<longrightarrow> i = 0" using conn_run_snoc.prems(2) by simp
  ultimately have "\<exists>ws' P'. wire ws' P' (accepted es @ accepted [e]) (fst s'')"
    by (intro wire_step)
  then show ?case by simp
qed

text \<open>A failed write: the queue is never drained again and the socket stays closed.\<close>

definition dead :: "connection \<Rightarrow> bool" where
  "dead c \<longleftrightarrow> m_deq (m_messages_out c) \<noteq> [] \<and> writing c = WIdle \<and> \<not> m_socket_open c \<and> m_validated c"

lemma read_side_flags:
  assumes "conn_exec self e (c, q) = Some (c', q')" "conn_inv c" "conn_enabled e c" "m_validated c"
    and "\<And>m b. e \<noteq> CallSend m b" "e \<noteq> CallDisconnect" "e \<noteq> CallDisconnectAfterFlush"
    and "\<And>i. e \<noteq> RunTask i" "\<And>b. e \<noteq> HeaderWritten b" "\<And>b. e \<noteq> BodyWritten b"
  shows "m_validated c' \<and> (m_socket_open c' \<longrightarrow> m_socket_open c) \<and>
    (m_socket_open c' = m_socket_open c \<or>
      e \<in> {ValidationWritten False, HeaderRead None, BodyRead None})"
proof -
  have "\<not> connecting c" "reading c \<noteq> RValidation"
    using assms(2,4) by (auto simp: conn_inv_def read_inv_def)
  then show ?thesis using assms
    by (cases e) (auto simp: conn_handler_defs Let_def readHeader_done_def readBody_done_def
      addToIncomingMessageQueue_def split: if_splits option.splits)
qed

lemma dead_step:
  assumes "dead c" "conn_inv c" "conn_enabled e c" "conn_exec self e (c, q) = Some (c', q')"
  shows "dead c'"
proof -
  have v: "m_validated c" using assms(1) by (simp add: dead_def)
  show ?thesis
  proof (cases e)
    case (CallSend m b)
    then have "c' = snd (send m c)" using assms(4) by simp
    then show ?thesis using assms(1) by (simp add: snd_send dead_def)
  next
    case (RunTask i)
    obtain t c1 where t: "take_task i c = (t, c1)" by fastforce
    have r: "run_task t c1 = Some c'" using RunTask assms(4) t by auto
    have "m_deq (m_messages_out c1) = [] \<longrightarrow> writing c1 = WIdle"
      using t assms(1) by (auto simp: take_task_def dead_def)
    note c' = r[unfolded run_task_eq[OF this run_task_Some[OF r]] option.inject, symmetric]
    show ?thesis using t assms(1)
      by (cases t) (auto simp: c' take_task_def dead_def close_socket_def)
  next
    case CallDisconnect
    then have "c' = disconnect c" using assms(4) by simp
    then show ?thesis using assms(1) by (simp add: disconnect_def dead_def)
  next
    case CallDisconnectAfterFlush
    then have "c' = disconnectAfterFlush c" using assms(4) by simp
    then show ?thesis using assms(1) by (simp add: disconnectAfterFlush_def dead_def)
  qed (use assms(1,3) read_side_frame[OF assms(4)] read_side_flags[OF assms(4,2,3) v] in
    \<open>simp_all add: dead_def\<close>)
qed

lemma dead_run:
  assumes "conn_run self s es s'" "dead (fst s)" "conn_inv (fst s)"
  shows "dead (fst s')"
  using assms
proof (induction rule: conn_run.induct)
  case (conn_run_snoc s es s' e s'')
  have "conn_inv (fst s')" using conn_run_inv[OF conn_run_snoc.hyps(1)] conn_run_snoc.prems by blast
  then show ?case
    using dead_step[of "fst s'" e self "snd s'" "fst s''" "snd s''"] conn_run_snoc
    by (simp add: conn_step_iff)
qed simp

lemma failed_write_dead:
  assumes "conn_inv c" "e = HeaderWritten False \<or> e = BodyWritten False" "conn_enabled e c"
    and "conn_exec self e (c, q) = Some (c', q')"
  shows "dead c'"
proof -
  have w: "write_inv c" "writing c \<noteq> WIdle" using assms(1-3) by (auto simp: conn_inv_def)
  then obtain m ms where m: "m_deq (m_messages_out c) = m # ms" by (rule write_inv_nonempty)
  then have "m_validated c" using w(1) by (simp add: write_inv_def)
  then show ?thesis
    using assms(2,4) m write_inv_alone[OF w] by (auto simp: writeHeader_done_eq writeBody_done_eq dead_def close_socket_def)
qed

text \<open>After \<open>disconnectAfterFlush\<close>: the socket closes only when the first \<open>n\<close> accepted messages
  are written (\<open>k\<close> counts the written ones).\<close>

fun close_late :: "nat \<Rightarrow> nat \<Rightarrow> conn_task list \<Rightarrow> bool" where
  "close_late n k [] = True"
| "close_late n k (TaskSend m # ts) = close_late n (Suc k) ts"
| "close_late n k (TaskCloseAfterFlush # ts) = (n \<le> k \<and> close_late n k ts)"
| "close_late n k (TaskClose # ts) = False"

lemma close_late_append:
  "close_late n k (ts @ us) \<longleftrightarrow> close_late n k ts \<and> close_late n (k + length (task_msgs ts)) us"
  by (induction n k ts rule: close_late.induct) auto

definition flushing :: "nat \<Rightarrow> nat \<Rightarrow> connection \<Rightarrow> bool" where
  "flushing n k c \<longleftrightarrow> m_validated c \<and> (\<not> m_socket_open c \<longrightarrow> n \<le> k) \<and>
     (m_close_after_flush c \<longrightarrow> n \<le> k + length (m_deq (m_messages_out c))) \<and>
     close_late n (k + length (m_deq (m_messages_out c))) (tasks c)"

lemma flushing_wrote:
  assumes "flushing n k c" "wrote True d c c'" "m_validated c'" "m_socket_open c' \<or> m_socket_open c"
  shows "flushing n (k + d) c'"
  using assms by (auto simp: flushing_def wrote_def)

lemma flushing_wrote':
  assumes "flushing n k c" "wrote True d c c'" "m_validated c'"
  shows "flushing n (k + d) c'"
proof (cases "m_socket_open c' \<or> m_socket_open c")
  case True
  then show ?thesis using flushing_wrote assms by blast
next
  case False
  then show ?thesis using assms by (auto simp: flushing_def wrote_def)
qed

definition no_io_error :: "conn_event \<Rightarrow> bool" where
  "no_io_error e \<longleftrightarrow> e \<notin> {HeaderWritten False, BodyWritten False, ValidationWritten False,
     HeaderRead None, BodyRead None, CallDisconnect}"

lemma flushing_step:
  assumes "flushing n (length ws) c" "wire ws P acc c" "n \<le> length acc" "conn_inv c"
    and "conn_enabled e c" "\<forall>i. e = RunTask i \<longrightarrow> i = 0" "no_io_error e"
    and "conn_exec self e (c, q) = Some (c', q')"
  shows "\<exists>ws' P'. wire ws' P' (acc @ accepted [e]) c' \<and> flushing n (length ws') c'"
proof -
  have w: "write_inv c" using assms(4) by (simp add: conn_inv_def)
  have v: "m_validated c" using assms(1) by (simp add: flushing_def)
  have frame: ?thesis if "\<And>m b. e \<noteq> CallSend m b" "e \<noteq> CallDisconnect" "e \<noteq> CallDisconnectAfterFlush"
    "\<And>i. e \<noteq> RunTask i" "\<And>b. e \<noteq> HeaderWritten b" "\<And>b. e \<noteq> BodyWritten b"
  proof -
    note f = read_side_frame[OF assms(8) that]
    note g = read_side_flags[OF assms(8,4,5) v that]
    have "m_socket_open c' = m_socket_open c" using g assms(7) by (auto simp: no_io_error_def)
    then have "flushing n (length ws) c'" using f g assms(1) by (simp add: flushing_def)
    moreover have "wire ws P acc c'" using f by (intro wire_frame[OF assms(2)]) auto
    moreover have "accepted [e] = []" using that by (cases e) auto
    ultimately show ?thesis by auto
  qed
  show ?thesis
  proof (cases e)
    case (CallSend m b)
    then have "c' = snd (send m c)" "b = fst (send m c)" using assms(5,8) by auto
    moreover have "flushing n (length ws) (snd (send m c))"
      using assms(1) by (simp add: snd_send flushing_def close_late_append)
    ultimately show ?thesis
      using wire_send[OF assms(2), of m] CallSend by (cases b) auto
  next
    case CallDisconnectAfterFlush
    then have c': "c' = disconnectAfterFlush c" using assms(8) by simp
    have "wire ws P acc c'" by (intro wire_frame[OF assms(2)]) (auto simp: c' disconnectAfterFlush_def)
    moreover have "flushing n (length ws) c'"
      using assms(1,2,3) by (auto simp: c' disconnectAfterFlush_def flushing_def close_late_append wire_def)
    ultimately show ?thesis using CallDisconnectAfterFlush by auto
  next
    case (RunTask i)
    with assms(5,6) obtain t ts where ts: "tasks c = t # ts" "i = 0" by (cases "tasks c") auto
    with RunTask assms(8) have r: "run_task t (c\<lparr>tasks := ts\<rparr>) = Some c'" by (auto simp: take_task_0)
    have "m_deq (m_messages_out (c\<lparr>tasks := ts\<rparr>)) = [] \<longrightarrow> writing (c\<lparr>tasks := ts\<rparr>) = WIdle"
      using w by (simp add: write_inv_def)
    note c' = r[unfolded run_task_eq[OF this run_task_Some[OF r]] option.inject, symmetric]
    have "flushing n (length ws) c'"
      using assms(1) ts by (cases t) (auto simp: c' flushing_def close_socket_def)
    with wire_run_task[OF assms(2) w ts(1) r] RunTask show ?thesis by auto
  next
    case (HeaderWritten ok)
    then have ok: "ok" "writeHeader_done ok c = Some c'" "writing c = WHeader"
      using assms(5,7,8) by (auto simp: no_io_error_def)
    obtain d P' where d: "wire (ws @ take d (m_deq (m_messages_out c))) P' acc c'" "wrote True d c c'"
      using wire_writeHeader_done[OF assms(2) w ok(3,2)] ok(1) by auto
    have "m_validated c'" using writeHeader_done_inv[OF w ok(3), of ok] ok(2) v
      by (auto simp: read_view_def)
    from flushing_wrote'[OF assms(1) d(2) this] d HeaderWritten show ?thesis
      by (auto simp: wrote_def intro!: exI[of _ "ws @ take d (m_deq (m_messages_out c))"])
  next
    case (BodyWritten ok)
    then have ok: "ok" "writeBody_done ok c = Some c'" "writing c = WBody"
      using assms(5,7,8) by (auto simp: no_io_error_def)
    obtain d P' where d: "wire (ws @ take d (m_deq (m_messages_out c))) P' acc c'" "wrote True d c c'"
      using wire_writeBody_done[OF assms(2) w ok(3,2)] ok(1) by auto
    have "m_validated c'" using writeBody_done_inv[OF w ok(3), of ok] ok(2) v
      by (auto simp: read_view_def)
    from flushing_wrote'[OF assms(1) d(2) this] d BodyWritten show ?thesis
      by (auto simp: wrote_def intro!: exI[of _ "ws @ take d (m_deq (m_messages_out c))"])
  qed (use frame assms(7) in \<open>simp_all add: no_io_error_def\<close>)
qed

lemma flushing_run:
  assumes "conn_run self s es s'" "flushing n (length ws) (fst s)" "wire ws P acc (fst s)"
    and "n \<le> length acc" "conn_inv (fst s)" "fifo_tasks es" "\<forall>e\<in>set es. no_io_error e"
  shows "\<exists>ws' P'. wire ws' P' (acc @ accepted es) (fst s') \<and> flushing n (length ws') (fst s')"
  using assms
proof (induction rule: conn_run.induct)
  case (conn_run_Nil s)
  then show ?case by auto
next
  case (conn_run_snoc s es s' e s'')
  then obtain ws' P' where IH: "flushing n (length ws') (fst s')" "wire ws' P' (acc @ accepted es) (fst s')"
    by auto
  have inv: "conn_inv (fst s')"
    using conn_run_inv[OF conn_run_snoc.hyps(1)] conn_run_snoc.prems by blast
  have st: "conn_enabled e (fst s')" "conn_exec self e (fst s', snd s') = Some (fst s'', snd s'')"
    using conn_run_snoc.hyps(2) by (simp_all add: conn_step_iff)
  have len: "n \<le> length (acc @ accepted es)" using conn_run_snoc.prems by simp
  have "\<exists>ws' P'. wire ws' P' ((acc @ accepted es) @ accepted [e]) (fst s'') \<and> flushing n (length ws') (fst s'')"
    by (rule flushing_step[OF IH len inv st(1) _ _ st(2)]) (use conn_run_snoc.prems in auto)
  then show ?case by simp
qed

section \<open>Runs by evaluation\<close>

fun conn_play :: "nat \<Rightarrow> conn_event list \<Rightarrow> conn_state \<Rightarrow> conn_state option" where
  "conn_play self [] s = Some s"
| "conn_play self (e # es) s =
     (if conn_enabled e (fst s) then Option.bind (conn_exec self e s) (conn_play self es) else None)"

lemma conn_run_Cons: "conn_run self s1 es s2 \<Longrightarrow> conn_step self s e s1 \<Longrightarrow> conn_run self s (e # es) s2"
proof (induction rule: conn_run.induct)
  case (conn_run_Nil s1)
  then show ?case using conn_run.conn_run_snoc[OF conn_run.conn_run_Nil] by fastforce
next
  case (conn_run_snoc s1 es s' e' s'')
  then show ?case using conn_run.conn_run_snoc by fastforce
qed

lemma conn_play_run: "conn_play self es s = Some s' \<Longrightarrow> conn_run self s es s'"
proof (induction es arbitrary: s)
  case Nil
  then show ?case by (simp add: conn_run.conn_run_Nil)
next
  case (Cons e es)
  then obtain s1 where "conn_enabled e (fst s)" "conn_exec self e s = Some s1"
      "conn_play self es s1 = Some s'"
    by (auto split: if_splits simp: bind_eq_Some_conv)
  then show ?case using Cons.IH conn_run_Cons conn_stepI by blast
qed

text \<open>The messages of the witnesses, and a client's run up to its validation.\<close>

definition hello :: message where
  "hello = put_data [104, 105] (set_id 9 new_message)"

definition client_login :: "conn_event list" where
  "client_login = [ConnectDone True True, ValidationRead (Some 5), ValidationWritten True]"

lemmas conn_eval = conn_defs client_start_def connectToServer_def new_connection_def
  client_login_def hello_def put_data_def sync_size_def msg_size_def set_id_def new_message_def
  tsqueue_defs Let_def readHeader_done_def readBody_done_def addToIncomingMessageQueue_def

lemma hello_sent:
  "conn_play 0 (client_login @ [CallSend hello True, RunTask 0, HeaderWritten True, BodyWritten True])
     (client_start, new_queue) = Some (client_start\<lparr>m_socket_open := True, connecting := False,
       m_handshake_in := 5, m_handshake_out := obfuscate 5, m_validated := True, reading := RHeader,
       sent_bytes := [9, 0, 0, 0, 2, 0, 0, 0, 104, 105]\<rparr>, new_queue)"
  by (simp add: conn_eval header_bytes_def word_bytes_def upt_rec)

section \<open>Properties of the write side\<close>

text \<open>C12: The only undefined behaviour of a connection is a posted message that starts its write while
  the server's handshake write is outstanding: in every reachable state every other event that can
  occur is handled without touching the front of an empty queue and without starting an asynchronous
  write or read while another one is outstanding on the same socket; and that one can occur only on
  the server's side, after the validation.\<close>

theorem undefined_only_overlapping_write:
  assumes "started c" and "conn_run self (c, q) es (c', q')" and "conn_enabled e c'"
  shows "(conn_exec self e (c', q') = None \<longleftrightarrow>
      (\<exists>i m. e = RunTask i \<and> tasks c' ! i = TaskSend m \<and> m_deq (m_messages_out c') = [] \<and>
             hs_writing c')) \<and>
    (conn_exec self e (c', q') = None \<longrightarrow> m_owner_type c' = Server \<and> m_validated c')"
proof -
  have inv: "conn_inv c'"
    using conn_run_inv[OF assms(2)] conn_inv_started[OF assms(1)] by simp
  show ?thesis
    using conn_exec_None_iff[OF inv assms(3), of self q'] overlapping_at_server[OF inv assms(3)]
    by (auto simp: overlapping_def overlaps_def)
qed

text \<open>The undefined case is reachable: the answer to the challenge is read, and a message posted, before
  the completion of the challenge's own write is handled.\<close>

definition early_answer :: conn_state where
  "early_answer = the (conn_play 3 [ValidationRead (Some (obfuscate 7)), CallSend hello True]
     (the (server_start 10000 7), new_queue))"

theorem undefined_only_overlapping_write_witness:
  "conn_exec 3 (RunTask 0) early_answer = None \<and> m_validated (fst early_answer)"
proof -
  have start: "started (the (server_start 10000 7))"
    unfolding started_def by (intro disjI2 exI[of _ 10000] exI[of _ 7]) code_simp
  have "conn_play 3 [ValidationRead (Some (obfuscate 7)), CallSend hello True]
      (the (server_start 10000 7), new_queue) = Some (fst early_answer, snd early_answer)"
    unfolding early_answer_def by code_simp
  note run = conn_play_run[OF this]
  have state: "tasks (fst early_answer) = [TaskSend hello] \<and>
      m_deq (m_messages_out (fst early_answer)) = [] \<and> hs_writing (fst early_answer)"
    by code_simp
  then have "conn_enabled (RunTask 0) (fst early_answer)" by simp
  from undefined_only_overlapping_write[OF start run this]
  show ?thesis using state by simp
qed

text \<open>C11: Accepted messages are delivered in order, whole and at most once: the bytes written are the
  frames of the first accepted messages, followed by at most the header of the next one, and
  \<open>getPendingWrites\<close> is exactly the number of accepted messages that are not yet written.\<close>

theorem in_order_delivery:
  assumes "started c" and "conn_run self (c, q) es (c', q')" and "fifo_tasks es"
  shows "\<exists>ws rest P. accepted es = ws @ rest \<and> length rest = getPendingWrites c' \<and>
    sent_bytes c' = concat (map frame ws) @ P \<and>
    (P = [] \<or> (rest \<noteq> [] \<and> P = header_bytes (header (hd rest))))"
proof -
  obtain ws P where w: "wire ws P (accepted es) c'"
    using conn_run_wire[OF assms(2)] assms by auto
  have "write_inv c'" using conn_run_inv[OF assms(2)] conn_inv_started[OF assms(1)]
    by (simp add: conn_inv_def)
  then have len: "length (m_deq (m_messages_out c') @ task_msgs (tasks c')) = getPendingWrites c'"
    by (simp add: write_inv_def getPendingWrites_def)
  have "P = [] \<or> m_deq (m_messages_out c') @ task_msgs (tasks c') \<noteq> [] \<and>
      P = header_bytes (header (hd (m_deq (m_messages_out c') @ task_msgs (tasks c'))))"
    using w by (auto simp: wire_def)
  moreover have "accepted es = ws @ (m_deq (m_messages_out c') @ task_msgs (tasks c'))"
    "sent_bytes c' = concat (map frame ws) @ P"
    using w by (simp_all add: wire_def)
  ultimately show ?thesis using len by blast
qed

theorem in_order_delivery_witness:
  "\<exists>ws rest P. [hello] = ws @ rest \<and> length rest = 0 \<and>
     [9, 0, 0, 0, 2, 0, 0, 0, 104, 105] = concat (map frame ws) @ P \<and>
     (P = [] \<or> (rest \<noteq> [] \<and> P = header_bytes (header (hd rest))))"
  using in_order_delivery[OF _ conn_play_run[OF hello_sent]]
  by (simp add: started_def fifo_tasks_def client_login_def getPendingWrites_def client_start_def
      connectToServer_def new_connection_def)

text \<open>C25: \<open>waitForOutgoingQueueEmpty\<close> returns only when everything is out: whenever the predicate it
  waits for holds, the frames of all accepted messages, and nothing else, have been written.\<close>

theorem flush_means_all_written:
  assumes "started c" and "conn_run self (c, q) es (c', q')" and "fifo_tasks es" and "flush_ready c'"
  shows "sent_bytes c' = concat (map frame (accepted es))"
proof -
  obtain ws P where w: "wire ws P (accepted es) c'"
    using conn_run_wire[OF assms(2)] assms by auto
  have "write_inv c'" using conn_run_inv[OF assms(2)] conn_inv_started[OF assms(1)]
    by (simp add: conn_inv_def)
  then show ?thesis using w assms(4) by (auto simp: wire_def write_inv_def flush_ready_def)
qed

theorem flush_means_all_written_witness:
  "[9, 0, 0, 0, 2, 0, 0, 0, 104, 105] = concat (map frame [hello])"
  using flush_means_all_written[OF _ conn_play_run[OF hello_sent]]
  by (simp add: started_def fifo_tasks_def client_login_def flush_ready_def client_start_def
      connectToServer_def new_connection_def)

text \<open>C35: After a failed write the connection is closed for good and the flush predicate never holds
  again, whatever happens afterwards: a thread inside \<open>waitForOutgoingQueueEmpty\<close> (or entering it)
  is never released.\<close>

theorem flush_hangs_after_write_error:
  assumes "started c" and "conn_run self (c, q) es s1"
    and "e = HeaderWritten False \<or> e = BodyWritten False" and "conn_step self s1 e s2"
    and "conn_run self s2 es' (c', q')"
  shows "\<not> flush_ready c' \<and> \<not> isConnected c' \<and> 0 < getPendingWrites c'"
proof -
  have inv: "conn_inv (fst s1)" using conn_run_inv[OF assms(2)] conn_inv_started[OF assms(1)] by simp
  have st: "conn_enabled e (fst s1)" "conn_exec self e (fst s1, snd s1) = Some (fst s2, snd s2)"
    using assms(4) by (simp_all add: conn_step_iff)
  have "dead (fst s2)" by (rule failed_write_dead[OF inv assms(3) st])
  moreover have inv2: "conn_inv (fst s2)" by (rule conn_exec_keeps_inv[OF inv st])
  ultimately have "dead c'" using dead_run[OF assms(5)] by simp
  moreover have "write_inv c'" using conn_run_inv[OF assms(5)] inv2 by (simp add: conn_inv_def)
  ultimately show ?thesis
    by (simp add: dead_def flush_ready_def isConnected_def getPendingWrites_def write_inv_def)
qed

theorem flush_hangs_after_write_error_witness:
  "\<exists>c' q'. conn_play 0 (client_login @ [CallSend hello True, RunTask 0, HeaderWritten False])
     (client_start, new_queue) = Some (c', q') \<and> \<not> flush_ready c' \<and> \<not> isConnected c'"
proof -
  let ?s0 = "(client_start, new_queue) :: conn_state"
  define s1 where "s1 = the (conn_play 0 (client_login @ [CallSend hello True, RunTask 0]) ?s0)"
  define s2 where "s2 = the (conn_exec 0 (HeaderWritten False) s1)"
  have 1: "conn_play 0 (client_login @ [CallSend hello True, RunTask 0]) ?s0 = Some s1"
    by (simp add: s1_def conn_eval)
  have 2: "conn_step 0 s1 (HeaderWritten False) s2"
    by (rule conn_stepI) (simp_all add: s1_def s2_def conn_eval)
  have "\<not> flush_ready (fst s2) \<and> \<not> isConnected (fst s2) \<and> 0 < getPendingWrites (fst s2)"
    by (rule flush_hangs_after_write_error[OF _ conn_play_run[OF 1] _ 2,
          where es' = "[]" and q' = "snd s2"])
      (simp_all add: started_def conn_run.conn_run_Nil)
  moreover have "conn_play 0 (client_login @ [CallSend hello True, RunTask 0, HeaderWritten False]) ?s0
      = Some (fst s2, snd s2)"
    by (simp add: s1_def s2_def conn_eval)
  ultimately show ?thesis by blast
qed

text \<open>C10: \<open>disconnectAfterFlush\<close> loses nothing: if it is called on an open, validated connection with
  no close under way, and no I/O error or \<open>disconnect\<close> intervenes, then the socket is not closed
  before every message accepted until that call is completely written.\<close>

theorem disconnect_after_flush_delivers:
  assumes "started c" and "conn_run self (c, q) es1 (c1, q1)" and "fifo_tasks es1"
    and "m_validated c1" "isConnected c1" "\<not> m_close_after_flush c1" "\<forall>t\<in>set (tasks c1). \<exists>m. t = TaskSend m"
    and "conn_run self (disconnectAfterFlush c1, q1) es2 (c2, q2)" and "fifo_tasks es2"
    and "\<forall>e\<in>set es2. no_io_error e" and "\<not> isConnected c2"
  shows "\<exists>later. sent_bytes c2 = concat (map frame (accepted es1)) @ later"
proof -
  obtain ws P where w: "wire ws P (accepted es1) c1"
    using conn_run_wire[OF assms(2)] assms(1,3) by auto
  have inv: "conn_inv c1" using conn_run_inv[OF assms(2)] conn_inv_started[OF assms(1)] by simp
  let ?n = "length (accepted es1)"
  have "close_late n k ts" if "\<forall>t\<in>set ts. \<exists>m. t = TaskSend m" for n k ts
    using that by (induction n k ts rule: close_late.induct) auto
  then have "flushing ?n (length ws) (disconnectAfterFlush c1)"
    using w assms(4-7)
    by (auto simp: flushing_def disconnectAfterFlush_def close_late_append wire_def isConnected_def)
  moreover have "wire ws P (accepted es1) (disconnectAfterFlush c1)"
    by (rule wire_frame[OF w]) (simp_all add: disconnectAfterFlush_def)
  moreover have "conn_inv (disconnectAfterFlush c1)"
    using inv by (intro conn_inv_read_view[OF inv] call_write_inv) (simp_all add: conn_inv_def)
  ultimately obtain ws' P' where "wire ws' P' (accepted es1 @ accepted es2) c2" "flushing ?n (length ws') c2"
    using flushing_run[OF assms(8), of ?n ws P "accepted es1"] assms(9,10) by auto
  then have "?n \<le> length ws'" "\<exists>more. accepted es1 @ accepted es2 = ws' @ more"
    "sent_bytes c2 = concat (map frame ws') @ P'"
    using assms(11) by (auto simp: flushing_def wire_def isConnected_def)
  then obtain more where "ws' = accepted es1 @ more"
    by (metis append_eq_append_conv_if append_take_drop_id)
  then show ?thesis using \<open>sent_bytes c2 = _\<close> by auto
qed

theorem disconnect_after_flush_delivers_witness:
  "\<exists>c1 q1 c2 q2. conn_play 0 (client_login @ [CallSend hello True]) (client_start, new_queue) = Some (c1, q1) \<and>
     conn_play 0 [RunTask 0, RunTask 0, HeaderWritten True, BodyWritten True] (disconnectAfterFlush c1, q1) =
       Some (c2, q2) \<and> \<not> isConnected c2 \<and> (\<exists>later. sent_bytes c2 = frame hello @ later)"
proof -
  let ?s0 = "(client_start, new_queue) :: conn_state"
  define s1 where "s1 = the (conn_play 0 (client_login @ [CallSend hello True]) ?s0)"
  define s2 where "s2 = the (conn_play 0 [RunTask 0, RunTask 0, HeaderWritten True, BodyWritten True]
    (disconnectAfterFlush (fst s1), snd s1))"
  have 1: "conn_play 0 (client_login @ [CallSend hello True]) ?s0 = Some (fst s1, snd s1)"
    by (simp add: s1_def conn_eval)
  have 2: "conn_play 0 [RunTask 0, RunTask 0, HeaderWritten True, BodyWritten True]
      (disconnectAfterFlush (fst s1), snd s1) = Some (fst s2, snd s2)"
    by (simp add: s1_def s2_def conn_eval)
  have 3: "\<not> isConnected (fst s2)" by (simp add: s1_def s2_def conn_eval)
  have "\<exists>later. sent_bytes (fst s2) =
      concat (map frame (accepted (client_login @ [CallSend hello True]))) @ later"
    by (rule disconnect_after_flush_delivers[OF _ conn_play_run[OF 1] _ _ _ _ _ conn_play_run[OF 2]])
      (simp_all add: started_def fifo_tasks_def no_io_error_def 3, simp_all add: s1_def conn_eval)
  then have "\<exists>later. sent_bytes (fst s2) = frame hello @ later"
    by (simp add: client_login_def)
  with 1 2 3 show ?thesis by blast
qed

section \<open>Properties of the handshake\<close>

text \<open>C19: The handshake completes: whatever the clock shows, a client that answers the server's
  challenge as the code does is validated on both sides, and both sides then wait for a header.\<close>

theorem handshake_completes:
  "\<exists>s c c' s'. server_start uid now = Some s \<and>
     conn_play 0 [ConnectDone True opn, ValidationRead (Some (m_handshake_out s))] (client_start, q) = Some (c, q) \<and>
     hs_writing c \<and> conn_play 0 [ValidationWritten True] (c, q) = Some (c', q) \<and>
     conn_play i [ValidationWritten True, ValidationRead (Some (m_handshake_out c))] (s, p) = Some (s', p) \<and>
     isValidated c' \<and> isValidated s' \<and> isConnected c' \<and> isConnected s' \<and>
     reading c' = RHeader \<and> reading s' = RHeader"
  by (simp add: server_start_def connectToClient_def isValidated_def conn_eval)

lemma server_step_frame:
  assumes "conn_exec self e (c, q) = Some (c', q')" "m_owner_type c = Server"
  shows "m_owner_type c' = Server \<and> m_handshake_crypted c' = m_handshake_crypted c \<and>
    (m_validated c' \<longrightarrow> m_validated c \<or> e = ValidationRead (Some (m_handshake_crypted c)))"
proof (cases e)
  case (RunTask i)
  then show ?thesis using assms
    by (cases "tasks c ! i") (auto simp: take_task_def conn_handler_defs Let_def split: if_splits option.splits)
qed (use assms in \<open>auto simp: conn_handler_defs Let_def readHeader_done_def readBody_done_def
      addToIncomingMessageQueue_def send_def disconnect_def disconnectAfterFlush_def
      split: if_splits option.splits list.splits\<close>)

lemma server_run_frame:
  assumes "conn_run self s es s'" "m_owner_type (fst s) = Server" "\<not> m_validated (fst s)"
  shows "m_owner_type (fst s') = Server \<and> m_handshake_crypted (fst s') = m_handshake_crypted (fst s) \<and>
    (m_validated (fst s') \<longrightarrow> ValidationRead (Some (m_handshake_crypted (fst s))) \<in> set es)"
  using assms
proof (induction rule: conn_run.induct)
  case (conn_run_Nil s)
  then show ?case by simp
next
  case (conn_run_snoc s es s' e s'')
  then show ?case
    using server_step_frame[of self e "fst s'" "snd s'" "fst s''" "snd s''"] by (auto simp: conn_step_iff)
qed

text \<open>C18: The server's side of a connection accepts and reads messages only after the peer has sent
  the obfuscation of the server's own challenge; until then \<open>send\<close> refuses every message.\<close>

theorem server_validates_only_the_answer:
  assumes "server_start uid now = Some c" and "conn_run self (c, q) es (c', q')"
    and "ValidationRead (Some (obfuscate now)) \<notin> set es"
  shows "\<not> isValidated c' \<and> \<not> fst (send m c') \<and> reading c' \<noteq> RHeader \<and> reading c' \<noteq> RBody"
proof -
  have c: "m_owner_type c = Server" "\<not> m_validated c" "m_handshake_crypted c = obfuscate now"
    using assms(1) by (auto simp: server_start_def connectToClient_def new_connection_def conn_defs
      bind_eq_Some_conv)
  have "\<not> m_validated c'" using server_run_frame[OF assms(2)] c assms(3) by auto
  moreover have "conn_inv c'"
    using conn_run_inv[OF assms(2)] conn_inv_started[of c] assms(1) by (auto simp: started_def)
  ultimately show ?thesis by (auto simp: isValidated_def fst_send conn_inv_def read_inv_def)
qed

theorem server_validates_only_the_answer_witness:
  "\<exists>c c' q'. server_start 10000 7 = Some c \<and>
     conn_play 3 [ValidationWritten True, ValidationRead (Some 0)] (c, new_queue) = Some (c', q') \<and> \<not> isValidated c'"
proof -
  define c where "c = the (server_start 10000 7)"
  define s where "s = the (conn_play 3 [ValidationWritten True, ValidationRead (Some 0)] (c, new_queue))"
  have c: "server_start 10000 7 = Some c"
    by (simp add: c_def server_start_def connectToClient_def conn_eval)
  have s: "conn_play 3 [ValidationWritten True, ValidationRead (Some 0)] (c, new_queue) = Some (fst s, snd s)"
    by (simp add: s_def c_def server_start_def connectToClient_def conn_eval)
  have "obfuscate 7 \<noteq> 0" by (simp add: obfuscate_def Let_def)
  then have "\<not> isValidated (fst s)"
    using server_validates_only_the_answer[OF c conn_play_run[OF s]] by simp
  with c s show ?thesis by blast
qed

definition obf_in_mask :: u64 where "obf_in_mask = 0xC0A0C0A0B0B0B0 OR 0x0C0A0C0A0B0B0B"
definition obf_out_mask :: u64 where "obf_out_mask = 0x0C0A0C0A0B0B0B"

lemma obfuscate_masked:
  "obfuscate x = (drop_bit 4 (((x AND obf_in_mask) XOR 0xBABA15ACAB0011FF) AND 0xC0A0C0A0B0B0B0) OR
     (((x AND obf_in_mask) XOR 0xBABA15ACAB0011FF) AND 0x0C0A0C0A0B0B0B)) XOR 0xBABA15FACE1EE788"
proof -
  have "(x XOR k) AND a = ((x AND (a OR b)) XOR k) AND a" for k a b :: u64
    by (rule bit_word_eqI) (auto simp: bit_simps)
  moreover have "(x XOR k) AND b = ((x AND (a OR b)) XOR k) AND b" for k a b :: u64
    by (rule bit_word_eqI) (auto simp: bit_simps)
  ultimately show ?thesis unfolding obfuscate_def Let_def obf_in_mask_def by metis
qed

lemma obfuscate_range: "\<exists>k. obfuscate x = (k AND obf_out_mask) XOR 0xBABA15FACE1EE788"
proof -
  have "drop_bit 4 (y AND 0xC0A0C0A0B0B0B0) = drop_bit 4 y AND obf_out_mask" for y :: u64
  proof -
    have "drop_bit 4 (y AND 0xC0A0C0A0B0B0B0) = drop_bit 4 y AND drop_bit 4 (0xC0A0C0A0B0B0B0 :: u64)"
      by (rule bit_word_eqI) (simp add: bit_simps)
    then show ?thesis by (simp add: obf_out_mask_def)
  qed
  then show ?thesis unfolding obfuscate_def Let_def
    by (intro exI[of _ "drop_bit 4 (x XOR 0xBABA15ACAB0011FF) OR (x XOR 0xBABA15ACAB0011FF)"])
      (simp add: obf_out_mask_def bit.conj_disj_distrib2)
qed

lemma card_masked: "card {k :: u64. k AND m = k} \<le> 2 ^ length (filter (bit m) [0..<64])"
proof -
  let ?B = "set (filter (bit m) [0..<64])"
  let ?f = "\<lambda>k :: u64. {n. bit k n}"
  have "inj_on ?f {k. k AND m = k}"
    by (rule inj_onI) (auto intro: bit_word_eqI)
  moreover have "?f ` {k. k AND m = k} \<subseteq> Pow ?B"
  proof clarsimp
    fix k :: u64 and n assume k: "k AND m = k" and n: "bit k n"
    have "bit (k AND m) n" using n by (simp only: k)
    then have "bit m n" by (simp only: bit_and_iff)
    moreover have "n < 64" using bit_imp_le_length[OF n] by simp
    ultimately show "n < 64 \<and> bit m n" by blast
  qed
  moreover have "finite (Pow ?B)" by simp
  ultimately have "card {k. k AND m = k} \<le> card (Pow ?B)"
    by (rule card_inj_on_le)
  also have "\<dots> = 2 ^ card ?B" by (rule card_Pow) simp
  also have "\<dots> \<le> 2 ^ length (filter (bit m) [0..<64])"
    by (rule power_increasing[OF card_length]) simp
  finally show ?thesis .
qed

text \<open>The obfuscation loses most of its input: it depends on at most 34 of the 64 challenge bits,
  so different challenges have the same answer, and only \<open>2 ^ 17\<close> different answers exist, so a
  peer that does not know the function can guess it.\<close>

theorem obfuscate_weak:
  "(x AND obf_in_mask = y AND obf_in_mask \<longrightarrow> obfuscate x = obfuscate y) \<and>
   obfuscate x = obfuscate (x XOR 4) \<and> card (range obfuscate) \<le> 2 ^ 17"
proof (intro conjI impI)
  show "obfuscate x = obfuscate y" if "x AND obf_in_mask = y AND obf_in_mask"
    using that by (simp only: obfuscate_masked)
  have "(x XOR 4) AND obf_in_mask = x AND obf_in_mask"
  proof -
    have "(x XOR 4) AND obf_in_mask = (x AND obf_in_mask) XOR (4 AND obf_in_mask)"
      by (rule bit_word_eqI) (auto simp: bit_simps)
    then show ?thesis by (simp add: obf_in_mask_def)
  qed
  then show "obfuscate x = obfuscate (x XOR 4)" by (simp only: obfuscate_masked)
  have "range obfuscate \<subseteq> (\<lambda>k. k XOR 0xBABA15FACE1EE788) ` {k. k AND obf_out_mask = k}"
  proof
    fix y assume "y \<in> range obfuscate"
    then obtain x where "y = obfuscate x" by auto
    with obfuscate_range[of x] obtain k where "y = (k AND obf_out_mask) XOR 0xBABA15FACE1EE788" by auto
    moreover have "(k AND obf_out_mask) AND obf_out_mask = k AND obf_out_mask" by (simp add: and.assoc)
    ultimately show "y \<in> (\<lambda>k. k XOR 0xBABA15FACE1EE788) ` {k. k AND obf_out_mask = k}" by blast
  qed
  then have "card (range obfuscate) \<le> card {k. k AND obf_out_mask = k}"
    by (rule surj_card_le[rotated]) simp
  also have "\<dots> \<le> 2 ^ length (filter (bit obf_out_mask) [0..<64])" by (rule card_masked)
  also have "length (filter (bit obf_out_mask) [0..<64]) = 17"
    by (simp add: obf_out_mask_def upt_rec)
  finally show "card (range obfuscate) \<le> 2 ^ 17" .
qed

theorem obfuscate_weak_witness:
  "obfuscate 8 = obfuscate 12 \<and> card (range obfuscate) \<le> 2 ^ 17"
  using obfuscate_weak[of 8 12] by simp

section \<open>From one end to the other\<close>

text \<open>
  The bytes of a header as the reader stores them, and the reader fed with a byte stream: each
  outstanding read completes as soon as its bytes are there, and its handler starts the next one.
  The guard \<open>0 < n\<close> always holds: a body read is only started for a positive size.
\<close>

definition header_of_bytes :: "bytes \<Rightarrow> message_header" where
  "header_of_bytes bs = \<lparr>hdr_id = bytes_word (take 4 bs), hdr_size = bytes_word (take 4 (drop 4 bs))\<rparr>"

function feed :: "nat \<Rightarrow> bytes \<Rightarrow> conn_state \<Rightarrow> conn_state option" where
  "feed self bs (c, q) =
     (if reading c = RHeader \<and> 8 \<le> length bs then
        (case readHeader_done self (Some (header_of_bytes (take 8 bs))) (c, q) of
           None \<Rightarrow> None | Some s \<Rightarrow> feed self (drop 8 bs) s)
      else if reading c = RBody \<and> 0 < length (body (m_forming_in_message c)) \<and>
              length (body (m_forming_in_message c)) \<le> length bs then
        (case readBody_done self (Some (take (length (body (m_forming_in_message c))) bs)) (c, q) of
           None \<Rightarrow> None | Some s \<Rightarrow> feed self (drop (length (body (m_forming_in_message c))) bs) s)
      else Some (c, q))"
  by pat_completeness auto
termination
  by (relation "measure (\<lambda>(self, bs, s). length bs)") (auto simp del: length_greater_0_conv)

declare feed.simps [simp del]

lemma length_header_bytes [simp]: "length (header_bytes h) = 8"
  by (simp add: header_bytes_def)

lemma header_of_bytes_header_bytes [simp]: "header_of_bytes (header_bytes h) = h"
  by (simp add: header_of_bytes_def header_bytes_def)

lemma message_eta [simp]: "\<lparr>header = header m, body = body m\<rparr> = m"
  by (cases m) simp

text \<open>A header whose size field agrees with the body, and a body that fits it.\<close>

definition framed :: "message \<Rightarrow> bool" where
  "framed m \<longleftrightarrow> sized m \<and> length (body m) < 2 ^ 32"

lemma framed_size: "framed m \<Longrightarrow> unat (hdr_size (header m)) = length (body m)"
  by (simp add: framed_def sized_def)

lemma framed_size_0: "framed m \<Longrightarrow> hdr_size (header m) = 0 \<longleftrightarrow> body m = []"
  by (simp add: framed_def sized_def word_of_nat_u32_0_iff)

definition ready :: "connection \<Rightarrow> bool" where
  "ready c \<longleftrightarrow> reading c = RHeader \<and> m_forming_in_message c = new_message"

lemma ready_upd: "ready c \<Longrightarrow> c\<lparr>reading := RHeader, m_forming_in_message := new_message\<rparr> = c"
  by (cases c) (simp add: ready_def)

lemma feed_header:
  assumes "ready c"
  shows "feed self (header_bytes h @ bs) (c, q) =
    (if hdr_size h \<noteq> 0 then feed self bs (c\<lparr>reading := RBody, m_forming_in_message :=
              \<lparr>header = h, body = replicate (unat (hdr_size h)) 0\<rparr>\<rparr>, q)
     else feed self bs (c, push_back (owned self c \<lparr>header = h, body = []\<rparr>) q))"
proof -
  have "m_forming_in_message c = new_message" using assms by (simp add: ready_def)
  note eq = readHeader_done_eq[OF this, of self "Some h" q, unfolded ready_upd[OF assms]]
  show ?thesis using assms
    by (subst feed.simps) (simp add: eq, simp add: ready_def)
qed

lemma feed_body:
  assumes "framed m" "body m \<noteq> []"
  shows "feed self (body m @ bs) (c\<lparr>reading := RBody, m_forming_in_message :=
      \<lparr>header = header m, body = replicate (length (body m)) 0\<rparr>\<rparr>, q) =
    feed self bs (c\<lparr>reading := RHeader, m_forming_in_message := new_message\<rparr>, push_back (owned self c m) q)"
  using assms
  by (subst feed.simps) (simp add: readBody_done_eq owned_def)

lemma feed_frame:
  assumes "framed m" "ready c"
  shows "feed self (frame m @ bs) (c, q) = feed self bs (c, push_back (owned self c m) q)"
proof (cases "body m = []")
  case True
  then have "owned self c \<lparr>header = header m, body = []\<rparr> = owned self c m"
    using True by (metis message_eta)
  then show ?thesis using assms True framed_size_0[OF assms(1)]
    by (simp add: frame_def feed_header)
next
  case False
  then show ?thesis
    using feed_body[OF assms(1) False, of self bs c q] assms framed_size_0[OF assms(1)] framed_size[OF assms(1)]
    by (simp add: frame_def feed_header ready_upd)
qed

lemma feed_frames:
  "\<forall>m\<in>set ms. framed m \<Longrightarrow> ready c \<Longrightarrow>
     feed self (concat (map frame ms) @ bs) (c, q) = feed self bs (c, fold push_back (map (owned self c) ms) q)"
  by (induction ms arbitrary: q) (simp_all add: feed_frame)

lemma feed_rest:
  assumes "ready c" "P = [] \<or> hdr_size h \<noteq> 0 \<and> P = header_bytes h"
  shows "\<exists>c'. feed self P (c, q) = Some (c', q)"
proof -
  have stop: "feed self [] (c', q) = Some (c', q)" for c'
    by (subst feed.simps) simp
  show ?thesis using assms feed_header[OF assms(1), of self h "[]" q] stop by auto
qed

text \<open>C4: The transport is faithful. Take any run of a connection in which messages are sent whose
  size fields are right, cut it at any point (also after errors), and let the other end read the
  bytes written so far: its incoming queue gets exactly the first accepted messages, in order and
  unchanged, all but the \<open>getPendingWrites\<close> unwritten ones.\<close>

theorem transport_faithful:
  assumes "started c" and "conn_run self (c, q) es (c', q')" and "fifo_tasks es"
    and "\<forall>m\<in>set (accepted es). framed m" and "ready r"
  shows "\<exists>ws rest r' p'. accepted es = ws @ rest \<and> length rest = getPendingWrites c' \<and>
    feed other (sent_bytes c') (r, p) = Some (r', p') \<and>
    m_deq p' = m_deq p @ map (owned other r) ws"
proof -
  obtain ws P where w: "wire ws P (accepted es) c'"
    using conn_run_wire[OF assms(2)] assms(1,3) by auto
  define rest where "rest = m_deq (m_messages_out c') @ task_msgs (tasks c')"
  have acc: "accepted es = ws @ rest" and sent: "sent_bytes c' = concat (map frame ws) @ P"
    using w by (simp_all add: wire_def rest_def)
  have P: "P = [] \<or> rest \<noteq> [] \<and> body (hd rest) \<noteq> [] \<and> P = header_bytes (header (hd rest))"
    using w by (auto simp: wire_def rest_def)
  then have "P = [] \<or> hdr_size (header (hd rest)) \<noteq> 0 \<and> P = header_bytes (header (hd rest))"
    using assms(4) acc framed_size_0[of "hd rest"] by auto
  then obtain r' where "feed other P (r, fold push_back (map (owned other r) ws) p) =
      Some (r', fold push_back (map (owned other r) ws) p)"
    using feed_rest[OF assms(5)] by blast
  then have f: "feed other (sent_bytes c') (r, p) = Some (r', fold push_back (map (owned other r) ws) p)"
    using feed_frames[OF _ assms(5)] assms(4) acc sent by simp
  have "write_inv c'" using conn_run_inv[OF assms(2)] conn_inv_started[OF assms(1)]
    by (simp add: conn_inv_def)
  then have "length rest = getPendingWrites c'"
    by (simp add: write_inv_def getPendingWrites_def rest_def)
  then show ?thesis using acc f tsq.elems_pushes by blast
qed

theorem transport_faithful_witness:
  "\<exists>r' p'. feed 1 [9, 0, 0, 0, 2, 0, 0, 0, 104, 105]
       (new_connection Server True 0\<lparr>reading := RHeader\<rparr>, new_queue) = Some (r', p') \<and>
     m_deq p' = [\<lparr>remote = Some 1, owned_msg = hello\<rparr>]"
proof -
  have "\<exists>ws rest r' p'. accepted (client_login @ [CallSend hello True, RunTask 0, HeaderWritten True,
        BodyWritten True]) = ws @ rest \<and> length rest = 0 \<and>
      feed 1 [9, 0, 0, 0, 2, 0, 0, 0, 104, 105] (new_connection Server True 0\<lparr>reading := RHeader\<rparr>, new_queue) =
        Some (r', p') \<and>
      m_deq p' = m_deq (new_queue :: owned_message tsqueue) @
        map (owned 1 (new_connection Server True 0\<lparr>reading := RHeader\<rparr>)) ws"
    using transport_faithful[OF _ conn_play_run[OF hello_sent], of
        "new_connection Server True 0\<lparr>reading := RHeader\<rparr>" 1 new_queue]
    by (simp add: started_def fifo_tasks_def client_login_def getPendingWrites_def client_start_def
      connectToServer_def new_connection_def ready_def framed_def hello_def)
  then show ?thesis by (auto simp: client_login_def owned_def new_connection_def)
qed

section \<open>Connections by address\<close>

text \<open>A \<open>shared_ptr\<close> to a connection is its address; \<open>heap\<close> maps addresses to connections.\<close>

type_synonym heap = "nat \<Rightarrow> connection"

definition send_to :: "nat \<Rightarrow> message \<Rightarrow> heap \<Rightarrow> bool \<times> heap" where
  "send_to a m h = (case send m (h a) of (ok, c) \<Rightarrow> (ok, h(a := c)))"

lemma send_to_simps [simp]:
  "fst (send_to a m h) \<longleftrightarrow> fst (send m (h a))" "snd (send_to a m h) = h(a := snd (send m (h a)))"
  by (simp_all add: send_to_def split: prod.splits)

end
