(* ===== verification/ServerBase.thy ===== *)
theory ServerBase
  imports Connection
begin

text \<open>
  \<^verbatim>\<open>net_common/include/net_common/net_server.hpp\<close>: the server that accepts connections and hands
  the incoming messages to its hooks. The class is abstract: a derived class overrides the hooks
  and adds members. Here the hooks are a record of functions and the derived class's state extends
  the record \<open>server_base\<close>, as the derived class extends the base class. Connections live in
  \<open>heap\<close> at the address that \<open>make_shared\<close> allocates; a \<open>shared_ptr\<close> is \<open>nat option\<close>, null being
  \<open>None\<close>. A hook whose behaviour is undefined returns \<open>None\<close>.
\<close>

section \<open>State and hooks\<close>

record server_base =
  heap :: heap
  next_addr :: nat
  m_connections :: "nat option list"
  m_id_counter :: u32
  accepting :: bool        \<comment> \<open>an \<open>async_accept\<close> is outstanding\<close>
  context_running :: bool  \<comment> \<open>the thread of the io_context\<close>

record 'st server_hooks =
  onClientConnect :: "nat \<Rightarrow> 'st \<Rightarrow> bool \<times> 'st"
  onClientDisconnect :: "nat option \<Rightarrow> 'st \<Rightarrow> 'st option"
  onMessage :: "nat option \<Rightarrow> message \<Rightarrow> 'st \<Rightarrow> 'st option"

type_synonym 'z hooks = "'z server_base_scheme server_hooks"

definition base_init :: server_base where
  "base_init = \<lparr>heap = (\<lambda>_. new_connection Server False 0), next_addr = 0, m_connections = [],
     m_id_counter = 10000, accepting = False, context_running = False\<rparr>"

text \<open>\<open>client->send(msg)\<close> with the result dropped.\<close>

definition send_via :: "nat \<Rightarrow> message \<Rightarrow> 'z server_base_scheme \<Rightarrow> 'z server_base_scheme" where
  "send_via a m s = s\<lparr>heap := snd (send_to a m (heap s))\<rparr>"

section \<open>Accepting\<close>

definition waitForClientConnection :: "'z server_base_scheme \<Rightarrow> 'z server_base_scheme" where
  "waitForClientConnection s = s\<lparr>accepting := True\<rparr>"

text \<open>The handler of \<open>async_accept\<close>: an error, or a socket (open) accepted when the clock read
  \<open>now\<close>.\<close>

definition accept_done :: "'z hooks \<Rightarrow> u64 option \<Rightarrow> 'z server_base_scheme \<Rightarrow>
    'z server_base_scheme option" where
  "accept_done hooks r s =
     (let s = s\<lparr>accepting := False\<rparr> in
      case r of
        Some now \<Rightarrow>
          let new_conn = next_addr s;
              s = s\<lparr>heap := (heap s)(new_conn := new_connection Server True now),
                    next_addr := new_conn + 1\<rparr>
          in (case onClientConnect hooks new_conn s of (approved, s) \<Rightarrow>
                if approved then
                  let s = s\<lparr>m_connections := m_connections s @ [Some new_conn]\<rparr>;
                      uid = m_id_counter s;
                      s = s\<lparr>m_id_counter := m_id_counter s + 1\<rparr>
                  in map_option
                       (\<lambda>c. waitForClientConnection (s\<lparr>heap := (heap s)(new_conn := c)\<rparr>))
                       (connectToClient uid (heap s new_conn))
                else Some (waitForClientConnection s))
      | None \<Rightarrow> Some (waitForClientConnection s))"

text \<open>\<open>thread_ok\<close>: whether the thread of the io_context could be created.\<close>

definition start :: "bool \<Rightarrow> 'z server_base_scheme \<Rightarrow> bool \<times> 'z server_base_scheme" where
  "start thread_ok s =
     (let s = waitForClientConnection s
      in if thread_ok then (True, s\<lparr>context_running := True\<rparr>) else (False, s))"

definition stop :: "'z server_base_scheme \<Rightarrow> 'z server_base_scheme" where
  "stop s = s\<lparr>context_running := False\<rparr>"

section \<open>Sending\<close>

definition is_live :: "'z server_base_scheme \<Rightarrow> nat option \<Rightarrow> bool" where
  "is_live s client = (case client of None \<Rightarrow> False | Some a \<Rightarrow> isConnected (heap s a))"

text \<open>\<open>client.reset()\<close> comes before \<open>std::remove(..., client)\<close>: what is removed are the nulls.\<close>

definition messageClient :: "'z hooks \<Rightarrow> nat option \<Rightarrow> message \<Rightarrow> 'z server_base_scheme \<Rightarrow>
    'z server_base_scheme option" where
  "messageClient hooks client msg s =
     (if is_live s client then Some (send_via (the client) msg s)
      else map_option (\<lambda>s. s\<lparr>m_connections := filter (\<lambda>c. c \<noteq> None) (m_connections s)\<rparr>)
             (onClientDisconnect hooks client s))"

text \<open>The loop of \<open>messageAllClients\<close>: \<open>std::move(msg)\<close> inside the loop leaves \<open>msg\<close> with its header
  and an empty body after the first send. The result holds the elements after the loop and
  \<open>some_clients_disconnected\<close>.\<close>

fun message_each :: "'z hooks \<Rightarrow> nat option \<Rightarrow> message \<Rightarrow> nat option list \<Rightarrow> 'z server_base_scheme \<Rightarrow>
    (nat option list \<times> bool \<times> 'z server_base_scheme) option" where
  "message_each hooks ignore_client msg [] s = Some ([], False, s)"
| "message_each hooks ignore_client msg (client # cs) s =
     (if is_live s client \<and> client \<noteq> ignore_client
      then map_option (\<lambda>(cs', some_disconnected, s'). (client # cs', some_disconnected, s'))
             (message_each hooks ignore_client (msg\<lparr>body := []\<rparr>) cs (send_via (the client) msg s))
      else case onClientDisconnect hooks client s of
          None \<Rightarrow> None
        | Some s \<Rightarrow> map_option (\<lambda>(cs', _, s'). (None # cs', True, s'))
                      (message_each hooks ignore_client msg cs s))"

definition messageAllClients :: "'z hooks \<Rightarrow> message \<Rightarrow> nat option \<Rightarrow> 'z server_base_scheme \<Rightarrow>
    'z server_base_scheme option" where
  "messageAllClients hooks msg ignore_client s =
     map_option (\<lambda>(cs, some_disconnected, s).
         s\<lparr>m_connections := if some_disconnected then filter (\<lambda>c. c \<noteq> None) cs else cs\<rparr>)
       (message_each hooks ignore_client msg (m_connections s) s)"

section \<open>The update loop\<close>

text \<open>\<open>m_messages_in\<close> is filled by the thread of the io_context: it is kept apart from the rest of the
  state, with the batches that arrive.\<close>

function update_loop :: "'z hooks \<Rightarrow> nat \<Rightarrow> nat \<Rightarrow> owned_message schedule \<Rightarrow>
    owned_message tsqueue \<Rightarrow> 'z server_base_scheme \<Rightarrow>
    (owned_message schedule \<times> owned_message tsqueue \<times> 'z server_base_scheme) option" where
  "update_loop hooks max_messages msg_cnt sch q s =
     (if \<not> msg_cnt < max_messages then Some (sch, q, s)
      else case arrive sch q of (sch1, q1) \<Rightarrow>
        case pop_front q1 of
          None \<Rightarrow> Some (sch1, q1, s)
        | Some (msg, q2) \<Rightarrow>
            (case onMessage hooks (remote msg) (owned_msg msg) s of
               None \<Rightarrow> None
             | Some s' \<Rightarrow> update_loop hooks max_messages (msg_cnt + 1) sch1 q2 s'))"
  by pat_completeness auto

termination
  by (relation "measure (\<lambda>(_, _, _, sch, q, _). length (pending_in sch q))")
    (auto dest!: pending_pop[OF sym])

declare update_loop.simps [simp del]

text \<open>\<open>update\<close>: the outer \<open>None\<close> is the wait that never ends, the inner one undefined behaviour.\<close>

definition update :: "'z hooks \<Rightarrow> bool \<Rightarrow> nat \<Rightarrow> owned_message schedule \<Rightarrow>
    owned_message tsqueue \<Rightarrow> 'z server_base_scheme \<Rightarrow>
    (owned_message schedule \<times> owned_message tsqueue \<times> 'z server_base_scheme) option option" where
  "update hooks wait max_messages sch q s =
     (if wait then
        case wait_q sch q of
          None \<Rightarrow> None
        | Some (sch1, q1) \<Rightarrow> Some (update_loop hooks max_messages 0 sch1 q1 s)
      else Some (update_loop hooks max_messages 0 sch q s))"

section \<open>The contract of the update loop\<close>

text \<open>The specification: the hook applied to a list of messages, one after the other.\<close>

fun handle_all :: "'z hooks \<Rightarrow> owned_message list \<Rightarrow> 'z server_base_scheme \<Rightarrow>
    'z server_base_scheme option" where
  "handle_all hooks [] s = Some s"
| "handle_all hooks (om # oms) s =
     Option.bind (onMessage hooks (remote om) (owned_msg om) s) (handle_all hooks oms)"

lemma handle_all_append:
  "handle_all hooks (xs @ ys) s = Option.bind (handle_all hooks xs s) (handle_all hooks ys)"
  by (induction xs arbitrary: s) (simp_all split: bind_split)

text \<open>However the messages arrive, the loop handles a prefix of them in order: as many as allowed,
  fewer only when it found the queue empty.\<close>

definition handles_prefix :: "'z hooks \<Rightarrow> nat \<Rightarrow> owned_message list \<Rightarrow> 'z server_base_scheme \<Rightarrow>
    (owned_message schedule \<times> owned_message tsqueue \<times> 'z server_base_scheme) option \<Rightarrow> bool" where
  "handles_prefix hooks k oms s r \<longleftrightarrow> (\<exists>n \<le> k. n \<le> length oms \<and>
     (case r of
        None \<Rightarrow> handle_all hooks (take n oms) s = None
      | Some (sch', q', s') \<Rightarrow> handle_all hooks (take n oms) s = Some s' \<and>
          m_deq q' @ concat sch' = drop n oms \<and> (n = k \<or> m_deq q' = [])))"

lemma handles_prefix_0: "m_deq q @ concat sch = oms \<Longrightarrow> k = 0 \<or> m_deq q = [] \<Longrightarrow>
    handles_prefix hooks k oms s (Some (sch, q, s))"
  unfolding handles_prefix_def by (intro exI[of _ 0]) auto

lemma handles_prefix_Suc:
  assumes "onMessage hooks (remote om) (owned_msg om) s = Some s1" "handles_prefix hooks k oms s1 r"
  shows "handles_prefix hooks (Suc k) (om # oms) s r"
proof -
  from assms(2) obtain n where "n \<le> k" "n \<le> length oms" "case r of
        None \<Rightarrow> handle_all hooks (take n oms) s1 = None
      | Some (sch', q', s') \<Rightarrow> handle_all hooks (take n oms) s1 = Some s' \<and>
          m_deq q' @ concat sch' = drop n oms \<and> (n = k \<or> m_deq q' = [])"
    unfolding handles_prefix_def by blast
  then show ?thesis using assms(1) unfolding handles_prefix_def
    by (intro exI[of _ "Suc n"]) (auto split: option.splits)
qed

lemma update_loop_prefix:
  assumes "cnt \<le> mx"
  shows "handles_prefix hooks (mx - cnt) (pending_in sch q) s (update_loop hooks mx cnt sch q s)"
  using assms
proof (induction hooks mx cnt sch q s rule: update_loop.induct)
  case (1 hooks mx cnt sch q s)
  note unf = update_loop.simps[of hooks mx cnt sch q s]
  obtain sch1 q1 where a: "arrive sch q = (sch1, q1)" by fastforce
  consider "cnt = mx" | "cnt < mx" "pop_front q1 = None" |
    om q2 where "cnt < mx" "pop_front q1 = Some (om, q2)"
    using "1.prems" by fastforce
  then show ?case
  proof cases
    case 1
    then show ?thesis unfolding unf by (simp add: handles_prefix_0 pending_in_def)
  next
    case 2
    then have "update_loop hooks mx cnt sch q s = Some (sch1, q1, s)" unfolding unf by (simp add: a)
    then show ?thesis using pending_arrive[OF a] 2
      by (simp add: handles_prefix_0 pending_in_def pop_front_eq_None)
  next
    case 3
    have p: "pending_in sch q = om # pending_in sch1 q2" and c: "mx - cnt = Suc (mx - (cnt + 1))"
      using pending_pop[OF a 3(2)] 3(1) by simp_all
    show ?thesis
    proof (cases "onMessage hooks (remote om) (owned_msg om) s")
      case None
      then have "update_loop hooks mx cnt sch q s = None" unfolding unf using 3 a by simp
      then show ?thesis using None 3(1) p
        by (auto simp: handles_prefix_def intro!: exI[of _ 1])
    next
      case (Some s1)
      then have e: "update_loop hooks mx cnt sch q s = update_loop hooks mx (cnt + 1) sch1 q2 s1"
        unfolding unf using 3 a by simp
      have "handles_prefix hooks (mx - (cnt + 1)) (pending_in sch1 q2) s1
          (update_loop hooks mx (cnt + 1) sch1 q2 s1)"
        using "1.IH" 3 a Some by simp
      then show ?thesis unfolding p c e by (rule handles_prefix_Suc[OF Some])
    qed
  qed
qed

section \<open>The connections\<close>

text \<open>Every entry of \<open>m_connections\<close> was allocated, no address twice, and the ids count up.\<close>

definition base_inv :: "nat \<Rightarrow> 'z server_base_scheme \<Rightarrow> bool" where
  "base_inv n s \<longleftrightarrow> (\<exists>as. m_connections s = map Some as \<and> distinct as \<and> length as = n \<and>
     (\<forall>a \<in> set as. a < next_addr s) \<and>
     map (\<lambda>a. m_id (heap s a)) as = map (\<lambda>i. 10000 + of_nat i) [0..<n] \<and>
     m_id_counter s = 10000 + of_nat n)"

definition approves_all :: "'z hooks \<Rightarrow> bool" where
  "approves_all hooks \<longleftrightarrow> (\<forall>a s. onClientConnect hooks a s = (True, s))"

fun accept_all :: "'z hooks \<Rightarrow> u64 option list \<Rightarrow> 'z server_base_scheme \<Rightarrow>
    'z server_base_scheme option" where
  "accept_all hooks [] s = Some s"
| "accept_all hooks (r # rs) s = Option.bind (accept_done hooks r s) (accept_all hooks rs)"

lemma connectToClient_new:
  "\<exists>c. connectToClient uid (new_connection Server True now) = Some c \<and> m_id c = uid"
  by (simp add: connectToClient_def new_connection_def writeValidation_def readValidation_def Let_def)

lemma accept_done_inv:
  assumes "approves_all hooks" "base_inv n s"
  shows "\<exists>s'. accept_done hooks r s = Some s' \<and> accepting s' \<and>
    base_inv (n + (if r = None then 0 else 1)) s'"
proof (cases r)
  case None
  then show ?thesis using assms(2)
    by (simp add: accept_done_def waitForClientConnection_def base_inv_def)
next
  case (Some now)
  obtain c where c: "connectToClient (m_id_counter s) (new_connection Server True now) = Some c"
    "m_id c = m_id_counter s" using connectToClient_new by blast
  obtain as where as: "m_connections s = map Some as" "distinct as" "length as = n"
    "\<forall>a \<in> set as. a < next_addr s" "m_id_counter s = 10000 + of_nat n"
    "map (\<lambda>a. m_id (heap s a)) as = map (\<lambda>i. 10000 + of_nat i) [0..<n]"
    using assms(2) by (auto simp: base_inv_def)
  have "next_addr s \<notin> set as" using as(4) by auto
  moreover from this have "map (\<lambda>a. m_id (((heap s)(next_addr s := c)) a)) as =
      map (\<lambda>a. m_id (heap s a)) as"
    by auto
  ultimately have "base_inv (n + 1) (s\<lparr>next_addr := Suc (next_addr s),
      m_connections := m_connections s @ [Some (next_addr s)], m_id_counter := m_id_counter s + 1,
      heap := (heap s)(next_addr s := c), accepting := True\<rparr>)"
    using as c(2) unfolding base_inv_def
    by (intro exI[of _ "as @ [next_addr s]"]) (auto simp: less_Suc_eq)
  then show ?thesis using Some c(1) assms(1)
    by (simp add: accept_done_def waitForClientConnection_def approves_all_def Let_def)
qed

lemma accept_all_inv:
  assumes "approves_all hooks" "base_inv n s" "accepting s"
  shows "\<exists>s'. accept_all hooks rs s = Some s' \<and> accepting s' \<and>
    base_inv (n + length (filter (\<lambda>r. r \<noteq> None) rs)) s'"
  using assms(2,3)
proof (induction rs arbitrary: n s)
  case Nil
  then show ?case by simp
next
  case (Cons r rs)
  obtain s1 where s1: "accept_done hooks r s = Some s1" "accepting s1"
    "base_inv (n + (if r = None then 0 else 1)) s1"
    using accept_done_inv[OF assms(1) Cons.prems(1)] by blast
  from Cons.IH[OF s1(3,2)] show ?case using s1(1) by auto
qed

lemma of_nat_u32_inj: "inj_on (\<lambda>i. 10000 + of_nat i :: u32) {i. i < 2 ^ 32}"
proof (rule inj_onI)
  fix i j assume "i \<in> {i. i < 2 ^ 32}" "j \<in> {i. i < 2 ^ 32}" "(10000 + of_nat i :: u32) = 10000 + of_nat j"
  then have "unat (of_nat i :: u32) = unat (of_nat j :: u32)" "i < 2 ^ 32" "j < 2 ^ 32" by simp_all
  then show "i = j" by simp
qed

section \<open>Properties\<close>

text \<open>C23: Accepting never stops and never mixes connections up: after any sequence of successful and
  failed accepts on a started server whose hook approves, the next accept is outstanding, every
  accepted connection is in \<open>m_connections\<close> once, and the \<open>i\<close>-th has the id \<open>10000 + i\<close>, so the ids are
  distinct as long as the 32-bit counter has not gone round.\<close>

theorem accept_ids:
  assumes "approves_all hooks" and "m_connections s = []" and "m_id_counter s = 10000"
    and "start True s = (True, s0)" and "n = length (filter (\<lambda>r. r \<noteq> None) rs)"
  shows "\<exists>s' as. accept_all hooks rs s0 = Some s' \<and> accepting s' \<and> m_connections s' = map Some as \<and>
    distinct as \<and> map (\<lambda>a. m_id (heap s' a)) as = map (\<lambda>i. 10000 + of_nat i) [0..<n] \<and>
    (n \<le> 2 ^ 32 \<longrightarrow> distinct (map (\<lambda>a. m_id (heap s' a)) as))"
proof -
  have "base_inv 0 s0" "accepting s0"
    using assms(2,3,4) by (auto simp: start_def waitForClientConnection_def base_inv_def)
  from accept_all_inv[OF assms(1) this] obtain s' where s': "accept_all hooks rs s0 = Some s'"
    "accepting s'" "base_inv n s'" using assms(5) by auto
  moreover obtain as where "m_connections s' = map Some as" "distinct as"
    "map (\<lambda>a. m_id (heap s' a)) as = map (\<lambda>i. 10000 + of_nat i) [0..<n]"
    using s'(3) by (auto simp: base_inv_def)
  moreover have "n \<le> 2 ^ 32 \<longrightarrow> distinct (map (\<lambda>i. 10000 + of_nat i :: u32) [0..<n])"
    by (auto simp: distinct_map intro: inj_on_subset[OF of_nat_u32_inj])
  ultimately show ?thesis by metis
qed

definition demo_hooks :: "'z hooks" where
  "demo_hooks = \<lparr>onClientConnect = (\<lambda>_ s. (True, s)), onClientDisconnect = (\<lambda>_ s. Some s),
     onMessage = (\<lambda>c m s. case c of None \<Rightarrow> None | Some a \<Rightarrow> Some (send_via a m s))\<rparr>"

theorem accept_ids_witness:
  "\<exists>s' as. accept_all demo_hooks [Some 5, None, Some 6] (snd (start True base_init)) = Some s' \<and>
     m_connections s' = map Some as \<and> map (\<lambda>a. m_id (heap s' a)) as = [10000, 10001]"
proof -
  have "approves_all demo_hooks" "m_connections base_init = []" "m_id_counter base_init = 10000"
    "start True base_init = (True, snd (start True base_init))"
    by (simp_all add: approves_all_def demo_hooks_def base_init_def start_def Let_def)
  from accept_ids[OF this refl, of "[Some 5, None, Some 6]"] obtain s' as where
    "accept_all demo_hooks [Some 5, None, Some 6] (snd (start True base_init)) = Some s'"
    "m_connections s' = map Some as"
    "map (\<lambda>a. m_id (heap s' a)) as = map (\<lambda>i. 10000 + of_nat i) [0..<length (filter (\<lambda>r. r \<noteq> None) [Some 5, None, Some (6 :: u64)])]"
    by blast
  then show ?thesis by (intro exI[of _ s'] exI[of _ as]) (simp add: upt_rec)
qed

text \<open>C22: One call of \<open>update\<close> handles the messages in the order of their arrival, each exactly once
  and none after the limit: it applies the hook to a prefix of the messages that arrived or will
  arrive, leaves the rest, and stops short of \<open>max_messages\<close> only with an empty queue. It blocks
  only when it was asked to wait and nothing will ever arrive.\<close>

theorem update_in_order:
  "case update hooks wait mx sch q s of
     None \<Rightarrow> wait \<and> m_deq q @ concat sch = []
   | Some r \<Rightarrow> (\<exists>n \<le> mx. n \<le> length (m_deq q @ concat sch) \<and>
       (case r of
          None \<Rightarrow> handle_all hooks (take n (m_deq q @ concat sch)) s = None
        | Some (sch', q', s') \<Rightarrow> handle_all hooks (take n (m_deq q @ concat sch)) s = Some s' \<and>
            m_deq q' @ concat sch' = drop n (m_deq q @ concat sch) \<and> (n = mx \<or> m_deq q' = [])))"
proof -
  define oms where "oms = m_deq q @ concat sch"
  have l: "handles_prefix hooks mx oms s (update_loop hooks mx 0 sch1 q1 s)"
    if "pending_in sch1 q1 = oms" for sch1 q1
    using update_loop_prefix[of 0 mx hooks sch1 q1 s] that by simp
  have "case update hooks wait mx sch q s of None \<Rightarrow> wait \<and> oms = []
      | Some r \<Rightarrow> handles_prefix hooks mx oms s r"
  proof (cases "wait_q sch q")
    case None
    then show ?thesis using l[of sch q] wait_None_iff[of sch q]
      by (simp add: update_def pending_in_def oms_def)
  next
    case (Some p)
    obtain sch1 q1 where p: "p = (sch1, q1)" by fastforce
    have "pending_in sch1 q1 = oms"
      using pending_wait[of sch q sch1 q1] Some p by (simp add: pending_in_def oms_def)
    from l[OF this] l[of sch q] show ?thesis using Some p
      by (simp add: update_def pending_in_def oms_def)
  qed
  then show ?thesis unfolding oms_def handles_prefix_def .
qed

text \<open>The clients that \<open>messageAllClients\<close> sends to, and those it treats as disconnected.\<close>

definition addressed :: "'z server_base_scheme \<Rightarrow> nat option \<Rightarrow> nat option list \<Rightarrow> nat option list" where
  "addressed s ign cs = filter (\<lambda>c. is_live s c \<and> c \<noteq> ign) cs"

definition given_up :: "'z server_base_scheme \<Rightarrow> nat option \<Rightarrow> nat option list \<Rightarrow> nat option list" where
  "given_up s ign cs = filter (\<lambda>c. \<not> (is_live s c \<and> c \<noteq> ign)) cs"

lemma is_live_send_via [simp]: "is_live (send_via a m s) c = is_live s c"
  by (cases c) (simp_all add: is_live_def send_via_def isConnected_def snd_send)

lemma is_live_more [simp]: "is_live (server_base.more_update f s) c = is_live s c"
  by (cases c) (simp_all add: is_live_def)

lemma addressed_frame [simp]:
  "addressed (send_via a m s) ign cs = addressed s ign cs"
  "addressed (server_base.more_update f s) ign cs = addressed s ign cs"
  "given_up (send_via a m s) ign cs = given_up s ign cs"
  "given_up (server_base.more_update f s) ign cs = given_up s ign cs"
  by (simp_all add: addressed_def given_up_def)

text \<open>One round of sends: the first addressed client gets the message, the others what is left of it.\<close>

lemma message_each_addressed:
  assumes "distinct (addressed s ign cs)"
    and "\<forall>c \<in> set (given_up s ign cs). \<forall>s'. onClientDisconnect hooks c s' = Some (server_base.more_update (g c) s')"
  shows "\<exists>cs' s'. message_each hooks ign m cs s = Some (cs', given_up s ign cs \<noteq> [], s') \<and>
    filter (\<lambda>c. c \<noteq> None) cs' = addressed s ign cs \<and>
    (given_up s ign cs = [] \<longrightarrow> cs' = cs) \<and>
    server_base.more s' = fold g (given_up s ign cs) (server_base.more s) \<and>
    heap s' = (\<lambda>a. if Some a \<in> set (addressed s ign cs)
      then snd (send (if hd (addressed s ign cs) = Some a then m else m\<lparr>body := []\<rparr>) (heap s a)) else heap s a)"
  using assms
proof (induction cs arbitrary: m s)
  case Nil
  then show ?case by (simp add: addressed_def given_up_def)
next
  case (Cons c cs)
  show ?case
  proof (cases "is_live s c \<and> c \<noteq> ign")
    case True
    then obtain a where c: "c = Some a" by (cases c) (auto simp: is_live_def)
    have l: "addressed s ign (c # cs) = c # addressed s ign cs" "given_up s ign (c # cs) = given_up s ign cs"
      using True by (simp_all add: addressed_def given_up_def)
    have notin: "Some a \<notin> set (addressed s ign cs)" "distinct (addressed s ign cs)"
      using Cons.prems(1) l(1) c by simp_all
    from Cons.IH[of "send_via a m s" "m\<lparr>body := []\<rparr>", unfolded addressed_frame,
        OF notin(2) Cons.prems(2)[unfolded l(2)]] obtain cs' s' where
      e: "message_each hooks ign (m\<lparr>body := []\<rparr>) cs (send_via a m s) = Some (cs', given_up s ign cs \<noteq> [], s')"
      and r: "filter (\<lambda>c. c \<noteq> None) cs' = addressed s ign cs" "given_up s ign cs = [] \<longrightarrow> cs' = cs"
        "server_base.more s' = fold g (given_up s ign cs) (server_base.more (send_via a m s))"
      and h: "heap s' = (\<lambda>b. if Some b \<in> set (addressed s ign cs)
        then snd (send (if hd (addressed s ign cs) = Some b then m\<lparr>body := []\<rparr> else m\<lparr>body := [], body := []\<rparr>)
                    (heap (send_via a m s) b)) else heap (send_via a m s) b)"
      by blast
    have "heap s' = (\<lambda>b. if Some b \<in> set (addressed s ign (c # cs))
      then snd (send (if hd (addressed s ign (c # cs)) = Some b then m else m\<lparr>body := []\<rparr>) (heap s b)) else heap s b)"
      unfolding l(1) h using notin(1) by (intro ext) (auto simp: c send_via_def)
    moreover have "server_base.more (send_via a m s) = server_base.more s" by (simp add: send_via_def)
    ultimately show ?thesis using True e r by (simp add: c[symmetric] l) (simp add: c)
  next
    case False
    then have l: "addressed s ign (c # cs) = addressed s ign cs" "given_up s ign (c # cs) = c # given_up s ign cs"
      by (auto simp: addressed_def given_up_def)
    have g: "onClientDisconnect hooks c s = Some (server_base.more_update (g c) s)"
      using Cons.prems(2) by (simp add: l)
    have d: "distinct (addressed s ign cs)" "\<forall>c \<in> set (given_up s ign cs).
        \<forall>s'. onClientDisconnect hooks c s' = Some (server_base.more_update (g c) s')"
      using Cons.prems by (simp_all add: l)
    have m: "heap (server_base.more_update (g c) s) = heap s"
      "server_base.more (server_base.more_update (g c) s) = g c (server_base.more s)" by simp_all
    note Cons.IH[of "server_base.more_update (g c) s" m, unfolded addressed_frame m, OF d]
    then obtain cs' s' where
      "message_each hooks ign m cs (server_base.more_update (g c) s) = Some (cs', given_up s ign cs \<noteq> [], s')"
      "filter (\<lambda>c. c \<noteq> None) cs' = addressed s ign cs"
      "server_base.more s' = fold g (given_up s ign cs) (g c (server_base.more s))"
      "heap s' = (\<lambda>a. if Some a \<in> set (addressed s ign cs)
        then snd (send (if hd (addressed s ign cs) = Some a then m else m\<lparr>body := []\<rparr>) (heap s a)) else heap s a)"
      by blast
    then show ?thesis
      unfolding l message_each.simps if_not_P[OF False] g
      by (intro exI[of _ "None # cs'"] exI[of _ s']) simp
  qed
qed

text \<open>C39: \<open>messageAllClients\<close> delivers the message to the first connected client only. Whatever
  connections the server has: the loop moves the message out in its first round, so every later
  client is sent the header of the message with an empty body, and a peer that reads it takes the
  next bytes of the stream for the missing body. The client that is to be ignored is not skipped but
  treated like the disconnected ones: the disconnect hook is called for it, in its turn, and it is
  removed. (The hook is any that changes the derived class's members only.)\<close>

theorem messageAllClients_only_first:
  assumes "distinct (addressed s ign (m_connections s))"
    and "\<forall>c \<in> set (given_up s ign (m_connections s)).
      \<forall>s'. onClientDisconnect hooks c s' = Some (server_base.more_update (g c) s')"
    and "framed msg" and "ready r" and "length bs = length (body msg)"
  shows "(\<exists>s'. messageAllClients hooks msg ign s = Some s' \<and>
      m_connections s' = addressed s ign (m_connections s) \<and>
      server_base.more s' = fold g (given_up s ign (m_connections s)) (server_base.more s) \<and>
      heap s' = (\<lambda>a. if Some a \<in> set (addressed s ign (m_connections s))
        then snd (send (if hd (addressed s ign (m_connections s)) = Some a then msg else msg\<lparr>body := []\<rparr>)
                    (heap s a)) else heap s a)) \<and>
    feed self (frame (msg\<lparr>body := []\<rparr>) @ bs @ later) (r, q) =
      feed self later (r, push_back (owned self r (msg\<lparr>body := bs\<rparr>)) q)"
proof -
  obtain cs' s' where e: "message_each hooks ign msg (m_connections s) s =
      Some (cs', given_up s ign (m_connections s) \<noteq> [], s')"
    and r: "filter (\<lambda>c. c \<noteq> None) cs' = addressed s ign (m_connections s)"
      "given_up s ign (m_connections s) = [] \<longrightarrow> cs' = m_connections s"
      "server_base.more s' = fold g (given_up s ign (m_connections s)) (server_base.more s)"
      "heap s' = (\<lambda>a. if Some a \<in> set (addressed s ign (m_connections s))
        then snd (send (if hd (addressed s ign (m_connections s)) = Some a then msg else msg\<lparr>body := []\<rparr>)
                    (heap s a)) else heap s a)"
    using message_each_addressed[OF assms(1,2), of msg] by blast
  have all: "given_up s ign (m_connections s) = [] \<Longrightarrow> addressed s ign (m_connections s) = m_connections s"
    by (simp add: addressed_def given_up_def filter_empty_conv)
  have "framed (msg\<lparr>body := bs\<rparr>)" using assms(3,5) by (simp add: framed_def sized_def)
  from feed_frame[OF this assms(4), of self later q]
  have "feed self (frame (msg\<lparr>body := []\<rparr>) @ bs @ later) (r, q) =
      feed self later (r, push_back (owned self r (msg\<lparr>body := bs\<rparr>)) q)"
    by (simp add: frame_def)
  moreover have "messageAllClients hooks msg ign s =
      Some (s'\<lparr>m_connections := addressed s ign (m_connections s)\<rparr>)"
    using e r(1,2) all by (auto simp: messageAllClients_def)
  ultimately show ?thesis using r(3,4) by simp
qed

text \<open>Three connected clients at the addresses 0, 1 and 2.\<close>

definition demo_three :: server_base where
  "demo_three = base_init\<lparr>heap := (\<lambda>_. (new_connection Server True 0)\<lparr>m_validated := True\<rparr>),
     next_addr := 3, m_connections := [Some 0, Some 1, Some 2]\<rparr>"

theorem messageAllClients_only_first_witness:
  "\<exists>s'. messageAllClients demo_hooks hello (Some 1) demo_three = Some s' \<and> m_connections s' = [Some 0, Some 2] \<and>
     tasks (heap s' 0) = [TaskSend hello] \<and> tasks (heap s' 2) = [TaskSend (hello\<lparr>body := []\<rparr>)]"
proof -
  have l: "addressed demo_three (Some 1) (m_connections demo_three) = [Some 0, Some 2]"
    by (simp add: addressed_def demo_three_def is_live_def isConnected_def new_connection_def)
  have f: "framed hello"
    by (simp add: framed_def sized_def hello_def put_data_def sync_size_def msg_size_def set_id_def new_message_def)
  have r: "ready (new_connection Server True 0\<lparr>reading := RHeader\<rparr>)"
    by (simp add: ready_def new_connection_def)
  have g: "\<forall>c \<in> set (given_up demo_three (Some 1) (m_connections demo_three)).
      \<forall>s'. onClientDisconnect demo_hooks c s' = Some (server_base.more_update (\<lambda>x. x) s')"
    by (simp add: demo_hooks_def)
  have "tasks (snd (send m (heap demo_three a))) = [TaskSend m]" for m a
    by (simp add: demo_three_def send_def isConnected_def new_connection_def)
  moreover from l have "distinct (addressed demo_three (Some 1) (m_connections demo_three))" by simp
  from messageAllClients_only_first[OF this g f r refl, unfolded l] obtain s' where
    "messageAllClients demo_hooks hello (Some 1) demo_three = Some s'" "m_connections s' = [Some 0, Some 2]"
    "heap s' = (\<lambda>a. if Some a \<in> set [Some 0, Some 2] then snd (send (if hd [Some 0, Some 2] = Some a
        then hello else hello\<lparr>body := []\<rparr>) (heap demo_three a)) else heap demo_three a)"
    by blast
  ultimately show ?thesis by (intro exI[of _ s']) simp
qed

text \<open>A client found disconnected by \<open>messageClient\<close> is reported to the hook but never removed:
  the pointer is reset before it is searched for, so what is erased from \<open>m_connections\<close> is the null
  pointers, and a list without null pointers stays as it is.\<close>

theorem messageClient_keeps_dead:
  assumes "\<not> isConnected (heap s a)" and "m_connections s = map Some as"
    and "\<forall>s'. onClientDisconnect hooks (Some a) s' = Some s'"
  shows "messageClient hooks (Some a) msg s = Some s"
  using assms by (simp add: messageClient_def is_live_def filter_map o_def)

theorem messageClient_keeps_dead_witness:
  "messageClient demo_hooks (Some 0) hello (base_init\<lparr>m_connections := [Some 0]\<rparr>) =
     Some (base_init\<lparr>m_connections := [Some 0]\<rparr>)"
  by (rule messageClient_keeps_dead[of _ _ "[0]"])
    (simp_all add: base_init_def demo_hooks_def isConnected_def new_connection_def)

end
