(* ===== verification/PPCommon.thy ===== *)
theory PPCommon
  imports Message
begin

text \<open>
  \<^verbatim>\<open>filetransmission/ppcommon/include/ppcommon/ppcommon.hpp\<close>: the payload structures, their
  stream operators, the message types and the typed \<open>encode\<close> and \<open>decode\<close>. An enum stored in a
  message or a payload is kept as its underlying integer, since a received one can hold any
  value; the named enumerators are datatypes with their codes.
\<close>

section \<open>Enumerations\<close>

datatype EPayloadType = File

primrec pt_code :: "EPayloadType \<Rightarrow> u8" where
  "pt_code File = 0"

datatype EMessageType = Accept | Reject | Success | Abort | Send | RequestReceive
  | FinishReceive | FailedReceive | Receive | Chunk | FinalChunk

primrec mt_code :: "EMessageType \<Rightarrow> u32" where
  "mt_code Accept = 0"
| "mt_code Reject = 1"
| "mt_code Success = 2"
| "mt_code Abort = 3"
| "mt_code Send = 4"
| "mt_code RequestReceive = 5"
| "mt_code FinishReceive = 6"
| "mt_code FailedReceive = 7"
| "mt_code Receive = 8"
| "mt_code Chunk = 9"
| "mt_code FinalChunk = 10"

lemma mt_code_inject [simp]: "mt_code a = mt_code b \<longleftrightarrow> a = b"
  by (cases a; cases b) simp_all

text \<open>Message types are ordered by their codes, as the enum's relational operators order them,
  and can be enumerated.\<close>

instantiation EMessageType :: linorder
begin

definition less_eq_EMessageType :: "EMessageType \<Rightarrow> EMessageType \<Rightarrow> bool" where
  "less_eq_EMessageType a b \<longleftrightarrow> mt_code a \<le> mt_code b"

definition less_EMessageType :: "EMessageType \<Rightarrow> EMessageType \<Rightarrow> bool" where
  "less_EMessageType a b \<longleftrightarrow> mt_code a < mt_code b"

instance
  by standard
    (auto simp: less_eq_EMessageType_def less_EMessageType_def dest: mt_code_inject [THEN iffD1, OF antisym])

end

instantiation EMessageType :: enum
begin

definition enum_EMessageType :: "EMessageType list" where
  "enum_EMessageType = [Accept, Reject, Success, Abort, Send, RequestReceive, FinishReceive,
     FailedReceive, Receive, Chunk, FinalChunk]"

definition enum_all_EMessageType :: "(EMessageType \<Rightarrow> bool) \<Rightarrow> bool" where
  "enum_all_EMessageType P \<longleftrightarrow> list_all P enum_class.enum"

definition enum_ex_EMessageType :: "(EMessageType \<Rightarrow> bool) \<Rightarrow> bool" where
  "enum_ex_EMessageType P \<longleftrightarrow> list_ex P enum_class.enum"

instance
proof
  show univ: "(UNIV :: EMessageType set) = set enum_class.enum"
    by (auto simp: enum_EMessageType_def intro: EMessageType.exhaust)
  show "distinct (enum_class.enum :: EMessageType list)"
    by (simp add: enum_EMessageType_def)
  fix P :: "EMessageType \<Rightarrow> bool"
  show "enum_class.enum_all P \<longleftrightarrow> Ball UNIV P"
    by (simp only: enum_all_EMessageType_def univ list_all_iff)
  show "enum_class.enum_ex P \<longleftrightarrow> Bex UNIV P"
    by (simp only: enum_ex_EMessageType_def univ list_ex_iff)
qed

end

text \<open>\<open>msg.header.id == EMessageType::M\<close>.\<close>

definition has_type :: "message \<Rightarrow> EMessageType \<Rightarrow> bool" where
  "has_type m M \<longleftrightarrow> hdr_id (header m) = mt_code M"

lemma has_type_unique: "has_type m M \<Longrightarrow> has_type m N \<longleftrightarrow> M = N"
  by (auto simp: has_type_def)

section \<open>Payload structures\<close>

record CodePhrase =
  code_size :: u8
  code :: string

record FileData =
  file_size :: u64
  file_name_size :: u8
  file_name :: string

record PreMetadata =
  pre_payload_type :: u8
  pre_code_phrase :: CodePhrase
  pre_file_data :: FileData

record PostMetadata =
  post_payload_type :: u8
  max_chunk_size :: u64
  post_code_phrase :: CodePhrase
  post_file_data :: FileData

record ChunkData =
  hash :: bytes
  data :: bytes

text \<open>\<open>struct Empty {}\<close> has no member but its size is one byte, whose value (padding) the
  language does not fix: it is an argument.\<close>

datatype Empty = Empty u8

text \<open>Default-initialised objects. The integer members of the source are uninitialised; every
  reader overwrites them before use.\<close>

definition init_CodePhrase :: CodePhrase where
  "init_CodePhrase = \<lparr>code_size = 0, code = []\<rparr>"

definition init_FileData :: FileData where
  "init_FileData = \<lparr>file_size = 0, file_name_size = 0, file_name = []\<rparr>"

definition init_PreMetadata :: PreMetadata where
  "init_PreMetadata = \<lparr>pre_payload_type = 0, pre_code_phrase = init_CodePhrase,
     pre_file_data = init_FileData\<rparr>"

definition init_PostMetadata :: PostMetadata where
  "init_PostMetadata = \<lparr>post_payload_type = 0, max_chunk_size = 0,
     post_code_phrase = init_CodePhrase, post_file_data = init_FileData\<rparr>"

definition init_ChunkData :: ChunkData where
  "init_ChunkData = \<lparr>hash = [], data = []\<rparr>"

section \<open>Stream operators\<close>

text \<open>\<open>msg >> data.code\<close> for a \<open>std::string\<close> that was resized before.\<close>

definition get_string :: "string \<Rightarrow> message \<Rightarrow> string \<times> message" where
  "get_string s m = apfst bytes_string (get_container (string_bytes s) m)"

definition put_CodePhrase :: "CodePhrase \<Rightarrow> message \<Rightarrow> message" where
  "put_CodePhrase d m = put_word (code_size d) (put_container (string_bytes (code d)) m)"

definition get_CodePhrase :: "CodePhrase \<Rightarrow> message \<Rightarrow> (CodePhrase \<times> message) option" where
  "get_CodePhrase d m =
     (case get_word m of
        None \<Rightarrow> None
      | Some (n, m1) \<Rightarrow>
          let (s, m2) = get_string (resize_string (unat n) (code d)) m1
          in Some (\<lparr>code_size = n, code = s\<rparr>, m2))"

definition put_FileData :: "FileData \<Rightarrow> message \<Rightarrow> message" where
  "put_FileData d m =
     put_word (file_size d) (put_word (file_name_size d)
       (put_container (string_bytes (file_name d)) m))"

definition get_FileData :: "FileData \<Rightarrow> message \<Rightarrow> (FileData \<times> message) option" where
  "get_FileData d m =
     (case get_word m of
        None \<Rightarrow> None
      | Some (fs, m1) \<Rightarrow>
          (case get_word m1 of
             None \<Rightarrow> None
           | Some (n, m2) \<Rightarrow>
               let (s, m3) = get_string (resize_string (unat n) (file_name d)) m2
               in Some (\<lparr>file_size = fs, file_name_size = n, file_name = s\<rparr>, m3)))"

definition put_PreMetadata :: "PreMetadata \<Rightarrow> message \<Rightarrow> message" where
  "put_PreMetadata d m =
     put_word (pre_payload_type d) (put_CodePhrase (pre_code_phrase d)
       (put_FileData (pre_file_data d) m))"

definition get_PreMetadata :: "PreMetadata \<Rightarrow> message \<Rightarrow> (PreMetadata \<times> message) option" where
  "get_PreMetadata d m =
     (case get_word m of
        None \<Rightarrow> None
      | Some (pt, m1) \<Rightarrow>
          (case get_CodePhrase (pre_code_phrase d) m1 of
             None \<Rightarrow> None
           | Some (cp, m2) \<Rightarrow>
               (case get_FileData (pre_file_data d) m2 of
                  None \<Rightarrow> None
                | Some (fd, m3) \<Rightarrow>
                    Some (\<lparr>pre_payload_type = pt, pre_code_phrase = cp, pre_file_data = fd\<rparr>, m3))))"

definition put_PostMetadata :: "PostMetadata \<Rightarrow> message \<Rightarrow> message" where
  "put_PostMetadata d m =
     put_word (post_payload_type d) (put_word (max_chunk_size d)
       (put_CodePhrase (post_code_phrase d) (put_FileData (post_file_data d) m)))"

definition get_PostMetadata :: "PostMetadata \<Rightarrow> message \<Rightarrow> (PostMetadata \<times> message) option" where
  "get_PostMetadata d m =
     (case get_word m of
        None \<Rightarrow> None
      | Some (pt, m1) \<Rightarrow>
          (case get_word m1 of
             None \<Rightarrow> None
           | Some (mx, m2) \<Rightarrow>
               (case get_CodePhrase (post_code_phrase d) m2 of
                  None \<Rightarrow> None
                | Some (cp, m3) \<Rightarrow>
                    (case get_FileData (post_file_data d) m3 of
                       None \<Rightarrow> None
                     | Some (fd, m4) \<Rightarrow>
                         Some (\<lparr>post_payload_type = pt, max_chunk_size = mx,
                                post_code_phrase = cp, post_file_data = fd\<rparr>, m4)))))"

definition put_ChunkData :: "ChunkData \<Rightarrow> message \<Rightarrow> message" where
  "put_ChunkData d m = put_data (hash d) (put_container (data d) m)"

text \<open>The vector is resized to everything that is left of the body.\<close>

definition get_ChunkData :: "ChunkData \<Rightarrow> message \<Rightarrow> (ChunkData \<times> message) option" where
  "get_ChunkData d m =
     (case get_data sha256_digest_length m of
        None \<Rightarrow> None
      | Some (h, m1) \<Rightarrow>
          let (b, m2) = get_container
                (take (msg_size m1) (data d) @ replicate (msg_size m1 - length (data d)) 0) m1
          in Some (\<lparr>hash = h, data = b\<rparr>, m2))"

definition put_Empty :: "Empty \<Rightarrow> message \<Rightarrow> message" where
  "put_Empty e m = (case e of Empty p \<Rightarrow> put_data [p] m)"

definition get_Empty :: "message \<Rightarrow> (Empty \<times> message) option" where
  "get_Empty m = map_option (apfst (\<lambda>d. Empty (hd d))) (get_data 1 m)"

section \<open>Typed messages\<close>

text \<open>\<open>Payload<M>::Type\<close>: the structure each message type carries.\<close>

datatype payload_type = TPost | TPre | TCode | TChunk | TEmpty

fun Payload :: "EMessageType \<Rightarrow> payload_type" where
  "Payload Accept = TPost"
| "Payload Reject = TEmpty"
| "Payload Success = TEmpty"
| "Payload Abort = TEmpty"
| "Payload Send = TPre"
| "Payload RequestReceive = TPre"
| "Payload FinishReceive = TEmpty"
| "Payload FailedReceive = TEmpty"
| "Payload Receive = TCode"
| "Payload Chunk = TChunk"
| "Payload FinalChunk = TEmpty"

datatype payload = PPost PostMetadata | PPre PreMetadata | PCode CodePhrase
  | PChunk ChunkData | PEmpty Empty

primrec type_of :: "payload \<Rightarrow> payload_type" where
  "type_of (PPost _) = TPost"
| "type_of (PPre _) = TPre"
| "type_of (PCode _) = TCode"
| "type_of (PChunk _) = TChunk"
| "type_of (PEmpty _) = TEmpty"

primrec put_payload :: "payload \<Rightarrow> message \<Rightarrow> message" where
  "put_payload (PPost d) m = put_PostMetadata d m"
| "put_payload (PPre d) m = put_PreMetadata d m"
| "put_payload (PCode d) m = put_CodePhrase d m"
| "put_payload (PChunk d) m = put_ChunkData d m"
| "put_payload (PEmpty d) m = put_Empty d m"

primrec get_payload :: "payload_type \<Rightarrow> message \<Rightarrow> (payload \<times> message) option" where
  "get_payload TPost m = map_option (apfst PPost) (get_PostMetadata init_PostMetadata m)"
| "get_payload TPre m = map_option (apfst PPre) (get_PreMetadata init_PreMetadata m)"
| "get_payload TCode m = map_option (apfst PCode) (get_CodePhrase init_CodePhrase m)"
| "get_payload TChunk m = map_option (apfst PChunk) (get_ChunkData init_ChunkData m)"
| "get_payload TEmpty m = map_option (apfst PEmpty) (get_Empty m)"

text \<open>\<open>encode<M>(data)\<close> is only called with data of type \<open>Payload<M>::Type\<close>. \<open>decode<M>(msg)\<close>
  consumes the payload from the message it is given.\<close>

definition encode :: "EMessageType \<Rightarrow> payload \<Rightarrow> message" where
  "encode M d = put_payload d (set_id (mt_code M) new_message)"

definition decode :: "EMessageType \<Rightarrow> message \<Rightarrow> (payload \<times> message) option" where
  "decode M m = get_payload (Payload M) m"

section \<open>Round trips\<close>

text \<open>A structure is well formed when its 8-bit length fields hold the lengths of its strings;
  the code sets them with \<open>x.size()\<close>, so it means that no string is longer than 255.\<close>

definition wf_CodePhrase :: "CodePhrase \<Rightarrow> bool" where
  "wf_CodePhrase d \<longleftrightarrow> length (code d) = unat (code_size d)"

definition wf_FileData :: "FileData \<Rightarrow> bool" where
  "wf_FileData d \<longleftrightarrow> length (file_name d) = unat (file_name_size d)"

definition wf_PreMetadata :: "PreMetadata \<Rightarrow> bool" where
  "wf_PreMetadata d \<longleftrightarrow> wf_CodePhrase (pre_code_phrase d) \<and> wf_FileData (pre_file_data d)"

definition wf_PostMetadata :: "PostMetadata \<Rightarrow> bool" where
  "wf_PostMetadata d \<longleftrightarrow> wf_CodePhrase (post_code_phrase d) \<and> wf_FileData (post_file_data d)"

definition wf_ChunkData :: "ChunkData \<Rightarrow> bool" where
  "wf_ChunkData d \<longleftrightarrow> length (hash d) = sha256_digest_length"

lemmas wf_payload_defs = wf_CodePhrase_def wf_FileData_def wf_PreMetadata_def
  wf_PostMetadata_def wf_ChunkData_def

lemma get_string_put [codec_simps]:
  "sized m \<Longrightarrow> length t = length s \<Longrightarrow> get_string t (put_container (string_bytes s) m) = (s, m)"
  by (simp add: get_string_def codec_simps)

lemma length_get_container: "get_container old m = (d, m') \<Longrightarrow> length d = length old"
  by (auto simp: get_container_def Let_def split: if_splits)

lemma length_get_string: "get_string t m = (s, m') \<Longrightarrow> length s = length t"
  by (auto simp: get_string_def apfst_def map_prod_def split: prod.splits dest!: length_get_container)

interpretation cp: stream_codec put_CodePhrase "get_CodePhrase d" wf_CodePhrase for d
  by unfold_locales
    (simp_all add: put_CodePhrase_def get_CodePhrase_def wf_CodePhrase_def codec_simps)

interpretation fd: stream_codec put_FileData "get_FileData d" wf_FileData for d
  by unfold_locales
    (simp_all add: put_FileData_def get_FileData_def wf_FileData_def codec_simps)

text \<open>The body that both metadata structures share: the file data, then the code phrase.\<close>

interpretation fdcp: stream_codec2 put_FileData "get_FileData d" wf_FileData
    put_CodePhrase "get_CodePhrase c" wf_CodePhrase for d c
  by unfold_locales

lemmas payload_codec_simps = cp.get_put cp.put_sized cp.put_hdr_id fd.get_put fd.put_sized fd.put_hdr_id

interpretation pre: stream_codec put_PreMetadata "get_PreMetadata d" wf_PreMetadata for d
  by unfold_locales
    (simp_all add: put_PreMetadata_def get_PreMetadata_def wf_PreMetadata_def codec_simps payload_codec_simps)

interpretation post: stream_codec put_PostMetadata "get_PostMetadata d" wf_PostMetadata for d
  by unfold_locales
    (simp_all add: put_PostMetadata_def get_PostMetadata_def wf_PostMetadata_def codec_simps payload_codec_simps)

interpretation empty_codec: stream_codec put_Empty get_Empty "\<lambda>_. True"
  by unfold_locales (auto simp: put_Empty_def get_Empty_def codec_simps split: Empty.splits)

text \<open>A chunk takes the whole rest of the body, so it is only read back from a message that held
  nothing before it.\<close>

lemma get_put_ChunkData:
  assumes "wf_ChunkData c" "sized m" "body m = []"
  shows "get_ChunkData d (put_ChunkData c m) = Some (c, m)"
  using assms
  by (simp add: put_ChunkData_def get_ChunkData_def wf_ChunkData_def codec_simps msg_size_def Let_def)

primrec wf_payload :: "payload \<Rightarrow> bool" where
  "wf_payload (PPost d) = wf_PostMetadata d"
| "wf_payload (PPre d) = wf_PreMetadata d"
| "wf_payload (PCode d) = wf_CodePhrase d"
| "wf_payload (PChunk d) = wf_ChunkData d"
| "wf_payload (PEmpty d) = True"

lemma decode_encode:
  assumes "wf_payload p" "type_of p = Payload M"
  shows "decode M (encode M p) = Some (p, set_id (mt_code M) new_message)"
  using assms
  by (cases p)
    (simp_all add: decode_def encode_def pre.get_put post.get_put cp.get_put get_put_ChunkData
      empty_codec.get_put flip: assms(2))

lemma put_payload_frame [simp]:
  "sized m \<Longrightarrow> sized (put_payload p m)" "hdr_id (header (put_payload p m)) = hdr_id (header m)"
  by (cases p; simp add: pre.put_sized post.put_sized cp.put_sized empty_codec.put_sized
      pre.put_hdr_id post.put_hdr_id cp.put_hdr_id empty_codec.put_hdr_id put_ChunkData_def)+

lemma encode_simps [simp]:
  "sized (encode M p)" "hdr_id (header (encode M p)) = mt_code M" "has_type (encode M p) N \<longleftrightarrow> M = N"
  by (simp_all add: encode_def has_type_def)

section \<open>What decoding an arbitrary body gives\<close>

lemma get_word_None_iff:
  "(get_word m :: ('a::len word \<times> message) option) = None \<longleftrightarrow> length (body m) < LENGTH('a) div 8"
  by (simp add: get_word_def get_data_None_iff)

lemma get_word_SomeD:
  "(get_word m :: ('a::len word \<times> message) option) = Some (w, m') \<Longrightarrow>
     length (body m) = length (body m') + LENGTH('a) div 8 \<and> sized m'"
  by (auto simp: get_word_def dest: get_data_SomeD)

lemma get_CodePhrase_None_iff: "get_CodePhrase d m = None \<longleftrightarrow> body m = []"
  using get_word_None_iff[where 'a = 8, of m]
  by (auto simp: get_CodePhrase_def split: option.splits prod.splits)

lemma get_CodePhrase_wf: "get_CodePhrase d m = Some (c, m') \<Longrightarrow> wf_CodePhrase c"
  by (auto simp: get_CodePhrase_def wf_CodePhrase_def dest!: length_get_string
      split: option.splits prod.splits)

lemma get_FileData_None_iff: "get_FileData d m = None \<longleftrightarrow> length (body m) < 9"
proof (cases "get_word m :: (u64 \<times> message) option")
  case None
  then have "length (body m) < 8" by (simp add: get_word_None_iff)
  then show ?thesis by (simp add: get_FileData_def None)
next
  case (Some p)
  obtain w m1 where p: "p = (w, m1)" by fastforce
  have l: "length (body m) = length (body m1) + 8"
    using get_word_SomeD[where 'a = 64, of m w m1] Some p by simp
  show ?thesis
    using get_word_None_iff[where 'a = 8, of m1] l
    by (auto simp: get_FileData_def Some p split: option.splits prod.splits)
qed

lemma get_FileData_wf: "get_FileData d m = Some (c, m') \<Longrightarrow> wf_FileData c"
  by (auto simp: get_FileData_def wf_FileData_def dest!: length_get_string
      split: option.splits prod.splits)

lemma get_PreMetadata_wf: "get_PreMetadata d m = Some (c, m') \<Longrightarrow> wf_PreMetadata c"
  by (auto simp: get_PreMetadata_def wf_PreMetadata_def split: option.splits)
    (erule get_CodePhrase_wf get_FileData_wf)+

lemma get_PostMetadata_wf: "get_PostMetadata d m = Some (c, m') \<Longrightarrow> wf_PostMetadata c"
  by (auto simp: get_PostMetadata_def wf_PostMetadata_def split: option.splits)
    (erule get_CodePhrase_wf get_FileData_wf)+

lemma get_payload_wf: "get_payload t m = Some (p, m') \<Longrightarrow> t \<noteq> TChunk \<Longrightarrow> wf_payload p"
  by (cases t)
    (auto dest: get_PreMetadata_wf get_PostMetadata_wf get_CodePhrase_wf)

text \<open>The least body a payload can be read from: the fixed-size fields that precede (in reading
  order) every variable-size one. Below it the read is undefined, whatever the bytes are.\<close>

fun min_body :: "payload_type \<Rightarrow> nat" where
  "min_body TPost = 19"
| "min_body TPre = 11"
| "min_body TCode = 1"
| "min_body TChunk = 32"
| "min_body TEmpty = 1"

lemma get_CodePhrase_body:
  "get_CodePhrase d m = Some (c, m') \<Longrightarrow> length (body m') < length (body m)"
proof -
  assume a: "get_CodePhrase d m = Some (c, m')"
  then obtain n m1 s where 1: "get_word m = Some (n :: u8, m1)"
    and 2: "get_string (resize_string (unat n) (code d)) m1 = (s, m')"
    by (auto simp: get_CodePhrase_def split: option.splits prod.splits)
  have "length (body m') \<le> length (body m1)"
    using 2 by (auto simp: get_string_def get_container_def Let_def split: if_splits)
  then show ?thesis using get_word_SomeD[OF 1] by simp
qed

lemma get_PreMetadata_short:
  assumes "length (body m) < 11"
  shows "get_PreMetadata d m = None"
proof (cases "get_PreMetadata d m")
  case (Some r)
  then obtain pt m1 cp m2 fd m3 where 1: "get_word m = Some (pt :: u8, m1)"
    and 2: "get_CodePhrase (pre_code_phrase d) m1 = Some (cp, m2)"
    and 3: "get_FileData (pre_file_data d) m2 = Some (fd, m3)"
    by (auto simp: get_PreMetadata_def split: option.splits)
  have "length (body m) = length (body m1) + 1" using get_word_SomeD[OF 1] by simp
  moreover have "length (body m2) < length (body m1)" using get_CodePhrase_body[OF 2] .
  moreover have "9 \<le> length (body m2)"
    using 3 get_FileData_None_iff[of "pre_file_data d" m2] by (cases "length (body m2) < 9") auto
  ultimately show ?thesis using assms by simp
qed simp

lemma get_PostMetadata_short:
  assumes "length (body m) < 19"
  shows "get_PostMetadata d m = None"
proof (cases "get_PostMetadata d m")
  case (Some r)
  then obtain pt m1 mx m2 cp m3 fd m4 where 1: "get_word m = Some (pt :: u8, m1)"
    and 2: "get_word m1 = Some (mx :: u64, m2)"
    and 3: "get_CodePhrase (post_code_phrase d) m2 = Some (cp, m3)"
    and 4: "get_FileData (post_file_data d) m3 = Some (fd, m4)"
    by (auto simp: get_PostMetadata_def split: option.splits)
  have "length (body m) = length (body m1) + 1" "length (body m1) = length (body m2) + 8"
    using get_word_SomeD[OF 1] get_word_SomeD[OF 2] by simp_all
  moreover have "length (body m3) < length (body m2)" using get_CodePhrase_body[OF 3] .
  moreover have "9 \<le> length (body m3)"
    using 4 get_FileData_None_iff[of "post_file_data d" m3] by (cases "length (body m3) < 9") auto
  ultimately show ?thesis using assms by simp
qed simp

lemma get_payload_short: "length (body m) < min_body t \<Longrightarrow> get_payload t m = None"
  by (cases t)
    (simp_all add: get_PreMetadata_short get_PostMetadata_short get_CodePhrase_None_iff
      get_Empty_def get_ChunkData_def get_data_def sha256_digest_length_def)

section \<open>Properties\<close>

text \<open>C16: Every payload survives transmission: for each of the eleven message types, decoding an
  encoded payload of its type (with length fields that describe the strings) gives the payload
  back and consumes exactly its bytes; the encoded message carries the type and its body size.\<close>

theorem encode_decode_round_trip:
  assumes "wf_payload p" and "type_of p = Payload M"
  shows "decode M (encode M p) = Some (p, set_id (mt_code M) new_message) \<and>
    has_type (encode M p) M \<and> sized (encode M p)"
  using decode_encode[OF assms] by simp

theorem encode_decode_round_trip_witness:
  "decode Receive (encode Receive (PCode \<lparr>code_size = 3, code = ''abc''\<rparr>)) =
     Some (PCode \<lparr>code_size = 3, code = ''abc''\<rparr>, set_id (mt_code Receive) new_message)"
  using encode_decode_round_trip[of "PCode \<lparr>code_size = 3, code = ''abc''\<rparr>" Receive]
  by (simp add: wf_CodePhrase_def)

text \<open>Reading a message whose body is shorter than the fixed-size fields of its type is
  undefined behaviour for every message type: no reader checks the body size, so a peer can send
  such a message and make the receiving program read out of bounds.\<close>

theorem decode_short_body_undefined:
  assumes "length (body m) < min_body (Payload M)"
  shows "decode M m = None"
  using assms by (simp add: decode_def get_payload_short)

theorem decode_short_body_undefined_witness:
  "decode Send (set_id (mt_code Send) new_message) = None"
  by (rule decode_short_body_undefined) simp

text \<open>C32: Whatever bytes a peer sends, a decoded metadata payload is well formed: each string has
  exactly the length its 8-bit size field announces (padded with zeros when the body is too short),
  so re-encoding what was decoded is lossless.\<close>

theorem decoded_payload_well_formed:
  assumes "decode M m = Some (p, m')" and "M \<noteq> Chunk"
  shows "wf_payload p \<and> type_of p = Payload M \<and>
    decode M (encode M p) = Some (p, set_id (mt_code M) new_message)"
proof -
  have "Payload M \<noteq> TChunk" using assms(2) by (cases M) auto
  then have wf: "wf_payload p"
    using assms(1) get_payload_wf by (auto simp: decode_def)
  moreover have ty: "type_of p = Payload M"
    using assms(1) by (cases "Payload M") (auto simp: decode_def)
  ultimately show ?thesis using decode_encode by simp
qed

theorem decoded_payload_well_formed_witness:
  "wf_payload (PCode \<lparr>code_size = 1, code = ''x''\<rparr>)"
  using decoded_payload_well_formed[of Receive
      "\<lparr>header = \<lparr>hdr_id = 8, hdr_size = 2\<rparr>, body = [120, 1]\<rparr>"
      "PCode \<lparr>code_size = 1, code = ''x''\<rparr>" "\<lparr>header = \<lparr>hdr_id = 8, hdr_size = 0\<rparr>, body = []\<rparr>"]
  by (simp add: decode_def get_CodePhrase_def get_word_def get_data_def get_string_def
      get_container_def resize_string_def string_bytes_def bytes_string_def byte_char_def
      sync_size_def msg_size_def char_of_def bit_simps)

end
