(* ===== verification/Hash.thy ===== *)
theory Hash
  imports Prelude
begin

text \<open>
  \<^verbatim>\<open>filetransmission/ppcommon/include/ppcommon/hash.hpp\<close>: \<open>sha256_chunk\<close>, the digest of a
  block of bytes computed through OpenSSL's EVP interface. OpenSSL is not part of the repository:
  it is a record of functions on a library state of any type \<open>'w\<close>, each call returning what
  the C function returns. What the manual pages promise about these calls is \<open>evp_documented\<close>;
  \<open>evp_no_fault\<close> says in addition that no call fails. \<open>std::runtime_error\<close> is the \<open>Inl\<close> of
  the result, with the message of the source.
\<close>

section \<open>The code\<close>

record 'w evp_api =
  EVP_MD_CTX_new :: "'w \<Rightarrow> nat option \<times> 'w"
  EVP_DigestInit_ex :: "nat \<Rightarrow> 'w \<Rightarrow> int \<times> 'w"
  EVP_DigestUpdate :: "nat \<Rightarrow> bytes \<Rightarrow> 'w \<Rightarrow> int \<times> 'w"
  EVP_DigestFinal_ex :: "nat \<Rightarrow> 'w \<Rightarrow> (int \<times> bytes \<times> u32) \<times> 'w"
  EVP_MD_CTX_free :: "nat \<Rightarrow> 'w \<Rightarrow> 'w"

text \<open>The end of the function: the context is released on both branches, and a digest of another
  length than the array is refused. The digest is written over the zeroed array.\<close>

definition sha256_final :: "'w evp_api \<Rightarrow> nat \<Rightarrow> 'w \<Rightarrow> (string + bytes) \<times> 'w" where
  "sha256_final api context w =
     (case EVP_DigestFinal_ex api context w of ((rc, md, out_length), w1) \<Rightarrow>
        let w2 = EVP_MD_CTX_free api context w1;
            buf = md @ drop (length md) (replicate sha256_digest_length 0)
        in if rc \<noteq> 1 then (Inl ''EVP_DigestFinal_ex() failed'', w2)
           else if unat out_length \<noteq> sha256_digest_length then (Inl ''Unexpexted hash size'', w2)
           else (Inr buf, w2))"

definition sha256_chunk :: "'w evp_api \<Rightarrow> bytes \<Rightarrow> 'w \<Rightarrow> (string + bytes) \<times> 'w" where
  "sha256_chunk api d w =
     (case EVP_MD_CTX_new api w of
        (None, w1) \<Rightarrow> (Inl ''EVP_MD_CTX_new() failed'', w1)
      | (Some context, w1) \<Rightarrow>
          (case EVP_DigestInit_ex api context w1 of (rc, w2) \<Rightarrow>
             if rc \<noteq> 1 then (Inl ''EVP_DigestInit_ex() failed'', EVP_MD_CTX_free api context w2)
             else if length d > 0 then
               (case EVP_DigestUpdate api context d w2 of (rc, w3) \<Rightarrow>
                  if rc \<noteq> 1
                  then (Inl ''EVP_DigestUpdate() failed'', EVP_MD_CTX_free api context w3)
                  else sha256_final api context w3)
             else sha256_final api context w2))"

section \<open>What the library documents\<close>

text \<open>\<open>live w\<close> are the contexts allocated and not yet freed, \<open>acc w c\<close> the bytes fed to context
  \<open>c\<close> since its initialisation, \<open>sha\<close> the digest function.\<close>

definition evp_documented ::
    "'w evp_api \<Rightarrow> (bytes \<Rightarrow> bytes) \<Rightarrow> ('w \<Rightarrow> nat set) \<Rightarrow> ('w \<Rightarrow> nat \<Rightarrow> bytes) \<Rightarrow> bool" where
  "evp_documented api sha live acc \<longleftrightarrow>
     (\<forall>d. length (sha d) = sha256_digest_length) \<and>
     (\<forall>w w'. EVP_MD_CTX_new api w = (None, w') \<longrightarrow> live w' = live w) \<and>
     (\<forall>w c w'. EVP_MD_CTX_new api w = (Some c, w') \<longrightarrow> c \<notin> live w \<and> live w' = insert c (live w)) \<and>
     (\<forall>c w rc w'. c \<in> live w \<longrightarrow> EVP_DigestInit_ex api c w = (rc, w') \<longrightarrow>
        live w' = live w \<and> (rc = 1 \<longrightarrow> acc w' c = [])) \<and>
     (\<forall>c d w rc w'. c \<in> live w \<longrightarrow> EVP_DigestUpdate api c d w = (rc, w') \<longrightarrow>
        live w' = live w \<and> (rc = 1 \<longrightarrow> acc w' c = acc w c @ d)) \<and>
     (\<forall>c w rc md n w'. c \<in> live w \<longrightarrow> EVP_DigestFinal_ex api c w = ((rc, md, n), w') \<longrightarrow>
        live w' = live w \<and> (rc = 1 \<longrightarrow> md = sha (acc w c) \<and> unat n = length md)) \<and>
     (\<forall>c w. c \<in> live w \<longrightarrow> live (EVP_MD_CTX_free api c w) = live w - {c})"

definition evp_no_fault :: "'w evp_api \<Rightarrow> bool" where
  "evp_no_fault api \<longleftrightarrow>
     (\<forall>w. fst (EVP_MD_CTX_new api w) \<noteq> None) \<and>
     (\<forall>c w. fst (EVP_DigestInit_ex api c w) = 1) \<and>
     (\<forall>c d w. fst (EVP_DigestUpdate api c d w) = 1) \<and>
     (\<forall>c w. fst (fst (EVP_DigestFinal_ex api c w)) = 1)"

lemma evp_documentedD:
  assumes "evp_documented api sha live acc"
  shows "length (sha d) = sha256_digest_length"
    and "EVP_MD_CTX_new api w = (None, w') \<Longrightarrow> live w' = live w"
    and "EVP_MD_CTX_new api w = (Some c, w') \<Longrightarrow> c \<notin> live w \<and> live w' = insert c (live w)"
    and "c \<in> live w \<Longrightarrow> EVP_DigestInit_ex api c w = (rc, w') \<Longrightarrow>
           live w' = live w \<and> (rc = 1 \<longrightarrow> acc w' c = [])"
    and "c \<in> live w \<Longrightarrow> EVP_DigestUpdate api c d w = (rc, w') \<Longrightarrow>
           live w' = live w \<and> (rc = 1 \<longrightarrow> acc w' c = acc w c @ d)"
    and "c \<in> live w \<Longrightarrow> EVP_DigestFinal_ex api c w = ((rc, md, n), w') \<Longrightarrow>
           live w' = live w \<and> (rc = 1 \<longrightarrow> md = sha (acc w c) \<and> unat n = length md)"
    and "c \<in> live w \<Longrightarrow> live (EVP_MD_CTX_free api c w) = live w - {c}"
  using assms unfolding evp_documented_def by (fast | simp)+

lemma sha256_final_correct:
  assumes doc: "evp_documented api sha live acc" and c: "c \<in> live w"
    and r: "sha256_final api c w = (r, w')"
  shows "live w' = live w - {c}" and "r = Inr h \<Longrightarrow> h = sha (acc w c)"
    and "evp_no_fault api \<Longrightarrow> r = Inr (sha (acc w c))"
proof -
  obtain rc md n w1 where f: "EVP_DigestFinal_ex api c w = ((rc, md, n), w1)"
    by (metis prod.exhaust)
  note fin = evp_documentedD(6)[OF doc c f]
  note len = evp_documentedD(1)[OF doc]
  have "c \<in> live w1" using fin c by simp
  from evp_documentedD(7)[OF doc this] fin
  have fr: "live (EVP_MD_CTX_free api c w1) = live w - {c}" by simp
  show "live w' = live w - {c}"
    using r fr by (auto simp: sha256_final_def f Let_def split: if_splits)
  show "r = Inr h \<Longrightarrow> h = sha (acc w c)"
    using r fin len by (auto simp: sha256_final_def f Let_def split: if_splits)
  assume "evp_no_fault api"
  then have "rc = 1" using f unfolding evp_no_fault_def by (metis fst_conv)
  then show "r = Inr (sha (acc w c))"
    using r fin len by (auto simp: sha256_final_def f Let_def split: if_splits)
qed

lemma evp_no_faultD:
  assumes "evp_no_fault api"
  shows "EVP_MD_CTX_new api w = (co, w') \<Longrightarrow> co \<noteq> None"
    and "EVP_DigestInit_ex api c w = (rc, w') \<Longrightarrow> rc = 1"
    and "EVP_DigestUpdate api c d w = (rc, w') \<Longrightarrow> rc = 1"
  using assms unfolding evp_no_fault_def by (metis fst_conv)+

text \<open>One walk over the branches gives everything there is to say about the function.\<close>

definition digest_result :: "'w evp_api \<Rightarrow> (bytes \<Rightarrow> bytes) \<Rightarrow> bytes \<Rightarrow> (string + bytes) \<Rightarrow> bool" where
  "digest_result api sha d r \<longleftrightarrow>
     (\<forall>h. r = Inr h \<longrightarrow> h = sha d) \<and> (evp_no_fault api \<longrightarrow> r = Inr (sha d))"

lemma sha256_chunk_correct:
  assumes doc: "evp_documented api sha live acc" and r: "sha256_chunk api d w = (r, w')"
  shows "live w' = live w \<and> digest_result api sha d r"
proof (cases "EVP_MD_CTX_new api w")
  case n: (Pair co w1)
  show ?thesis
  proof (cases co)
    case None
    then show ?thesis using r n evp_documentedD(2)[OF doc, of w w1] evp_no_faultD(1)[of api w co w1]
      by (auto simp: sha256_chunk_def digest_result_def)
  next
    case (Some c)
    have new: "c \<notin> live w" "live w1 = insert c (live w)"
      using evp_documentedD(3)[OF doc, of w c w1] n Some by simp_all
    obtain rc w2 where i: "EVP_DigestInit_ex api c w1 = (rc, w2)" by fastforce
    have ini: "live w2 = insert c (live w)" "rc = 1 \<longrightarrow> acc w2 c = []"
      using evp_documentedD(4)[OF doc _ i] new by simp_all
    have fin: "live w' = live w \<and> digest_result api sha d r"
      if "rc = 1" "live wf = insert c (live w)" "acc wf c = d" "sha256_final api c wf = (r, w')" for wf
    proof -
      have c: "c \<in> live wf" using that by simp
      note f = sha256_final_correct[OF doc c that(4)]
      have "live w' = live w" using f(1) that(2) new(1) by simp
      moreover have "\<forall>h. r = Inr h \<longrightarrow> h = sha d" using f(2) that(3) by blast
      moreover have "evp_no_fault api \<longrightarrow> r = Inr (sha d)" using f(3) that(3) by blast
      ultimately show ?thesis by (simp only: digest_result_def)
    qed
    obtain rc' w3 where u: "EVP_DigestUpdate api c d w2 = (rc', w3)" by fastforce
    have upd: "live w3 = insert c (live w)" "rc' = 1 \<longrightarrow> acc w3 c = acc w2 c @ d"
      using evp_documentedD(5)[OF doc _ u] ini by simp_all
    have free: "live (EVP_MD_CTX_free api c w2) = live w" "live (EVP_MD_CTX_free api c w3) = live w"
      using evp_documentedD(7)[OF doc, of c] ini(1) upd(1) new(1) by simp_all
    note nf = evp_no_faultD(2)[OF _ i] evp_no_faultD(3)[OF _ u]
    consider "rc \<noteq> 1" | "rc = 1" "d = []" | "rc = 1" "d \<noteq> []" "rc' \<noteq> 1" | "rc = 1" "d \<noteq> []" "rc' = 1"
      by blast
    then show ?thesis
    proof cases
      case 1
      then show ?thesis using r n Some i free nf by (auto simp: sha256_chunk_def digest_result_def)
    next
      case 2
      then show ?thesis using fin[of w2] r n Some i ini by (simp add: sha256_chunk_def)
    next
      case 3
      then show ?thesis using r n Some i u free nf by (auto simp: sha256_chunk_def digest_result_def)
    next
      case 4
      then show ?thesis using fin[of w3] r n Some i u ini upd by (simp add: sha256_chunk_def)
    qed
  qed
qed

text \<open>What the sessions use: with a library that does not fail, the function is \<open>sha\<close>.\<close>

definition hash_works :: "'w evp_api \<Rightarrow> (bytes \<Rightarrow> bytes) \<Rightarrow> bool" where
  "hash_works api sha \<longleftrightarrow> (\<forall>d. length (sha d) = sha256_digest_length) \<and>
     (\<forall>d w. fst (sha256_chunk api d w) = Inr (sha d))"

lemma hash_worksI:
  assumes "evp_documented api sha live acc" and "evp_no_fault api"
  shows "hash_works api sha"
  using sha256_chunk_correct[OF assms(1)] evp_documentedD(1)[OF assms(1)] assms(2)
  unfolding hash_works_def digest_result_def by (metis prod.collapse)

lemma hash_worksD:
  assumes "hash_works api sha"
  obtains w' where "sha256_chunk api d w = (Inr (sha d), w')"
  using assms unfolding hash_works_def by (metis prod.collapse)

section \<open>A library state for the examples\<close>

text \<open>Contexts with the bytes fed to them, and a countdown to the call that fails (\<open>sure\<close> switches
  it off). The digest stands in for SHA-256: the block cut or padded to 32 bytes.\<close>

record evp_world =
  contexts :: "(nat \<times> bytes) list"
  next_context :: nat
  calls_left :: nat

definition demo_world :: "nat \<Rightarrow> evp_world" where
  "demo_world n = \<lparr>contexts = [], next_context = 0, calls_left = n\<rparr>"

definition demo_digest :: "bytes \<Rightarrow> bytes" where
  "demo_digest d = take 32 (d @ replicate 32 0)"

definition demo_call :: "bool \<Rightarrow> evp_world \<Rightarrow> bool \<times> evp_world" where
  "demo_call sure w = (if sure then (True, w) else if calls_left w = 0 then (False, w)
     else (True, w\<lparr>calls_left := calls_left w - 1\<rparr>))"

definition demo_fed :: "evp_world \<Rightarrow> nat \<Rightarrow> bytes" where
  "demo_fed w c = (case map_of (contexts w) c of None \<Rightarrow> [] | Some d \<Rightarrow> d)"

definition demo_live :: "evp_world \<Rightarrow> nat set" where
  "demo_live w = {c \<in> fst ` set (contexts w). c < next_context w}"

definition demo_set :: "nat \<Rightarrow> bytes \<Rightarrow> evp_world \<Rightarrow> evp_world" where
  "demo_set c d w = w\<lparr>contexts := (c, d) # contexts w\<rparr>"

definition demo_api :: "bool \<Rightarrow> evp_world evp_api" where
  "demo_api sure = \<lparr>
     EVP_MD_CTX_new = (\<lambda>w. case demo_call sure w of (ok, w1) \<Rightarrow>
       if ok then (Some (next_context w1),
         demo_set (next_context w1) [] (w1\<lparr>next_context := next_context w1 + 1\<rparr>))
       else (None, w1)),
     EVP_DigestInit_ex = (\<lambda>c w. case demo_call sure w of (ok, w1) \<Rightarrow>
       if ok then (1, demo_set c [] w1) else (0, w1)),
     EVP_DigestUpdate = (\<lambda>c d w. case demo_call sure w of (ok, w1) \<Rightarrow>
       if ok then (1, demo_set c (demo_fed w1 c @ d) w1) else (0, w1)),
     EVP_DigestFinal_ex = (\<lambda>c w. case demo_call sure w of (ok, w1) \<Rightarrow>
       if ok then ((1, demo_digest (demo_fed w1 c), 32), w1) else ((0, [], 0), w1)),
     EVP_MD_CTX_free = (\<lambda>c w. w\<lparr>contexts := filter (\<lambda>e. fst e \<noteq> c) (contexts w)\<rparr>)\<rparr>"

lemma demo_call_simps [simp]:
  "demo_call s w = (ok, w1) \<Longrightarrow> contexts w1 = contexts w"
  "demo_call s w = (ok, w1) \<Longrightarrow> next_context w1 = next_context w"
  by (auto simp: demo_call_def split: if_splits)

lemma demo_call_sure [simp]: "demo_call True w = (True, w)"
  by (simp add: demo_call_def)

lemma length_demo_digest [simp]: "length (demo_digest d) = sha256_digest_length"
  by (simp add: demo_digest_def sha256_digest_length_def)

lemma demo_documented: "evp_documented (demo_api s) demo_digest demo_live demo_fed"
  unfolding evp_documented_def
  by (intro conjI)
    (auto simp: demo_api_def demo_set_def demo_live_def demo_fed_def sha256_digest_length_def
      split: prod.splits if_splits)

lemma demo_no_fault: "evp_no_fault (demo_api True)"
  by (simp add: evp_no_fault_def demo_api_def)

lemma demo_hash_works: "hash_works (demo_api True) demo_digest"
  by (rule hash_worksI [OF demo_documented demo_no_fault])

section \<open>Properties\<close>

text \<open>C31: \<open>sha256_chunk\<close> neither leaks nor lies: on every path, the four failing ones included, every
  context it created is freed, exactly once, so the live contexts are those of the start; a result is the
  digest of exactly the bytes given (an empty block too, which skips the update); and when no
  library call fails it does return one.\<close>

theorem sha256_chunk_safe:
  assumes "evp_documented api sha live acc" and "sha256_chunk api d w = (r, w')"
  shows "live w' = live w \<and>
    (\<forall>h. r = Inr h \<longrightarrow> h = sha d \<and> length h = 32) \<and> (evp_no_fault api \<longrightarrow> r = Inr (sha d))"
proof -
  note c = sha256_chunk_correct[OF assms, unfolded digest_result_def]
  moreover have "length (sha d) = 32"
    using evp_documentedD(1)[OF assms(1)] by (simp add: sha256_digest_length_def)
  ultimately show ?thesis by blast
qed

theorem sha256_chunk_safe_witness:
  "sha256_chunk (demo_api False) [7, 8] (demo_world 2) =
     (Inl ''EVP_DigestUpdate() failed'', (demo_world 0)\<lparr>next_context := 1\<rparr>) \<and>
   demo_live ((demo_world 0)\<lparr>next_context := 1\<rparr>) = demo_live (demo_world 2)"
proof -
  have r: "sha256_chunk (demo_api False) [7, 8] (demo_world 2) =
     (Inl ''EVP_DigestUpdate() failed'', (demo_world 0)\<lparr>next_context := 1\<rparr>)"
    by code_simp
  show ?thesis by (rule conjI [OF r conjunct1 [OF sha256_chunk_safe [OF demo_documented r]]])
qed

end
