(* ===== verification/Session.thy ===== *)
theory Session
  imports Connection PPCommon Hash
begin

text \<open>
  \<^verbatim>\<open>filetransmission/ppcommon/include/ppcommon/session.hpp\<close>: the two main loops of a client that
  transfers a file, and the two sessions of the server.

  A client's main loop shares its queue of incoming messages with the network thread: the
  messages come in batches (\<^verbatim>\<open>TSQueue\<close>), and the wait on an empty queue when nothing comes any
  more never ends (\<open>Blocked\<close>). The file system, the send callback (\<open>'c\<close> is the state it changes),
  the memory allocator and OpenSSL are parameters.
\<close>

section \<open>The environment of a main loop\<close>

text \<open>How a main loop ends. \<open>Undef\<close> is an out-of-bounds read, \<open>Exception\<close> an exception that leaves
  the function.\<close>

datatype outcome = Returned bool | Blocked | Exception string | Undef

text \<open>An output file stream has a buffer. The disk is a parameter: \<open>disk_keeps buf d\<close> says whether a write
  of \<open>d\<close> only goes to the buffer, behind \<open>buf\<close>; otherwise the buffer and \<open>d\<close> are written out, and
  \<open>disk_room old new\<close> is how many of the bytes \<open>new\<close> can then be stored behind \<open>old\<close>. Storing fewer makes
  the stream bad, and the rest is lost; a bad stream writes nothing.\<close>

record out_disk =
  disk_room :: "bytes \<Rightarrow> bytes \<Rightarrow> nat"
  disk_keeps :: "bytes \<Rightarrow> bytes \<Rightarrow> bool"

record ofstream =
  ofs_data :: bytes
  ofs_buf :: bytes
  ofs_good :: bool

definition ofs_open :: "bool \<Rightarrow> ofstream" where
  "ofs_open opened = \<lparr>ofs_data = [], ofs_buf = [], ofs_good = opened\<rparr>"

definition ofs_out :: "out_disk \<Rightarrow> bytes \<Rightarrow> ofstream \<Rightarrow> ofstream" where
  "ofs_out disk new f =
     (let n = disk_room disk (ofs_data f) new
      in \<lparr>ofs_data = ofs_data f @ take n new, ofs_buf = [], ofs_good = (ofs_good f \<and> length new \<le> n)\<rparr>)"

definition ofs_write :: "out_disk \<Rightarrow> bytes \<Rightarrow> ofstream \<Rightarrow> ofstream" where
  "ofs_write disk d f =
     (if \<not> ofs_good f then f
      else if disk_keeps disk (ofs_buf f) d then f\<lparr>ofs_buf := ofs_buf f @ d\<rparr>
      else ofs_out disk (ofs_buf f @ d) f)"

text \<open>\<open>close\<close>, called by the code or by the destructor.\<close>

definition ofs_close :: "out_disk \<Rightarrow> ofstream \<Rightarrow> ofstream" where
  "ofs_close disk f = ofs_out disk (ofs_buf f) f"

text \<open>An input file stream over the bytes that reading delivers before the end of the file or an
  error, which the code does not tell apart: a read of more than there is makes the stream bad.\<close>

record ifstream =
  ifs_rest :: bytes
  ifs_good :: bool

definition ifs_read :: "nat \<Rightarrow> ifstream \<Rightarrow> bytes \<times> ifstream" where
  "ifs_read n f =
     (if ifs_good f
      then (take n (ifs_rest f), \<lparr>ifs_rest = drop n (ifs_rest f), ifs_good = (n \<le> length (ifs_rest f))\<rparr>)
      else ([], f))"

text \<open>A path: nothing is there, looking it up fails (\<open>std::filesystem::exists\<close> throws), it cannot be read,
  or it is a file.\<close>

datatype fs_file = Missing | Inaccessible | Unreadable | Readable bytes

definition open_ifs :: "fs_file \<Rightarrow> ifstream" where
  "open_ifs f = (case f of Readable bs \<Rightarrow> \<lparr>ifs_rest = bs, ifs_good = True\<rparr>
     | _ \<Rightarrow> \<lparr>ifs_rest = [], ifs_good = False\<rparr>)"

section \<open>ClientReceiverSession\<close>

record 'w recv_state =
  rs_sched :: "owned_message schedule"
  rs_in :: "owned_message tsqueue"
  rs_ofs :: ofstream
  rs_world :: 'w

text \<open>The inner loop: \<open>Again\<close> when the queue was found empty, the other values for the ways it is
  left. \<open>recv_message\<close> is its body for one message, \<open>None\<close> when the loop goes on.\<close>

datatype drain_status = Again | Finished | Failed | Threw string | OutOfBounds

definition recv_message :: "'w evp_api \<Rightarrow> out_disk \<Rightarrow> message \<Rightarrow> 'w recv_state \<Rightarrow>
    drain_status option \<times> 'w recv_state" where
  "recv_message api disk msg s =
     (if has_type msg Abort then (Some Failed, s)
      else if has_type msg Chunk then
        (case get_data sha256_digest_length msg of
           None \<Rightarrow> (Some OutOfBounds, s)
         | Some (inc_hash, msg1) \<Rightarrow>
             (case sha256_chunk api (body msg1) (rs_world s) of
                (Inl e, w) \<Rightarrow> (Some (Threw e), s\<lparr>rs_world := w\<rparr>)
              | (Inr h, w) \<Rightarrow>
                  if inc_hash \<noteq> h then (Some Failed, s\<lparr>rs_world := w\<rparr>)
                  else (None, s\<lparr>rs_world := w, rs_ofs := ofs_write disk (body msg1) (rs_ofs s)\<rparr>)))
      else if has_type msg FinalChunk then (Some Finished, s)
      else (None, s))"

definition recv_left :: "'w recv_state \<Rightarrow> owned_message list" where
  "recv_left s = pending_in (rs_sched s) (rs_in s)"

lemma recv_message_left [simp]:
  "recv_message api disk m s = (r, s') \<Longrightarrow> recv_left s' = recv_left s"
  by (auto simp: recv_message_def recv_left_def
      split: if_splits option.splits prod.splits sum.splits)

function recv_drain :: "'w evp_api \<Rightarrow> out_disk \<Rightarrow> 'w recv_state \<Rightarrow>
    drain_status \<times> 'w recv_state" where
  "recv_drain api disk s =
     (case arrive (rs_sched s) (rs_in s) of (sch, q) \<Rightarrow>
        case pop_front q of
          None \<Rightarrow> (Again, s\<lparr>rs_sched := sch, rs_in := q\<rparr>)
        | Some (om, q') \<Rightarrow>
            (case recv_message api disk (owned_msg om) (s\<lparr>rs_sched := sch, rs_in := q'\<rparr>) of
               (None, s') \<Rightarrow> recv_drain api disk s'
             | (Some st, s') \<Rightarrow> (st, s')))"
  by pat_completeness auto

termination
  by (relation "measure (\<lambda>(_, _, s). length (recv_left s))")
    (auto dest!: pending_pop[OF sym] recv_message_left[OF sym] simp: recv_left_def)

declare recv_drain.simps [simp del]

text \<open>The loop depends on the messages to come and not on how they are batched.\<close>

lemma recv_drain_Nil:
  assumes "recv_left s = []"
  shows "\<exists>s'. recv_drain api disk s = (Again, s') \<and> recv_left s' = [] \<and> rs_ofs s' = rs_ofs s
    \<and> rs_world s' = rs_world s"
proof -
  obtain sch q where a: "arrive (rs_sched s) (rs_in s) = (sch, q)" by fastforce
  have e: "pending_in sch q = []" using assms pending_arrive[OF a] by (simp add: recv_left_def)
  then have "pop_front q = None" by (simp add: pending_in_def pop_front_eq_None)
  then show ?thesis using e by (subst recv_drain.simps) (simp add: a recv_left_def)
qed

text \<open>With messages to come, either the loop finds the queue empty first, or it handles the first
  of them.\<close>

lemma recv_drain_Cons:
  assumes "recv_left s = om # oms"
  obtains (idle) s' where "recv_drain api disk s = (Again, s')" "recv_left s' = om # oms"
      "rs_ofs s' = rs_ofs s" "rs_world s' = rs_world s" "m_deq (rs_in s) = []"
  | (handled) s1 where "recv_left s1 = oms" "rs_ofs s1 = rs_ofs s" "rs_world s1 = rs_world s"
      "recv_drain api disk s = (case recv_message api disk (owned_msg om) s1 of
         (None, s') \<Rightarrow> recv_drain api disk s' | (Some st, s') \<Rightarrow> (st, s'))"
proof -
  obtain sch q where a: "arrive (rs_sched s) (rs_in s) = (sch, q)" by fastforce
  show ?thesis
  proof (cases "pop_front q")
    case None
    then have "m_deq (rs_in s) = []"
      using a by (auto simp: arrive_def pop_front_eq_None split: list.splits)
    moreover have "recv_drain api disk s = (Again, s\<lparr>rs_sched := sch, rs_in := q\<rparr>)"
      by (subst recv_drain.simps) (simp add: a None)
    ultimately show ?thesis using idle pending_arrive[OF a] assms by (simp add: recv_left_def)
  next
    case (Some p)
    obtain om' q' where p: "p = (om', q')" by fastforce
    have l: "pending_in sch q' = oms" "om' = om"
      using pending_pop[OF a Some[unfolded p]] assms by (simp_all add: recv_left_def)
    show ?thesis
      by (rule handled[of "s\<lparr>rs_sched := sch, rs_in := q'\<rparr>"])
        (simp_all add: recv_left_def l, subst recv_drain.simps, simp add: a Some p l)
  qed
qed

lemma recv_drain_le:
  assumes "recv_left s = oms" and "recv_drain api disk s = (st, s')"
  shows "length (recv_left s') \<le> length oms \<and>
    (m_deq (rs_in s) \<noteq> [] \<longrightarrow> length (recv_left s') < length oms)"
  using assms
proof (induction oms arbitrary: s)
  case Nil
  then show ?case using recv_drain_Nil[of s api disk]
    by (auto simp: recv_left_def pending_in_def)
next
  case (Cons om oms)
  from Cons.prems(1) show ?case
  proof (cases rule: recv_drain_Cons[where api = api and disk = disk])
    case (idle s'')
    then show ?thesis using Cons.prems by simp
  next
    case (handled s1)
    obtain r s2 where m: "recv_message api disk (owned_msg om) s1 = (r, s2)" by fastforce
    have l: "recv_left s2 = oms" using recv_message_left[OF m] handled(1) by simp
    show ?thesis
    proof (cases r)
      case None
      then have "recv_drain api disk s2 = (st, s')" using Cons.prems(2) handled(4) m by simp
      then have "length (recv_left s') \<le> length oms" using Cons.IH[OF l] by blast
      then show ?thesis by simp
    next
      case (Some st1)
      then show ?thesis using Cons.prems(2) handled(4) m l by simp
    qed
  qed
qed

lemma recv_loop_decreases:
  assumes "wait_q (rs_sched s) (rs_in s) = Some (sch, q)"
    and "recv_drain api disk (s\<lparr>rs_sched := sch, rs_in := q\<rparr>) = (st, s')"
  shows "length (recv_left s') < length (recv_left s)"
  using pending_wait[OF assms(1)] recv_drain_le[OF refl assms(2)]
  by (simp add: recv_left_def)

text \<open>The outer loop \<open>while (ofs && !finish && op_result)\<close>: it comes back to the test only with
  \<open>op_result\<close> true and \<open>finish\<close> false, or leaves.\<close>

function recv_loop :: "'w evp_api \<Rightarrow> out_disk \<Rightarrow> 'w recv_state \<Rightarrow>
    outcome \<times> 'w recv_state" where
  "recv_loop api disk s =
     (if \<not> ofs_good (rs_ofs s) then (Returned True, s)
      else case wait_q (rs_sched s) (rs_in s) of
        None \<Rightarrow> (Blocked, s)
      | Some (sch, q) \<Rightarrow>
          (case recv_drain api disk (s\<lparr>rs_sched := sch, rs_in := q\<rparr>) of
             (Again, s') \<Rightarrow> recv_loop api disk s'
           | (Finished, s') \<Rightarrow> (Returned True, s')
           | (Failed, s') \<Rightarrow> (Returned False, s')
           | (Threw e, s') \<Rightarrow> (Exception e, s')
           | (OutOfBounds, s') \<Rightarrow> (Undef, s')))"
  by pat_completeness auto

termination
  by (relation "measure (\<lambda>(_, _, s). length (recv_left s))")
    (auto dest: recv_loop_decreases[OF _ sym])

declare recv_loop.simps [simp del]

text \<open>The stream is closed on the way out, by the code or, after an exception, by its destructor.\<close>

fun leaves :: "outcome \<Rightarrow> bool" where
  "leaves (Returned _) = True"
| "leaves (Exception _) = True"
| "leaves _ = False"

text \<open>The whole \<open>mainLoop\<close>: \<open>opened\<close> says whether the output file could be opened (and truncated);
  \<open>pad\<close> is the padding byte of \<open>Empty{}\<close>. The result holds how it ended, the file, the queue's state
  and the state of the callback.\<close>

definition receiver_mainLoop :: "'w evp_api \<Rightarrow> out_disk \<Rightarrow> u8 \<Rightarrow> bool \<Rightarrow>
    (message \<Rightarrow> 'c \<Rightarrow> 'c) \<Rightarrow> owned_message schedule \<Rightarrow> owned_message tsqueue \<Rightarrow> 'w \<Rightarrow> 'c \<Rightarrow>
    outcome \<times> 'w recv_state \<times> 'c" where
  "receiver_mainLoop api disk pad opened m_sendcb sch q w c =
     (let s = \<lparr>rs_sched = sch, rs_in = q, rs_ofs = ofs_open opened, rs_world = w\<rparr>
      in if \<not> opened
         then (Returned False, s, m_sendcb (encode FailedReceive (PEmpty (Empty pad))) c)
         else case recv_loop api disk s of (r, s') \<Rightarrow>
           (r, if leaves r then s'\<lparr>rs_ofs := ofs_close disk (rs_ofs s')\<rparr> else s', c))"

section \<open>What the receiver does, message by message\<close>

text \<open>The specification of the receiver: a function of the sequence of messages alone, which also
  says what the file holds. \<open>Blocked\<close> is the end of the sequence.\<close>

fun receive_spec :: "(bytes \<Rightarrow> bytes) \<Rightarrow> bytes \<Rightarrow> message list \<Rightarrow> outcome \<times> bytes" where
  "receive_spec sha out [] = (Blocked, out)"
| "receive_spec sha out (m # ms) =
     (if has_type m Abort then (Returned False, out)
      else if has_type m Chunk then
        (case get_data sha256_digest_length m of
           None \<Rightarrow> (Undef, out)
         | Some (h, m1) \<Rightarrow> if h \<noteq> sha (body m1) then (Returned False, out)
                          else receive_spec sha (out @ body m1) ms)
      else if has_type m FinalChunk then (Returned True, out)
      else receive_spec sha out ms)"

definition disk_ok :: "out_disk \<Rightarrow> bool" where
  "disk_ok disk \<longleftrightarrow> (\<forall>old new. length new \<le> disk_room disk old new)"

text \<open>What has been written to a stream, stored or in its buffer.\<close>

definition ofs_text :: "ofstream \<Rightarrow> bytes" where
  "ofs_text f = ofs_data f @ ofs_buf f"

lemma ofs_open_simps [simp]:
  "ofs_text (ofs_open opened) = []" "ofs_good (ofs_open opened) = opened"
  "ofs_data (ofs_open opened) = []" "ofs_buf (ofs_open opened) = []"
  by (simp_all add: ofs_open_def ofs_text_def)

lemma ofs_write_ok:
  assumes "disk_ok disk" "ofs_good f"
  shows "ofs_good (ofs_write disk d f)" "ofs_text (ofs_write disk d f) = ofs_text f @ d"
proof -
  have "length (ofs_buf f @ d) \<le> disk_room disk (ofs_data f) (ofs_buf f @ d)"
    using assms(1) unfolding disk_ok_def by blast
  then show "ofs_good (ofs_write disk d f)" "ofs_text (ofs_write disk d f) = ofs_text f @ d"
    using assms(2) by (simp_all add: ofs_write_def ofs_out_def ofs_text_def Let_def)
qed

lemma ofs_close_ok:
  assumes "disk_ok disk"
  shows "ofs_data (ofs_close disk f) = ofs_text f" "ofs_buf (ofs_close disk f) = []"
    "ofs_text (ofs_close disk f) = ofs_text f"
  using disk_ok_def[THEN iffD1, OF assms]
  by (simp_all add: ofs_close_def ofs_out_def ofs_text_def Let_def)

fun drain_outcome :: "drain_status \<Rightarrow> outcome" where
  "drain_outcome Again = Blocked"
| "drain_outcome Finished = Returned True"
| "drain_outcome Failed = Returned False"
| "drain_outcome (Threw e) = Exception e"
| "drain_outcome OutOfBounds = Undef"

definition spec_from :: "(bytes \<Rightarrow> bytes) \<Rightarrow> 'w recv_state \<Rightarrow> outcome \<times> bytes" where
  "spec_from sha s = receive_spec sha (ofs_text (rs_ofs s)) (map owned_msg (recv_left s))"

lemma recv_message_spec:
  assumes "hash_works api sha" "disk_ok disk" "ofs_good (rs_ofs s)"
  shows "case recv_message api disk m s of
      (Some st, s') \<Rightarrow> receive_spec sha (ofs_text (rs_ofs s)) (m # ms) =
         (drain_outcome st, ofs_text (rs_ofs s')) \<and> st \<noteq> Again
    | (None, s') \<Rightarrow> receive_spec sha (ofs_text (rs_ofs s)) (m # ms) =
         receive_spec sha (ofs_text (rs_ofs s')) ms \<and> ofs_good (rs_ofs s')"
proof (cases "has_type m Chunk \<and> get_data sha256_digest_length m \<noteq> None")
  case False
  then show ?thesis using assms(3)
    by (cases "get_data sha256_digest_length m") (auto simp: recv_message_def has_type_unique)
next
  case True
  then obtain h m1 where g: "get_data sha256_digest_length m = Some (h, m1)" by auto
  obtain w where "sha256_chunk api (body m1) (rs_world s) = (Inr (sha (body m1)), w)"
    using assms(1) by (rule hash_worksD)
  then show ?thesis using True g assms(2,3)
    by (simp add: recv_message_def ofs_write_ok has_type_unique)
qed

lemma recv_drain_spec:
  assumes "hash_works api sha" "disk_ok disk"
    and "recv_left s = oms" "ofs_good (rs_ofs s)" "recv_drain api disk s = (st, s')"
  shows "(st = Again \<longrightarrow> spec_from sha s = spec_from sha s' \<and> ofs_good (rs_ofs s')) \<and>
    (st \<noteq> Again \<longrightarrow> spec_from sha s = (drain_outcome st, ofs_text (rs_ofs s')))"
  using assms(3-5)
proof (induction oms arbitrary: s)
  case Nil
  then show ?case using recv_drain_Nil[of s api disk] by (auto simp: spec_from_def)
next
  case (Cons om oms)
  from Cons.prems(1) show ?case
  proof (cases rule: recv_drain_Cons[where api = api and disk = disk])
    case (idle s'')
    then show ?thesis using Cons.prems by (simp add: spec_from_def)
  next
    case (handled s1)
    have good: "ofs_good (rs_ofs s1)" using handled(2) Cons.prems(2) by simp
    obtain r s2 where m: "recv_message api disk (owned_msg om) s1 = (r, s2)" by fastforce
    note sp = recv_message_spec[OF assms(1,2) good, of "owned_msg om" "map owned_msg oms", unfolded m]
    have s: "spec_from sha s = receive_spec sha (ofs_text (rs_ofs s1)) (owned_msg om # map owned_msg oms)"
      using Cons.prems(1) handled(2) by (simp add: spec_from_def)
    show ?thesis
    proof (cases r)
      case None
      then have "spec_from sha s = spec_from sha s2" "ofs_good (rs_ofs s2)"
        using sp s handled(1) recv_message_left[OF m] by (simp_all add: spec_from_def)
      then show ?thesis using Cons.IH[of s2] Cons.prems(3) handled m None recv_message_left[OF m]
        by simp
    next
      case (Some st1)
      then show ?thesis using sp s Cons.prems(3) handled(4) m by simp
    qed
  qed
qed

lemma recv_loop_spec:
  assumes "hash_works api sha" "disk_ok disk" "ofs_good (rs_ofs s)"
    and "recv_loop api disk s = (r, s')"
  shows "spec_from sha s = (r, ofs_text (rs_ofs s'))"
  using assms(3,4)
proof (induction "length (recv_left s)" arbitrary: s rule: less_induct)
  case less
  show ?case
  proof (cases "wait_q (rs_sched s) (rs_in s)")
    case None
    then have "recv_left s = []" by (simp add: wait_None_iff recv_left_def)
    then show ?thesis using less.prems None
      by (simp add: spec_from_def recv_loop.simps[of api disk s])
  next
    case (Some p)
    then obtain sch q where w: "wait_q (rs_sched s) (rs_in s) = Some (sch, q)" by (cases p) auto
    let ?s = "s\<lparr>rs_sched := sch, rs_in := q\<rparr>"
    obtain st s1 where d: "recv_drain api disk ?s = (st, s1)" by fastforce
    have e: "spec_from sha ?s = spec_from sha s"
      using pending_wait[OF w] by (simp add: spec_from_def recv_left_def)
    have "ofs_good (rs_ofs ?s)" using less.prems by simp
    note ds = recv_drain_spec[OF assms(1,2) refl this d]
    show ?thesis
    proof (cases "st = Again")
      case True
      then have "recv_loop api disk s1 = (r, s')"
        using less.prems w d by (simp add: recv_loop.simps[of api disk s])
      then show ?thesis using less.hyps[OF recv_loop_decreases[OF w d]] ds e True by simp
    next
      case False
      then show ?thesis using ds e less.prems w d
        by (cases st) (simp_all add: recv_loop.simps[of api disk s])
    qed
  qed
qed

section \<open>ClientSenderSession\<close>

text \<open>The inner loop: \<open>False\<close> (the new \<open>op_result\<close>) when it was left at an \<open>Abort\<close>.\<close>

function sender_drain :: "owned_message schedule \<Rightarrow> owned_message tsqueue \<Rightarrow>
    bool \<times> owned_message schedule \<times> owned_message tsqueue" where
  "sender_drain sch q =
     (case arrive sch q of (sch1, q1) \<Rightarrow>
        case pop_front q1 of
          None \<Rightarrow> (True, sch1, q1)
        | Some (om, q2) \<Rightarrow>
            if has_type (owned_msg om) Abort then (False, sch1, q2) else sender_drain sch1 q2)"
  by pat_completeness auto

termination
  by (relation "measure (\<lambda>(sch, q). length (pending_in sch q))") (auto dest!: pending_pop[OF sym])

declare sender_drain.simps [simp del]

text \<open>A full \<open>Chunk\<close> message: the data with the digest appended.\<close>

definition chunk_message :: "bytes \<Rightarrow> bytes \<Rightarrow> message" where
  "chunk_message d h =
     put_data h (sync_size ((set_id (mt_code Chunk) new_message)\<lparr>body := d\<rparr>))"

record ('w, 'c) send_state =
  ss_sched :: "owned_message schedule"
  ss_in :: "owned_message tsqueue"
  ss_ifs :: ifstream
  ss_world :: 'w
  ss_client :: 'c

text \<open>\<open>alloc\<close> says whether a vector of that many bytes can be allocated; its constructor throws
  otherwise.\<close>

function send_loop :: "'w evp_api \<Rightarrow> (u64 \<Rightarrow> bool) \<Rightarrow> (message \<Rightarrow> 'c \<Rightarrow> bool \<times> 'c) \<Rightarrow> u64 \<Rightarrow>
    ('w, 'c) send_state \<Rightarrow> outcome \<times> ('w, 'c) send_state" where
  "send_loop api alloc m_sendcb m_max_chunk_size s =
     (if \<not> ifs_good (ss_ifs s) then (Returned True, s)
      else case sender_drain (ss_sched s) (ss_in s) of (op_result, sch, q) \<Rightarrow>
        let s = s\<lparr>ss_sched := sch, ss_in := q\<rparr>
        in if \<not> op_result then (Returned False, s)
           else if \<not> alloc m_max_chunk_size then (Exception ''std::vector'', s)
           else case ifs_read (unat m_max_chunk_size) (ss_ifs s) of (d, ifs) \<Rightarrow>
             let s = s\<lparr>ss_ifs := ifs\<rparr>
             in if length d > 0 then
                  (case sha256_chunk api d (ss_world s) of
                     (Inl e, w) \<Rightarrow> (Exception e, s\<lparr>ss_world := w\<rparr>)
                   | (Inr h, w) \<Rightarrow>
                       (case m_sendcb (chunk_message d h) (ss_client s) of (ok, c) \<Rightarrow>
                          let s = s\<lparr>ss_world := w, ss_client := c\<rparr>
                          in if \<not> ok then (Returned False, s)
                             else send_loop api alloc m_sendcb m_max_chunk_size s))
                else (Returned True, s))"
  by pat_completeness auto

termination
  by (relation "measure (\<lambda>(_, _, _, _, s). length (ifs_rest (ss_ifs s)))")
    (auto simp: ifs_read_def Let_def)

declare send_loop.simps [simp del]

text \<open>\<open>mainLoop\<close>: an exception skips the \<open>FinalChunk\<close>, everything else sends it; its result is
  ignored.\<close>

definition sender_mainLoop :: "'w evp_api \<Rightarrow> (u64 \<Rightarrow> bool) \<Rightarrow> u8 \<Rightarrow> fs_file \<Rightarrow> u64 \<Rightarrow>
    (message \<Rightarrow> 'c \<Rightarrow> bool \<times> 'c) \<Rightarrow> owned_message schedule \<Rightarrow> owned_message tsqueue \<Rightarrow> 'w \<Rightarrow> 'c \<Rightarrow>
    outcome \<times> ('w, 'c) send_state" where
  "sender_mainLoop api alloc pad m_file m_max_chunk_size m_sendcb sch q w c =
     (let s = \<lparr>ss_sched = sch, ss_in = q, ss_ifs = open_ifs m_file, ss_world = w, ss_client = c\<rparr>
      in if m_file = Inaccessible then (Exception ''filesystem_error'', s)
         else if m_file = Missing then (Returned False, s)
         else case send_loop api alloc m_sendcb m_max_chunk_size s of
           (Returned b, s) \<Rightarrow> (Returned b, s\<lparr>ss_client :=
              snd (m_sendcb (encode FinalChunk (PEmpty (Empty pad))) (ss_client s))\<rparr>)
         | (r, s) \<Rightarrow> (r, s))"

section \<open>What the sender sends\<close>

function split_chunks :: "nat \<Rightarrow> bytes \<Rightarrow> bytes list" where
  "split_chunks n bs = (if n = 0 \<or> bs = [] then [] else take n bs # split_chunks n (drop n bs))"
  by pat_completeness auto
termination by (relation "measure (\<lambda>(_, bs). length bs)") auto

declare split_chunks.simps [simp del]

lemma split_chunks_simps [simp]:
  "split_chunks n [] = []" "split_chunks 0 bs = []"
  "0 < n \<Longrightarrow> bs \<noteq> [] \<Longrightarrow> split_chunks n bs = take n bs # split_chunks n (drop n bs)"
  by (simp_all add: split_chunks.simps)

lemma concat_split_chunks: "0 < n \<Longrightarrow> concat (split_chunks n bs) = bs"
  by (induction n bs rule: split_chunks.induct) (subst split_chunks.simps, auto)

lemma split_chunks_bounds: "d \<in> set (split_chunks n bs) \<Longrightarrow> d \<noteq> [] \<and> length d \<le> n"
  by (induction n bs rule: split_chunks.induct)
    (subst (asm) (2) split_chunks.simps, auto split: if_splits)

definition chunk_messages :: "(bytes \<Rightarrow> bytes) \<Rightarrow> u64 \<Rightarrow> bytes \<Rightarrow> message list" where
  "chunk_messages sha n bs = map (\<lambda>d. chunk_message d (sha d)) (split_chunks (unat n) bs)"

text \<open>The callback run on a list of messages.\<close>

definition send_all :: "(message \<Rightarrow> 'c \<Rightarrow> bool \<times> 'c) \<Rightarrow> message list \<Rightarrow> 'c \<Rightarrow> 'c" where
  "send_all cb ms c = fold (\<lambda>m c. snd (cb m c)) ms c"

lemma send_all_simps [simp]:
  "send_all cb [] c = c" "send_all cb (m # ms) c = send_all cb ms (snd (cb m c))"
  "send_all cb (ms @ ms') c = send_all cb ms' (send_all cb ms c)"
  by (simp_all add: send_all_def)

definition no_abort :: "owned_message list \<Rightarrow> bool" where
  "no_abort oms \<longleftrightarrow> (\<forall>om \<in> set oms. \<not> has_type (owned_msg om) Abort)"

lemma sender_drain_no_abort:
  assumes "sender_drain sch q = (ok, sch', q')" and "no_abort (pending_in sch q)"
  shows "ok \<and> no_abort (pending_in sch' q')"
  using assms
proof (induction sch q rule: sender_drain.induct)
  case (1 sch q)
  obtain sch1 q1 where a: "arrive sch q = (sch1, q1)" by fastforce
  show ?case
  proof (cases "pop_front q1")
    case None
    then show ?thesis using 1(2,3) pending_arrive[OF a] a
      by (auto simp: sender_drain.simps[of sch q])
  next
    case (Some p)
    obtain om q2 where p: "p = (om, q2)" by fastforce
    have l: "pending_in sch q = om # pending_in sch1 q2"
      using pending_pop[OF a Some[unfolded p]] .
    then have na: "\<not> has_type (owned_msg om) Abort" "no_abort (pending_in sch1 q2)"
      using 1(3) by (simp_all add: no_abort_def)
    then have "sender_drain sch1 q2 = (ok, sch', q')"
      using 1(2) a Some p by (simp add: sender_drain.simps[of sch q])
    with 1(1)[OF a[symmetric] Some p[symmetric] na(1)] na(2) show ?thesis by simp
  qed
qed

text \<open>The sender's loops take messages from the front of what arrives.\<close>

lemma no_abort_simps [simp]:
  "no_abort []" "no_abort (om # oms) \<longleftrightarrow> \<not> has_type (owned_msg om) Abort \<and> no_abort oms"
  "no_abort (oms @ oms') \<longleftrightarrow> no_abort oms \<and> no_abort oms'"
  by (auto simp: no_abort_def)

lemma sender_drain_suffix:
  "sender_drain sch q = (ok, sch', q') \<Longrightarrow>
     \<exists>p. pending_in sch q = p @ pending_in sch' q' \<and> (ok \<longrightarrow> no_abort p)"
proof (induction sch q rule: sender_drain.induct)
  case (1 sch q)
  obtain sch1 q1 where a: "arrive sch q = (sch1, q1)" by fastforce
  show ?case
  proof (cases "pop_front q1")
    case None
    then have "(True, sch1, q1) = (ok, sch', q')" using 1(2) by (simp add: sender_drain.simps[of sch q] a)
    then show ?thesis using pending_arrive[OF a] by auto
  next
    case (Some p)
    obtain om q2 where p: "p = (om, q2)" by fastforce
    have l: "pending_in sch q = om # pending_in sch1 q2" using pending_pop[OF a Some[unfolded p]] .
    show ?thesis
    proof (cases "has_type (owned_msg om) Abort")
      case True
      then have "(False, sch1, q2) = (ok, sch', q')"
        using 1(2) Some p by (simp add: sender_drain.simps[of sch q] a)
      then show ?thesis using l by (intro exI[of _ "[om]"]) auto
    next
      case False
      then have "sender_drain sch1 q2 = (ok, sch', q')"
        using 1(2) Some p by (simp add: sender_drain.simps[of sch q] a)
      from 1(1)[OF a[symmetric] Some p[symmetric] False this] obtain p' where
        "pending_in sch1 q2 = p' @ pending_in sch' q'" "ok \<longrightarrow> no_abort p'" by blast
      then show ?thesis using l False by (intro exI[of _ "om # p'"]) simp
    qed
  qed
qed

lemma send_loop_suffix:
  "send_loop api alloc cb k s = (r, s') \<Longrightarrow>
     \<exists>p. pending_in (ss_sched s) (ss_in s) = p @ pending_in (ss_sched s') (ss_in s') \<and>
       (r = Returned True \<longrightarrow> no_abort p)"
proof (induction "length (ifs_rest (ss_ifs s))" arbitrary: s rule: less_induct)
  case less
  note loop = less.prems[unfolded send_loop.simps[of api alloc cb k s]]
  obtain ok sch q where d: "sender_drain (ss_sched s) (ss_in s) = (ok, sch, q)"
    by (metis prod.exhaust)
  from sender_drain_suffix[OF d] obtain p where
    p: "pending_in (ss_sched s) (ss_in s) = p @ pending_in sch q" "ok \<longrightarrow> no_abort p"
    by blast
  have "s' = s \<or> ss_sched s' = sch \<and> ss_in s' = q \<and> (r = Returned True \<longrightarrow> ok) \<or>
    (ok \<and> (\<exists>s1. send_loop api alloc cb k s1 = (r, s') \<and> ss_sched s1 = sch \<and> ss_in s1 = q \<and>
      length (ifs_rest (ss_ifs s1)) < length (ifs_rest (ss_ifs s))))"
    using loop d by (auto simp: Let_def ifs_read_def split: if_splits prod.splits sum.splits)
  then show ?case
  proof (elim disjE exE conjE)
    fix s1
    assume ok: "ok" and "send_loop api alloc cb k s1 = (r, s')" "ss_sched s1 = sch" "ss_in s1 = q"
      "length (ifs_rest (ss_ifs s1)) < length (ifs_rest (ss_ifs s))"
    with less.hyps[of s1] obtain p' where
      "pending_in sch q = p' @ pending_in (ss_sched s') (ss_in s')" "r = Returned True \<longrightarrow> no_abort p'"
      by auto
    then show ?thesis using p ok by (intro exI[of _ "p @ p'"]) simp
  qed (use p in \<open>auto intro: exI[of _ "[]"]\<close>)
qed

lemma sender_mainLoop_suffix:
  assumes "sender_mainLoop api alloc pad f k cb sch q w c = (r, s)"
  shows "\<exists>p. pending_in sch q = p @ pending_in (ss_sched s) (ss_in s) \<and> (r = Returned True \<longrightarrow> no_abort p)"
proof -
  let ?s = "\<lparr>ss_sched = sch, ss_in = q, ss_ifs = open_ifs f, ss_world = w, ss_client = c\<rparr>"
  obtain r1 s1 where l: "send_loop api alloc cb k ?s = (r1, s1)" by fastforce
  have "ss_sched s = sch \<and> ss_in s = q \<or> ss_sched s = ss_sched s1 \<and> ss_in s = ss_in s1 \<and> r1 = r"
    using assms l
    by (cases "f = Missing"; cases "f = Inaccessible"; cases r1) (auto simp: sender_mainLoop_def Let_def)
  then show ?thesis using send_loop_suffix[OF l] by (auto intro: exI[of _ "[]"])
qed

text \<open>What a stream still delivers.\<close>

definition avail :: "ifstream \<Rightarrow> bytes" where
  "avail f = (if ifs_good f then ifs_rest f else [])"

lemma ifs_read_avail:
  assumes "ifs_read n f = (d, f')"
  shows "d = take n (avail f)" and "avail f' = drop n (avail f)"
  using assms by (auto simp: ifs_read_def avail_def split: if_splits)

text \<open>The callback accepts each of the messages.\<close>

fun accepts :: "(message \<Rightarrow> 'c \<Rightarrow> bool \<times> 'c) \<Rightarrow> message list \<Rightarrow> 'c \<Rightarrow> bool" where
  "accepts cb [] c \<longleftrightarrow> True"
| "accepts cb (m # ms) c \<longleftrightarrow> fst (cb m c) \<and> accepts cb ms (snd (cb m c))"

text \<open>The messages the loop hands to the callback are a prefix of the file's chunks, all of them
  when it ends with success, which it does unless the callback refuses or an \<open>Abort\<close> arrives.\<close>

definition sends_prefix :: "(message \<Rightarrow> 'c \<Rightarrow> bool \<times> 'c) \<Rightarrow> message list \<Rightarrow> bool \<Rightarrow> 'c \<Rightarrow> 'c \<Rightarrow> bool" where
  "sends_prefix cb ms b c c' \<longleftrightarrow>
     (\<exists>n \<le> length ms. c' = send_all cb (take n ms) c \<and> (b \<longrightarrow> n = length ms \<and> accepts cb ms c))"

lemma sends_prefix_simps [simp]: "sends_prefix cb [] True c c" "sends_prefix cb ms False c c"
  by (auto simp: sends_prefix_def intro: exI[of _ 0])

lemma sends_prefix_refused: "sends_prefix cb (m # ms) False c (snd (cb m c))"
  by (auto simp: sends_prefix_def intro!: exI[of _ 1])

lemma sends_prefix_Cons:
  assumes "sends_prefix cb ms b (snd (cb m c)) c'" and "fst (cb m c)"
  shows "sends_prefix cb (m # ms) b c c'"
proof -
  from assms obtain n where "n \<le> length ms" "c' = send_all cb (take n ms) (snd (cb m c))"
      "b \<longrightarrow> n = length ms \<and> accepts cb ms (snd (cb m c))"
    by (auto simp: sends_prefix_def)
  then show ?thesis using assms(2) by (auto simp: sends_prefix_def intro!: exI[of _ "Suc n"])
qed

lemma send_loop_prefix:
  assumes "hash_works api sha" "alloc k" "send_loop api alloc cb k s = (r, s')"
  shows "\<exists>b. r = Returned b \<and>
    sends_prefix cb (chunk_messages sha k (avail (ss_ifs s))) b (ss_client s) (ss_client s') \<and>
    ((\<forall>m c. fst (cb m c)) \<longrightarrow> no_abort (pending_in (ss_sched s) (ss_in s)) \<longrightarrow> b)"
  using assms(3)
proof (induction "length (avail (ss_ifs s))" arbitrary: s rule: less_induct)
  case less
  note loop = less.prems[unfolded send_loop.simps[of api alloc cb k s]]
  show ?case
  proof (cases "ifs_good (ss_ifs s)")
    case False
    then have "r = Returned True" "s' = s" using loop by simp_all
    moreover have "chunk_messages sha k (avail (ss_ifs s)) = []"
      using False by (simp add: avail_def chunk_messages_def)
    ultimately show ?thesis by (intro exI[of _ True]) simp
  next
    case good: True
    obtain ok sch q where d: "sender_drain (ss_sched s) (ss_in s) = (ok, sch, q)"
      by (metis prod.exhaust)
    obtain bs f where rd: "ifs_read (unat k) (ss_ifs s) = (bs, f)" by fastforce
    note av = ifs_read_avail[OF rd]
    consider "\<not> ok" | "ok" "bs = []" | "ok" "bs \<noteq> []" by blast
    then show ?thesis
    proof cases
      case 1
      then have "r = Returned False" "ss_client s' = ss_client s" using loop good d by auto
      moreover have "\<not> no_abort (pending_in (ss_sched s) (ss_in s))"
        using 1 sender_drain_no_abort[OF d] by blast
      ultimately show ?thesis by (intro exI[of _ False]) simp
    next
      case 2
      then have "split_chunks (unat k) (avail (ss_ifs s)) = []"
        using av(1) by (auto simp: split_chunks.simps[of "unat k"])
      then have "chunk_messages sha k (avail (ss_ifs s)) = []" by (simp add: chunk_messages_def)
      moreover have "r = Returned True" "ss_client s' = ss_client s"
        using loop good d rd 2 assms(2) by auto
      ultimately show ?thesis by (intro exI[of _ True]) simp
    next
      case 3
      then have "0 < unat k" "avail (ss_ifs s) \<noteq> []" using av(1) by (auto intro: gr0I)
      then have split: "chunk_messages sha k (avail (ss_ifs s)) =
          chunk_message bs (sha bs) # chunk_messages sha k (avail f)"
        and less': "length (avail f) < length (avail (ss_ifs s))"
        using av by (auto simp: chunk_messages_def)
      obtain w where w: "sha256_chunk api bs (ss_world s) = (Inr (sha bs), w)"
        using assms(1) by (rule hash_worksD)
      obtain sent c where c: "cb (chunk_message bs (sha bs)) (ss_client s) = (sent, c)" by fastforce
      let ?s = "s\<lparr>ss_sched := sch, ss_in := q, ss_ifs := f, ss_world := w, ss_client := c\<rparr>"
      show ?thesis
      proof (cases sent)
        case False
        then have "r = Returned False" "ss_client s' = c"
          using loop good d rd 3 assms(2) w c by auto
        moreover have "sends_prefix cb (chunk_messages sha k (avail (ss_ifs s))) False (ss_client s) c"
          using sends_prefix_refused[of cb _ _ "ss_client s"] c by (metis split snd_conv)
        moreover have "\<not> (\<forall>m c. fst (cb m c))" using c False by (metis fst_conv)
        ultimately show ?thesis by (intro exI[of _ False]) auto
      next
        case True
        then have "send_loop api alloc cb k ?s = (r, s')"
          using loop good d rd 3 assms(2) w c by simp
        from less.hyps[OF _ this] less' obtain b where "r = Returned b"
          and p: "sends_prefix cb (chunk_messages sha k (avail f)) b c (ss_client s')"
          and l: "(\<forall>m c. fst (cb m c)) \<longrightarrow> no_abort (pending_in sch q) \<longrightarrow> b"
          by auto
        moreover have "sends_prefix cb (chunk_messages sha k (avail (ss_ifs s))) b (ss_client s) (ss_client s')"
          using p sends_prefix_Cons[of cb _ b "chunk_message bs (sha bs)" "ss_client s"] c True
          by (simp add: split)
        ultimately show ?thesis using sender_drain_no_abort[OF d] by blast
      qed
    qed
  qed
qed

definition file_bytes :: "fs_file \<Rightarrow> bytes" where
  "file_bytes f = (case f of Readable bs \<Rightarrow> bs | _ \<Rightarrow> [])"

lemma avail_open_ifs [simp]: "avail (open_ifs f) = file_bytes f"
  by (cases f) (simp_all add: avail_def open_ifs_def file_bytes_def)

section \<open>The sessions of the server\<close>

datatype ServerSession =
  ServerOneToOneRetranslatorSession (sess_file_size: u64) (sess_max_chunk_size: u32) (m_sink: nat)
  | ServerSaveFileSession EPayloadType

text \<open>\<open>make_unique<ServerOneToOneRetranslatorSession>\<close>: the chunk size is narrowed to 32 bits.\<close>

definition new_retranslator :: "u64 \<Rightarrow> u64 \<Rightarrow> nat \<Rightarrow> ServerSession" where
  "new_retranslator fsize max_chunk sink = ServerOneToOneRetranslatorSession fsize (ucast max_chunk) sink"

definition new_save_file :: "EPayloadType \<Rightarrow> bool \<Rightarrow> string + ServerSession" where
  "new_save_file pt opened = (if opened then Inr (ServerSaveFileSession pt) else Inl ''Could not open file'')"

fun session_onMessage :: "message \<Rightarrow> ServerSession \<Rightarrow> heap \<Rightarrow> bool \<times> heap" where
  "session_onMessage msg (ServerOneToOneRetranslatorSession _ _ sink) h =
     (if has_type msg Chunk \<or> has_type msg FinalChunk \<or> has_type msg Abort
      then (case send_to sink msg h of (ok, h') \<Rightarrow> if \<not> ok then (False, h') else (True, h'))
      else (False, h))"
| "session_onMessage msg (ServerSaveFileSession _) h = (True, h)"

section \<open>Valid chunks\<close>

definition payload_of :: "message \<Rightarrow> bytes" where
  "payload_of m = take (length (body m) - sha256_digest_length) (body m)"

definition valid_chunk :: "(bytes \<Rightarrow> bytes) \<Rightarrow> message \<Rightarrow> bool" where
  "valid_chunk sha m \<longleftrightarrow> sha256_digest_length \<le> length (body m) \<and>
     drop (length (body m) - sha256_digest_length) (body m) = sha (payload_of m)"

definition chunks_of :: "message list \<Rightarrow> message list" where
  "chunks_of ms = filter (\<lambda>m. has_type m Chunk) ms"

lemma get_data_chunk:
  "get_data sha256_digest_length m = (if length (body m) < sha256_digest_length then None
     else Some (drop (length (body m) - sha256_digest_length) (body m),
                sync_size (m\<lparr>body := payload_of m\<rparr>)))"
  by (simp add: get_data_def payload_of_def Let_def)

text \<open>Before the first message that ends the loop, the receiver appends the payload of each chunk.\<close>

definition harmless :: "(bytes \<Rightarrow> bytes) \<Rightarrow> message \<Rightarrow> bool" where
  "harmless sha m \<longleftrightarrow> \<not> has_type m Abort \<and> \<not> has_type m FinalChunk \<and>
     (has_type m Chunk \<longrightarrow> valid_chunk sha m)"

lemma receive_spec_harmless:
  "\<forall>m \<in> set ms. harmless sha m \<Longrightarrow>
     receive_spec sha out (ms @ ms') = receive_spec sha (out @ concat (map payload_of (chunks_of ms))) ms'"
  by (induction ms arbitrary: out)
    (auto simp: harmless_def valid_chunk_def get_data_chunk chunks_of_def)

lemma receive_spec_Returned:
  assumes "receive_spec sha out ms = (Returned b, out')"
  obtains pre m post where "ms = pre @ m # post" "\<forall>m \<in> set pre. harmless sha m"
    "out' = out @ concat (map payload_of (chunks_of pre))"
    "b \<longleftrightarrow> has_type m FinalChunk" "\<not> harmless sha m"
proof -
  have "\<exists>pre m post. ms = pre @ m # post \<and> (\<forall>m \<in> set pre. harmless sha m) \<and>
      out' = out @ concat (map payload_of (chunks_of pre)) \<and> (b \<longleftrightarrow> has_type m FinalChunk) \<and>
      \<not> harmless sha m"
    using assms
  proof (induction ms arbitrary: out)
    case Nil
    then show ?case by simp
  next
    case (Cons m ms)
    show ?case
    proof (cases "harmless sha m")
      case True
      then have "receive_spec sha (out @ concat (map payload_of (chunks_of [m]))) ms = (Returned b, out')"
        using Cons.prems receive_spec_harmless[of "[m]" sha out ms] by simp
      from Cons.IH[OF this] obtain pre m' post where "ms = pre @ m' # post"
        "\<forall>m \<in> set pre. harmless sha m" "b \<longleftrightarrow> has_type m' FinalChunk" "\<not> harmless sha m'"
        "out' = out @ concat (map payload_of (chunks_of [m])) @ concat (map payload_of (chunks_of pre))"
        by auto
      then show ?thesis using True
        by (intro exI[of _ "m # pre"] exI[of _ m'] exI[of _ post]) (simp add: chunks_of_def)
    next
      case False
      then have "out' = out \<and> (b \<longleftrightarrow> has_type m FinalChunk)"
        using Cons.prems
        by (auto simp: harmless_def valid_chunk_def get_data_chunk has_type_unique split: if_splits)
      then show ?thesis using False
        by (intro exI[of _ "[]"] exI[of _ m] exI[of _ ms]) (simp add: chunks_of_def)
    qed
  qed
  then show ?thesis using that by blast
qed

text \<open>What the sender produces is valid.\<close>

lemma chunk_message_simps [simp]:
  "body (chunk_message d h) = d @ h" "has_type (chunk_message d h) M \<longleftrightarrow> M = Chunk"
  "sized (chunk_message d h)"
  using mt_code_inject[of Chunk M] by (auto simp: chunk_message_def has_type_def simp del: mt_code_inject)

lemma harmless_chunk_message:
  assumes "length (sha d) = sha256_digest_length"
  shows "harmless sha (chunk_message d (sha d))" and "payload_of (chunk_message d (sha d)) = d"
  using assms by (simp_all add: harmless_def valid_chunk_def payload_of_def)

lemma receive_spec_chunk_messages:
  assumes "\<forall>d. length (sha d) = sha256_digest_length" "0 < unat k" "has_type m FinalChunk"
  shows "receive_spec sha [] (chunk_messages sha k bs @ m # ms) = (Returned True, bs)"
proof -
  have "chunks_of (chunk_messages sha k bs) = chunk_messages sha k bs"
    by (auto simp: chunks_of_def chunk_messages_def filter_id_conv)
  moreover have "map payload_of (chunk_messages sha k bs) = split_chunks (unat k) bs"
    using assms(1) by (simp add: chunk_messages_def o_def harmless_chunk_message)
  moreover have "\<forall>m \<in> set (chunk_messages sha k bs). harmless sha m"
    using assms(1) by (auto simp: chunk_messages_def harmless_chunk_message)
  ultimately show ?thesis
    using assms(2,3) by (simp add: receive_spec_harmless concat_split_chunks has_type_unique)
qed

text \<open>\<open>out\<close> is the file that the messages before the first \<open>FinalChunk\<close> of \<open>ms\<close> describe, with
  every digest right and no \<open>Abort\<close> among them.\<close>

definition complete_file :: "(bytes \<Rightarrow> bytes) \<Rightarrow> message list \<Rightarrow> bytes \<Rightarrow> bool" where
  "complete_file sha ms out \<longleftrightarrow>
     (\<exists>pre m post. ms = pre @ m # post \<and> has_type m FinalChunk \<and>
        (\<forall>m' \<in> set pre. \<not> has_type m' Abort \<and> \<not> has_type m' FinalChunk) \<and>
        (\<forall>m' \<in> set (chunks_of pre). valid_chunk sha m') \<and>
        out = concat (map payload_of (chunks_of pre)))"

text \<open>The main loop over an opened file.\<close>

lemma receiver_mainLoop_spec:
  assumes "hash_works api sha" and "disk_ok disk"
    and "receiver_mainLoop api disk pad True cb sch q w c = (r, s', c')"
  shows "receive_spec sha [] (map owned_msg (pending_in sch q)) = (r, ofs_text (rs_ofs s'))"
    and "leaves r \<Longrightarrow> ofs_buf (rs_ofs s') = []" and "c' = c"
proof -
  let ?s = "\<lparr>rs_sched = sch, rs_in = q, rs_ofs = ofs_open True, rs_world = w\<rparr>"
  obtain s1 where l: "recv_loop api disk ?s = (r, s1)" and c: "c' = c"
    and s': "s' = (if leaves r then s1\<lparr>rs_ofs := ofs_close disk (rs_ofs s1)\<rparr> else s1)"
    using assms(3) by (auto simp: receiver_mainLoop_def split: prod.splits)
  show "receive_spec sha [] (map owned_msg (pending_in sch q)) = (r, ofs_text (rs_ofs s'))"
    using recv_loop_spec[OF assms(1,2) _ l] s' by (simp add: spec_from_def recv_left_def ofs_close_ok[OF assms(2)])
  show "ofs_buf (rs_ofs s') = []" if "leaves r" using that s' by (simp add: ofs_close_ok[OF assms(2)])
  show "c' = c" by (rule c)
qed

lemma receiver_mainLoop_Returned:
  assumes "hash_works api sha" and "disk_ok disk"
    and "receiver_mainLoop api disk pad True cb sch q w c = (Returned b, s', c')"
  shows "receive_spec sha [] (map owned_msg (pending_in sch q)) = (Returned b, ofs_data (rs_ofs s'))"
  using receiver_mainLoop_spec[OF assms] by (simp add: ofs_text_def)

lemma receiver_mainLoop_not_opened:
  "receiver_mainLoop api disk pad False cb sch q w c =
     (Returned False, \<lparr>rs_sched = sch, rs_in = q, rs_ofs = ofs_open False, rs_world = w\<rparr>,
      cb (encode FailedReceive (PEmpty (Empty pad))) c)"
  by (simp add: receiver_mainLoop_def)

lemma receiver_mainLoop_True:
  assumes "hash_works api sha" and "disk_ok disk"
    and "receiver_mainLoop api disk pad opened cb sch q w c = (Returned True, s', c')"
  shows "c' = c \<and> complete_file sha (map owned_msg (pending_in sch q)) (ofs_data (rs_ofs s'))"
proof -
  have o: opened using assms(3) by (cases opened) (simp_all add: receiver_mainLoop_not_opened)
  note m = assms(3)[unfolded eqTrueI[OF o]]
  from receiver_mainLoop_Returned[OF assms(1,2) m]
  obtain pre m post where "map owned_msg (pending_in sch q) = pre @ m # post"
    "\<forall>m \<in> set pre. harmless sha m" "ofs_data (rs_ofs s') = [] @ concat (map payload_of (chunks_of pre))"
    "True \<longleftrightarrow> has_type m FinalChunk" "\<not> harmless sha m"
    by (rule receive_spec_Returned)
  then show ?thesis unfolding complete_file_def
    by (intro conjI receiver_mainLoop_spec(3)[OF assms(1,2) m] exI[of _ pre] exI[of _ m] exI[of _ post])
      (auto simp: harmless_def chunks_of_def)
qed

section \<open>Properties\<close>

text \<open>C7: The receiver refines its specification. When hashing and the disk work, how
  \<open>ClientReceiverSession::mainLoop\<close> ends and what it has written depend only on the sequence of
  messages that arrive, not on how they interleave with the loop nor on when the stream writes its
  buffer out, and are what the message-by-message specification says; and once the loop has ended by
  returning, nothing of it is left in the buffer.\<close>

theorem receiver_refines_spec:
  assumes "hash_works api sha" and "disk_ok disk"
    and "receiver_mainLoop api disk pad True cb sch q w c = (r, s', c')"
  shows "receive_spec sha [] (map owned_msg (m_deq q @ concat sch)) =
      (r, ofs_data (rs_ofs s') @ ofs_buf (rs_ofs s')) \<and>
    ((\<exists>b. r = Returned b) \<longrightarrow> ofs_buf (rs_ofs s') = [])"
  using receiver_mainLoop_spec[OF assms] by (auto simp: pending_in_def ofs_text_def)

definition incoming_msg :: "message \<Rightarrow> owned_message" where
  "incoming_msg m = \<lparr>remote = None, owned_msg = m\<rparr>"

definition final_message :: message where
  "final_message = encode FinalChunk (PEmpty (Empty 0))"

text \<open>A disk that takes everything, behind a buffer of three bytes.\<close>

definition all_disk :: out_disk where
  "all_disk = \<lparr>disk_room = \<lambda>_ new. length new, disk_keeps = \<lambda>buf d. length buf + length d \<le> 3\<rparr>"

lemma disk_ok_all_disk [simp]: "disk_ok all_disk"
  by (simp add: disk_ok_def all_disk_def)

text \<open>A receiver run in which one chunk arrives in the first batch and the end in the second.\<close>

definition demo_receive :: "bytes \<Rightarrow> outcome \<times> evp_world recv_state \<times> unit" where
  "demo_receive h = receiver_mainLoop (demo_api True) all_disk 0 True (\<lambda>_ c. c)
     [[incoming_msg (chunk_message [1, 2] h)], [incoming_msg final_message]] new_queue (demo_world 0) ()"

lemma demo_receive_runs:
  "demo_receive (demo_digest [1, 2]) = (fst (demo_receive (demo_digest [1, 2])),
     fst (snd (demo_receive (demo_digest [1, 2]))), snd (snd (demo_receive (demo_digest [1, 2]))))"
  by (simp only: prod.collapse)

theorem receiver_refines_spec_witness:
  "receive_spec demo_digest [] [chunk_message [1, 2] (demo_digest [1, 2]), final_message] =
     (fst (demo_receive (demo_digest [1, 2])),
      ofs_data (rs_ofs (fst (snd (demo_receive (demo_digest [1, 2]))))) @
      ofs_buf (rs_ofs (fst (snd (demo_receive (demo_digest [1, 2]))))))"
  using receiver_refines_spec[OF demo_hash_works disk_ok_all_disk
      demo_receive_runs[unfolded demo_receive_def]]
  by (simp add: demo_receive_def incoming_msg_def)

text \<open>C8: What the receiver's result means, when hashing works and the disk takes every write. Success: the
  file was opened and is intact, every \<open>Chunk\<close> that arrived before the first \<open>FinalChunk\<close> carried the
  digest of its payload, no \<open>Abort\<close> came, and the file on the disk is the concatenation of those payloads
  in order. Failure: the file could not be opened, and \<open>FailedReceive\<close> was sent, or the receiver
  stopped at the first \<open>Abort\<close> or the first chunk whose digest is wrong, and has stored exactly what came
  before, and sent nothing.\<close>

theorem receiver_result_meaning:
  assumes "hash_works api sha" and "disk_ok disk"
    and "receiver_mainLoop api disk pad opened cb sch q w c = (Returned b, s', c')"
  shows "if \<not> opened
    then \<not> b \<and> ofs_data (rs_ofs s') = [] \<and> c' = cb (encode FailedReceive (PEmpty (Empty pad))) c
    else c' = c \<and> (\<exists>pre m post. map owned_msg (m_deq q @ concat sch) = pre @ m # post \<and>
      (\<forall>m' \<in> set pre. \<not> has_type m' Abort \<and> \<not> has_type m' FinalChunk) \<and>
      (\<forall>m' \<in> set (chunks_of pre). valid_chunk sha m') \<and>
      ofs_data (rs_ofs s') = concat (map payload_of (chunks_of pre)) \<and>
      (if b then has_type m FinalChunk
       else has_type m Abort \<or> has_type m Chunk \<and> \<not> valid_chunk sha m))"
proof (cases opened)
  case False
  then show ?thesis using assms(3) by (auto simp: receiver_mainLoop_not_opened)
next
  case True
  note m = assms(3)[unfolded eqTrueI[OF True]]
  from receiver_mainLoop_Returned[OF assms(1,2) m]
  obtain pre m post where "map owned_msg (m_deq q @ concat sch) = pre @ m # post"
    "\<forall>m \<in> set pre. harmless sha m" "ofs_data (rs_ofs s') = [] @ concat (map payload_of (chunks_of pre))"
    "b \<longleftrightarrow> has_type m FinalChunk" "\<not> harmless sha m"
    unfolding pending_in_def by (rule receive_spec_Returned)
  then have "\<exists>pre m post. map owned_msg (m_deq q @ concat sch) = pre @ m # post \<and>
      (\<forall>m' \<in> set pre. \<not> has_type m' Abort \<and> \<not> has_type m' FinalChunk) \<and>
      (\<forall>m' \<in> set (chunks_of pre). valid_chunk sha m') \<and>
      ofs_data (rs_ofs s') = concat (map payload_of (chunks_of pre)) \<and>
      (if b then has_type m FinalChunk
       else has_type m Abort \<or> has_type m Chunk \<and> \<not> valid_chunk sha m)"
    by (intro exI[of _ pre] exI[of _ m] exI[of _ post]) (auto simp: harmless_def chunks_of_def)
  then show ?thesis using True receiver_mainLoop_spec(3)[OF assms(1,2) m] by simp
qed

lemma demo_receive_tampered:
  "demo_receive (replicate 32 0) = (Returned False, fst (snd (demo_receive (replicate 32 0))), ())"
  by code_simp

theorem receiver_result_meaning_witness:
  "\<exists>pre m post. [chunk_message [1, 2] (replicate 32 0), final_message] = pre @ m # post \<and>
    ofs_data (rs_ofs (fst (snd (demo_receive (replicate 32 0))))) = concat (map payload_of (chunks_of pre))"
  using receiver_result_meaning[OF demo_hash_works disk_ok_all_disk
      demo_receive_tampered[unfolded demo_receive_def]]
  by (simp add: demo_receive_def incoming_msg_def) blast


text \<open>A callback that records the messages and accepts the first \<open>n\<close>.\<close>

definition record_cb :: "nat \<Rightarrow> message \<Rightarrow> message list \<Rightarrow> bool \<times> message list" where
  "record_cb n m log = (length log < n, log @ [m])"

definition demo_send :: "outcome \<times> (evp_world, message list) send_state" where
  "demo_send = sender_mainLoop (demo_api True) (\<lambda>_. True) 0 (Readable [1, 2, 3]) 2 (record_cb 1)
     [] new_queue (demo_world 0) []"

lemma demo_send_runs: "demo_send = (fst demo_send, snd demo_send)"
  by (simp only: prod.collapse)


text \<open>The sender reports success without sending anything of the file when the file exists but
  cannot be read, and when the chunk size is zero: the only message is the \<open>FinalChunk\<close>, so the
  receiver saves an empty file as complete.\<close>

theorem sender_silent_loss:
  assumes "m_file = Unreadable \<or> m_file = Readable bs \<and> k = 0" and "alloc k"
    and "no_abort (m_deq q @ concat sch)"
    and "sender_mainLoop api alloc pad m_file k cb sch q w c = (r, s')"
  shows "r = Returned True \<and> ss_client s' = snd (cb (encode FinalChunk (PEmpty (Empty pad))) c)"
proof -
  let ?s = "\<lparr>ss_sched = sch, ss_in = q, ss_ifs = open_ifs m_file, ss_world = w, ss_client = c\<rparr>"
  obtain ok sch1 q1 where d: "sender_drain sch q = (ok, sch1, q1)" by (metis prod.exhaust)
  have ok: "ok" using sender_drain_no_abort[OF d] assms(3) by (simp add: pending_in_def)
  have "fst (send_loop api alloc cb k ?s) = Returned True \<and>
      ss_client (snd (send_loop api alloc cb k ?s)) = c"
    unfolding send_loop.simps[of api alloc cb k ?s] using assms(1,2) d ok
    by (auto simp: open_ifs_def ifs_read_def)
  moreover have "m_file \<noteq> Missing" "m_file \<noteq> Inaccessible" using assms(1) by auto
  ultimately show ?thesis using assms(4)
    by (cases "send_loop api alloc cb k ?s") (auto simp: sender_mainLoop_def)
qed

theorem sender_silent_loss_witness:
  "\<exists>s'. sender_mainLoop (demo_api True) (\<lambda>_. True) 0 (Readable [1, 2, 3]) 0 (record_cb 9) [] new_queue
     (demo_world 0) [] = (Returned True, s') \<and> ss_client s' = [final_message]"
  using sender_silent_loss[of "Readable [1, 2, 3]" "[1, 2, 3]" 0 "\<lambda>_. True" new_queue "[]" "demo_api True"
      0 "record_cb 9" "demo_world 0" "[]", OF _ TrueI _ surjective_pairing]
  by (intro exI[of _ "snd (sender_mainLoop (demo_api True) (\<lambda>_. True) 0 (Readable [1, 2, 3]) 0
        (record_cb 9) [] new_queue (demo_world 0) [])"])
    (simp add: no_abort_def record_cb_def final_message_def prod_eq_iff)


text \<open>A disk with room for one byte, behind an unbuffered stream and behind a buffer.\<close>

definition small_disk :: "bool \<Rightarrow> out_disk" where
  "small_disk buffered = \<lparr>disk_room = \<lambda>old new. 1 - length old, disk_keeps = \<lambda>_ _. buffered\<rparr>"


text \<open>The relay of the server passes on exactly the chunks, the \<open>FinalChunk\<close> and the \<open>Abort\<close>, unchanged
  and to its sink only, and reports whether the sink took the message; every other message is
  refused without an effect.\<close>

theorem retranslator_forwards:
  assumes "session_onMessage msg (ServerOneToOneRetranslatorSession fs mx sink) h = (ok, h')"
  shows "(if has_type msg Chunk \<or> has_type msg FinalChunk \<or> has_type msg Abort
    then ok = fst (send msg (h sink)) \<and> h' sink = snd (send msg (h sink))
    else \<not> ok \<and> h' sink = h sink) \<and> (\<forall>a. a \<noteq> sink \<longrightarrow> h' a = h a)"
  using assms by (auto simp: send_to_def split: if_splits prod.splits)

theorem retranslator_forwards_witness:
  "session_onMessage new_message (ServerOneToOneRetranslatorSession 3 512 7) (\<lambda>_. client_start) =
     (False, \<lambda>_. client_start) \<and> \<not> fst (send new_message client_start)"
  using retranslator_forwards[of new_message 3 512 7 "\<lambda>_. client_start" False "\<lambda>_. client_start"]
  by (simp add: has_type_def new_message_def send_def client_start_def connectToServer_def new_connection_def)

end
