(* ===== verification/ClientStorage.thy ===== *)
theory ClientStorage
  imports Session
begin

text \<open>
  The class \<open>ClientStorage\<close> of \<^verbatim>\<open>filetransmission/ppserver/src/server.cpp\<close>: the pending senders
  with their code phrases and their transmission contexts, and the running sessions. Connections
  are addresses. \<open>boost::bimap\<close> is not part of the repository: its operations are a record, and the
  locale \<open>bimap\<close> states what Boost documents of them (an insertion changes nothing when either key
  is present, and the two views agree). A \<open>std::unordered_map\<close> is a map whose \<open>insert\<close> keeps an
  existing entry.
\<close>

section \<open>The bidirectional map\<close>

record ('m, 'l, 'r) bimap_api =
  bm_empty :: 'm
  bm_insert :: "'l \<Rightarrow> 'r \<Rightarrow> 'm \<Rightarrow> 'm"
  left_erase :: "'l \<Rightarrow> 'm \<Rightarrow> 'm"
  left_find :: "'l \<Rightarrow> 'm \<Rightarrow> 'r option"
  right_find :: "'r \<Rightarrow> 'm \<Rightarrow> 'l option"

text \<open>\<open>ok m\<close>: \<open>m\<close> is a state the operations can reach.\<close>

locale bimap =
  fixes api :: "('m, 'l, 'r) bimap_api" and ok :: "'m \<Rightarrow> bool"
  assumes ok_empty: "ok (bm_empty api)"
    and ok_insert: "ok m \<Longrightarrow> ok (bm_insert api l r m)"
    and ok_erase: "ok m \<Longrightarrow> ok (left_erase api l m)"
    and find_empty: "left_find api l (bm_empty api) = None"
    and find_insert: "ok m \<Longrightarrow> left_find api l (bm_insert api l' r' m) =
      (if left_find api l' m = None \<and> right_find api r' m = None \<and> l = l' then Some r'
       else left_find api l m)"
    and find_erase: "ok m \<Longrightarrow> left_find api l (left_erase api l' m) =
      (if l = l' then None else left_find api l m)"
    and views: "ok m \<Longrightarrow> right_find api r m = Some l \<longleftrightarrow> left_find api l m = Some r"
begin

lemma left_unique:
  "ok m \<Longrightarrow> left_find api l m = Some r \<Longrightarrow> left_find api l' m = Some r \<Longrightarrow> l = l'"
  using views by (metis option.inject)

lemma right_None_iff: "ok m \<Longrightarrow> right_find api r m = None \<longleftrightarrow> (\<forall>l. left_find api l m \<noteq> Some r)"
  using views by (metis not_None_eq)

lemma insert_keeps: "ok m \<Longrightarrow> left_find api l m = Some r \<Longrightarrow> left_find api l (bm_insert api l' r' m) = Some r"
  by (auto simp: find_insert)

text \<open>A phrase that is taken stays with its owner.\<close>

lemma insert_taken:
  "ok m \<Longrightarrow> left_find api l m = Some r \<Longrightarrow> left_find api x (bm_insert api l' r m) = left_find api x m"
  by (auto simp: find_insert right_None_iff)

end

text \<open>A reference provider, for the examples: an association list.\<close>

definition alist_bimap :: "(('l \<times> 'r) list, 'l, 'r) bimap_api" where
  "alist_bimap = \<lparr>
     bm_empty = [],
     bm_insert = (\<lambda>l r m. if l \<in> fst ` set m \<or> r \<in> snd ` set m then m else (l, r) # m),
     left_erase = (\<lambda>l m. filter (\<lambda>e. fst e \<noteq> l) m),
     left_find = (\<lambda>l m. map_of m l),
     right_find = (\<lambda>r m. map_of (map prod.swap m) r)\<rparr>"

definition alist_ok :: "('l \<times> 'r) list \<Rightarrow> bool" where
  "alist_ok m \<longleftrightarrow> distinct (map fst m) \<and> distinct (map snd m)"

lemma map_fst_swap [simp]: "map (fst \<circ> prod.swap) m = map snd m"
  by auto

interpretation alist: bimap alist_bimap alist_ok
proof unfold_locales
  fix m :: "('l \<times> 'r) list" and l l' r r'
  show "alist_ok (bm_empty alist_bimap)" by (simp add: alist_ok_def alist_bimap_def)
  show "alist_ok m \<Longrightarrow> alist_ok (bm_insert alist_bimap l r m)"
    by (auto simp: alist_ok_def alist_bimap_def)
  show "alist_ok m \<Longrightarrow> alist_ok (left_erase alist_bimap l m)"
    by (auto simp: alist_ok_def alist_bimap_def distinct_map intro: inj_on_subset)
  show "left_find alist_bimap l (bm_empty alist_bimap) = None" by (simp add: alist_bimap_def)
  show views: "alist_ok m \<Longrightarrow>
      right_find alist_bimap r m = Some l \<longleftrightarrow> left_find alist_bimap l m = Some r"
    for m :: "('l \<times> 'r) list" and l r
    by (auto simp: alist_ok_def alist_bimap_def map_of_eq_Some_iff)
  show "alist_ok m \<Longrightarrow> left_find alist_bimap l (bm_insert alist_bimap l' r' m) =
      (if left_find alist_bimap l' m = None \<and> right_find alist_bimap r' m = None \<and> l = l' then Some r'
       else left_find alist_bimap l m)"
    by (auto simp: alist_bimap_def map_of_eq_None_iff image_image)
  show "alist_ok m \<Longrightarrow> left_find alist_bimap l (left_erase alist_bimap l' m) =
      (if l = l' then None else left_find alist_bimap l m)"
    by (induction m) (auto simp: alist_ok_def alist_bimap_def)
qed

section \<open>The storage\<close>

record TransmissionContext =
  pre_metadata :: PreMetadata
  post_metadata :: PostMetadata

record ('p, 's) client_storage =
  m_pending_phrase_senders :: 'p
  m_pending_transmissions :: "nat \<Rightarrow> TransmissionContext option"
  m_senders_receivers :: 's
  m_sessions :: "nat \<Rightarrow> ServerSession option"

text \<open>What the server uses from outside: the two kinds of bidirectional map, and the padding byte of
  \<open>Empty{}\<close>.\<close>

record ('p, 's) server_env =
  phrase_api :: "('p, nat, string) bimap_api"
  pair_api :: "('s, nat, nat) bimap_api"
  padding :: u8

definition storage_init :: "('p, 's) server_env \<Rightarrow> ('p, 's) client_storage" where
  "storage_init env = \<lparr>m_pending_phrase_senders = bm_empty (phrase_api env),
     m_pending_transmissions = (\<lambda>_. None), m_senders_receivers = bm_empty (pair_api env),
     m_sessions = (\<lambda>_. None)\<rparr>"

definition map_insert :: "nat \<Rightarrow> 'v \<Rightarrow> (nat \<Rightarrow> 'v option) \<Rightarrow> (nat \<Rightarrow> 'v option)" where
  "map_insert k v m = (if m k = None then m(k := Some v) else m)"

definition removePendingSender :: "('p, 's) server_env \<Rightarrow> nat \<Rightarrow> ('p, 's) client_storage \<Rightarrow>
    ('p, 's) client_storage" where
  "removePendingSender env sender st =
     st\<lparr>m_pending_phrase_senders := left_erase (phrase_api env) sender (m_pending_phrase_senders st),
        m_pending_transmissions := (m_pending_transmissions st)(sender := None)\<rparr>"

definition context_of :: "u64 \<Rightarrow> PreMetadata \<Rightarrow> TransmissionContext" where
  "context_of max_chunk pre = \<lparr>pre_metadata = pre,
     post_metadata = \<lparr>post_payload_type = pre_payload_type pre, max_chunk_size = max_chunk,
       post_code_phrase = pre_code_phrase pre, post_file_data = pre_file_data pre\<rparr>\<rparr>"

definition addPendingSender :: "('p, 's) server_env \<Rightarrow> nat \<Rightarrow> u64 \<Rightarrow> PreMetadata \<Rightarrow>
    ('p, 's) client_storage \<Rightarrow> ('p, 's) client_storage" where
  "addPendingSender env sender max_chunk pre st =
     st\<lparr>m_pending_phrase_senders := bm_insert (phrase_api env) sender (code (pre_code_phrase pre))
          (m_pending_phrase_senders st),
        m_pending_transmissions := map_insert sender (context_of max_chunk pre)
          (m_pending_transmissions st)\<rparr>"

definition getCodeBySender :: "('p, 's) server_env \<Rightarrow> nat \<Rightarrow> ('p, 's) client_storage \<Rightarrow> string option" where
  "getCodeBySender env sender st = left_find (phrase_api env) sender (m_pending_phrase_senders st)"

definition getSenderByCode :: "('p, 's) server_env \<Rightarrow> string \<Rightarrow> ('p, 's) client_storage \<Rightarrow> nat option" where
  "getSenderByCode env cd st = right_find (phrase_api env) cd (m_pending_phrase_senders st)"

definition getSenderByReceiver :: "('p, 's) server_env \<Rightarrow> nat \<Rightarrow> ('p, 's) client_storage \<Rightarrow> nat option" where
  "getSenderByReceiver env receiver st = right_find (pair_api env) receiver (m_senders_receivers st)"

definition getReceiverBySender :: "('p, 's) server_env \<Rightarrow> nat \<Rightarrow> ('p, 's) client_storage \<Rightarrow> nat option" where
  "getReceiverBySender env sender st = left_find (pair_api env) sender (m_senders_receivers st)"

definition getContextBySender :: "nat \<Rightarrow> ('p, 's) client_storage \<Rightarrow> TransmissionContext option" where
  "getContextBySender sender st = m_pending_transmissions st sender"

definition getSessionBySender :: "nat \<Rightarrow> ('p, 's) client_storage \<Rightarrow> ServerSession option" where
  "getSessionBySender sender st = m_sessions st sender"

text \<open>\<open>removeSession\<close> also tells the sender's connection to close once it has written everything.\<close>

definition removeSession :: "('p, 's) server_env \<Rightarrow> nat \<Rightarrow> ('p, 's) client_storage \<times> heap \<Rightarrow>
    ('p, 's) client_storage \<times> heap" where
  "removeSession env sender s =
     (case s of (st, h) \<Rightarrow>
        (st\<lparr>m_sessions := (m_sessions st)(sender := None),
            m_senders_receivers := left_erase (pair_api env) sender (m_senders_receivers st)\<rparr>,
         h(sender := disconnectAfterFlush (h sender))))"

definition addSession :: "('p, 's) server_env \<Rightarrow> nat \<Rightarrow> nat \<Rightarrow> ServerSession \<Rightarrow>
    ('p, 's) client_storage \<Rightarrow> ('p, 's) client_storage" where
  "addSession env sender receiver session st =
     st\<lparr>m_senders_receivers := bm_insert (pair_api env) sender receiver (m_senders_receivers st),
        m_sessions := map_insert sender session (m_sessions st)\<rparr>"

section \<open>The invariant of the storage\<close>

text \<open>Both bidirectional maps are in a documented state; every registered phrase belongs to a sender
  whose context carries that phrase; every context announces what its sender asked for; every
  sender paired with a receiver has a session.\<close>

definition storage_ok :: "('p, 's) server_env \<Rightarrow> ('p \<Rightarrow> bool) \<Rightarrow> ('s \<Rightarrow> bool) \<Rightarrow> u64 \<Rightarrow>
    ('p, 's) client_storage \<Rightarrow> bool" where
  "storage_ok env okp oks mx st \<longleftrightarrow>
     okp (m_pending_phrase_senders st) \<and> oks (m_senders_receivers st) \<and>
     (\<forall>a cd. getCodeBySender env a st = Some cd \<longrightarrow>
        (\<exists>ctx. getContextBySender a st = Some ctx \<and> code (pre_code_phrase (pre_metadata ctx)) = cd)) \<and>
     (\<forall>a ctx. getContextBySender a st = Some ctx \<longrightarrow> ctx = context_of mx (pre_metadata ctx)) \<and>
     (\<forall>a r. getReceiverBySender env a st = Some r \<longrightarrow> getSessionBySender a st \<noteq> None)"

lemma storage_okI:
  assumes "okp (m_pending_phrase_senders st)" "oks (m_senders_receivers st)"
    and "\<And>a cd. getCodeBySender env a st = Some cd \<Longrightarrow>
      \<exists>ctx. getContextBySender a st = Some ctx \<and> code (pre_code_phrase (pre_metadata ctx)) = cd"
    and "\<And>a ctx. getContextBySender a st = Some ctx \<Longrightarrow> ctx = context_of mx (pre_metadata ctx)"
    and "\<And>a r. getReceiverBySender env a st = Some r \<Longrightarrow> getSessionBySender a st \<noteq> None"
  shows "storage_ok env okp oks mx st"
  using assms by (simp add: storage_ok_def)

lemma storage_okD:
  assumes "storage_ok env okp oks mx st"
  shows "okp (m_pending_phrase_senders st)" and "oks (m_senders_receivers st)"
    and "getCodeBySender env a st = Some cd \<Longrightarrow>
      \<exists>ctx. getContextBySender a st = Some ctx \<and> code (pre_code_phrase (pre_metadata ctx)) = cd"
    and "getContextBySender a st = Some ctx \<Longrightarrow> ctx = context_of mx (pre_metadata ctx)"
    and "getReceiverBySender env a st = Some r \<Longrightarrow> getSessionBySender a st \<noteq> None"
  using assms by (simp_all add: storage_ok_def)

lemma pre_context_of [simp]: "pre_metadata (context_of mx pre) = pre"
  by (simp add: context_of_def)

lemmas getter_defs = getCodeBySender_def getSenderByCode_def getSenderByReceiver_def
  getReceiverBySender_def getContextBySender_def getSessionBySender_def

text \<open>The server's storage relies on two providers of the bidirectional map.\<close>

locale storage_env = P: bimap "phrase_api env" okp + S: bimap "pair_api env" oks
  for env :: "('p, 's) server_env" and okp :: "'p \<Rightarrow> bool" and oks :: "'s \<Rightarrow> bool"
begin

lemma init_ok: "storage_ok env okp oks mx (storage_init env)"
  by (simp add: storage_ok_def storage_init_def getter_defs P.ok_empty S.ok_empty P.find_empty S.find_empty)

lemma codes_agree:
  "storage_ok env okp oks mx st \<Longrightarrow>
     getSenderByCode env cd st = Some a \<longleftrightarrow> getCodeBySender env a st = Some cd"
  unfolding getter_defs by (rule P.views) (rule storage_okD(1))

lemma pairs_agree:
  "storage_ok env okp oks mx st \<Longrightarrow>
     getSenderByReceiver env r st = Some a \<longleftrightarrow> getReceiverBySender env a st = Some r"
  unfolding getter_defs by (rule S.views) (rule storage_okD(2))

lemma find_simps:
  assumes "storage_ok env okp oks mx st"
  shows "getCodeBySender env a (removePendingSender env b st) =
      (if a = b then None else getCodeBySender env a st)"
    and "getCodeBySender env a (addPendingSender env b k pre st) =
      (if getCodeBySender env b st = None \<and> getSenderByCode env (code (pre_code_phrase pre)) st = None \<and> a = b
       then Some (code (pre_code_phrase pre)) else getCodeBySender env a st)"
    and "getReceiverBySender env a (fst (removeSession env b (st, h))) =
      (if a = b then None else getReceiverBySender env a st)"
    and "getReceiverBySender env a (addSession env b r s st) =
      (if getReceiverBySender env b st = None \<and> getSenderByReceiver env r st = None \<and> a = b
       then Some r else getReceiverBySender env a st)"
  using storage_okD(1,2)[OF assms] P.find_erase P.find_insert S.find_erase S.find_insert
  by (simp_all add: getter_defs removePendingSender_def addPendingSender_def removeSession_def
      addSession_def)

end

lemma storage_frame [simp]:
  "getContextBySender a (removePendingSender env b st) = (if a = b then None else getContextBySender a st)"
  "getSessionBySender a (removePendingSender env b st) = getSessionBySender a st"
  "getReceiverBySender env a (removePendingSender env b st) = getReceiverBySender env a st"
  "getContextBySender a (addPendingSender env b k pre st) =
     (if a = b \<and> getContextBySender a st = None then Some (context_of k pre) else getContextBySender a st)"
  "getSessionBySender a (addPendingSender env b k pre st) = getSessionBySender a st"
  "getReceiverBySender env a (addPendingSender env b k pre st) = getReceiverBySender env a st"
  "getContextBySender a (fst (removeSession env b (st, h))) = getContextBySender a st"
  "getSessionBySender a (fst (removeSession env b (st, h))) = (if a = b then None else getSessionBySender a st)"
  "getCodeBySender env a (fst (removeSession env b (st, h))) = getCodeBySender env a st"
  "getContextBySender a (addSession env b r s st) = getContextBySender a st"
  "getSessionBySender a (addSession env b r s st) =
     (if a = b \<and> getSessionBySender a st = None then Some s else getSessionBySender a st)"
  "getCodeBySender env a (addSession env b r s st) = getCodeBySender env a st"
  by (auto simp: getter_defs removePendingSender_def addPendingSender_def removeSession_def
      addSession_def map_insert_def)

context storage_env
begin

text \<open>\<open>addPendingSender\<close> is only called for a sender without a context (it was removed before).\<close>

lemma removePendingSender_ok:
  assumes "storage_ok env okp oks mx st"
  shows "storage_ok env okp oks mx (removePendingSender env a st)"
proof (rule storage_okI)
  show "okp (m_pending_phrase_senders (removePendingSender env a st))"
    "oks (m_senders_receivers (removePendingSender env a st))"
    using storage_okD(1,2)[OF assms] by (simp_all add: removePendingSender_def P.ok_erase)
qed (use storage_okD(3,4,5)[OF assms] in \<open>auto simp: find_simps[OF assms] split: if_splits\<close>)

lemma addPendingSender_ok:
  assumes "storage_ok env okp oks mx st" "getContextBySender a st = None"
  shows "storage_ok env okp oks mx (addPendingSender env a mx pre st)"
proof (rule storage_okI)
  show "okp (m_pending_phrase_senders (addPendingSender env a mx pre st))"
    "oks (m_senders_receivers (addPendingSender env a mx pre st))"
    using storage_okD(1,2)[OF assms(1)] by (simp_all add: addPendingSender_def P.ok_insert)
  have "getCodeBySender env a st = None"
    using storage_okD(3)[OF assms(1), of a] assms(2) by (cases "getCodeBySender env a st") auto
  then show "\<exists>ctx. getContextBySender b (addPendingSender env a mx pre st) = Some ctx \<and>
      code (pre_code_phrase (pre_metadata ctx)) = cd"
    if "getCodeBySender env b (addPendingSender env a mx pre st) = Some cd" for b cd
    using that storage_okD(3)[OF assms(1), of b] assms(2)
    by (auto simp: find_simps[OF assms(1)] split: if_splits)
qed (use storage_okD(4,5)[OF assms(1)] assms(2) in \<open>auto split: if_splits\<close>)

lemma removeSession_ok:
  assumes "storage_ok env okp oks mx st"
  shows "storage_ok env okp oks mx (fst (removeSession env a (st, h)))"
proof (rule storage_okI)
  show "okp (m_pending_phrase_senders (fst (removeSession env a (st, h))))"
    "oks (m_senders_receivers (fst (removeSession env a (st, h))))"
    using storage_okD(1,2)[OF assms] by (simp_all add: removeSession_def S.ok_erase)
qed (use storage_okD(3,4,5)[OF assms] in \<open>auto simp: find_simps[OF assms] split: if_splits\<close>)

lemma addSession_ok:
  assumes "storage_ok env okp oks mx st"
  shows "storage_ok env okp oks mx (addSession env a r s st)"
proof (rule storage_okI)
  show "okp (m_pending_phrase_senders (addSession env a r s st))"
    "oks (m_senders_receivers (addSession env a r s st))"
    using storage_okD(1,2)[OF assms] by (simp_all add: addSession_def S.ok_insert)
qed (use storage_okD(3,4,5)[OF assms] in \<open>auto simp: find_simps[OF assms] split: if_splits\<close>)

end

definition alist_env :: "((nat \<times> string) list, (nat \<times> nat) list) server_env" where
  "alist_env = \<lparr>phrase_api = alist_bimap, pair_api = alist_bimap, padding = 0\<rparr>"

interpretation alist_storage: storage_env alist_env alist_ok alist_ok
  unfolding storage_env_def alist_env_def by (simp add: alist.bimap_axioms)

end
