(* ===== verification/FileServer.thy ===== *)
theory FileServer
  imports ServerBase ClientStorage
begin

text \<open>
  The class \<open>FileServer\<close> and \<open>main\<close> of \<^verbatim>\<open>filetransmission/ppserver/src/server.cpp\<close>: the message
  handlers of the relay. The class derives from \<open>ServerBase\<close>: its state extends that record and its
  hooks are an instance of the hooks. A handler returns \<open>None\<close> where the code reads a short body out
  of bounds. The results of \<open>send\<close> are ignored where the code ignores them. The debug log is left
  out; so is the discovery server, which the constructor only creates (\<^verbatim>\<open>Discovery\<close>).
\<close>

section \<open>State\<close>

record ('p, 's) file_server = server_base +
  m_storage :: "('p, 's) client_storage"
  m_max_chunk_size :: u64

definition new_file_server :: "('p, 's) server_env \<Rightarrow> ('p, 's) file_server" where
  "new_file_server env = \<lparr>heap = heap base_init, next_addr = 0, m_connections = [],
     m_id_counter = 10000, accepting = False, context_running = False,
     m_storage = storage_init env, m_max_chunk_size = 512\<rparr>"

definition empty_payload :: "('p, 's) server_env \<Rightarrow> payload" where
  "empty_payload env = PEmpty (Empty (padding env))"

text \<open>The storage's operations on the server.\<close>

definition drop_pending :: "('p, 's) server_env \<Rightarrow> nat \<Rightarrow> ('p, 's) file_server \<Rightarrow> ('p, 's) file_server" where
  "drop_pending env a s = s\<lparr>m_storage := removePendingSender env a (m_storage s)\<rparr>"

definition drop_session :: "('p, 's) server_env \<Rightarrow> nat \<Rightarrow> ('p, 's) file_server \<Rightarrow> ('p, 's) file_server" where
  "drop_session env a s = (case removeSession env a (m_storage s, heap s) of (st, h) \<Rightarrow>
     s\<lparr>m_storage := st, heap := h\<rparr>)"

text \<open>\<open>session->onMessage(msg)\<close>.\<close>

definition run_session :: "message \<Rightarrow> ServerSession \<Rightarrow> ('p, 's) file_server \<Rightarrow>
    bool \<times> ('p, 's) file_server" where
  "run_session msg session s = (case session_onMessage msg session (heap s) of (ok, h) \<Rightarrow>
     (ok, s\<lparr>heap := h\<rparr>))"

section \<open>Handlers\<close>

definition removeSessionAbruptly :: "('p, 's) server_env \<Rightarrow> nat \<Rightarrow> ('p, 's) file_server \<Rightarrow>
    ('p, 's) file_server" where
  "removeSessionAbruptly env client s =
     (let s = (case getSessionBySender client (m_storage s) of
                 Some session \<Rightarrow> snd (run_session (encode Abort (empty_payload env)) session s)
               | None \<Rightarrow> s);
          s = drop_pending env client s
      in drop_session env client s)"

definition onSendEstablishment :: "('p, 's) server_env \<Rightarrow> nat \<Rightarrow> message \<Rightarrow> ('p, 's) file_server \<Rightarrow>
    ('p, 's) file_server option" where
  "onSendEstablishment env client msg s =
     (let s = drop_pending env client s in
      case decode Send msg of
        Some (PPre pre, _) \<Rightarrow>
          let s = (if getSessionBySender client (m_storage s) \<noteq> None
                   then let s = send_via client (encode Reject (empty_payload env)) s;
                            s = drop_session env client s
                        in drop_pending env client s
                   else s)
          in Some (s\<lparr>m_storage :=
               addPendingSender env client (m_max_chunk_size s) pre (m_storage s)\<rparr>)
      | _ \<Rightarrow> None)"

definition onReceiveEstablishment :: "('p, 's) server_env \<Rightarrow> nat \<Rightarrow> message \<Rightarrow> ('p, 's) file_server \<Rightarrow>
    ('p, 's) file_server option" where
  "onReceiveEstablishment env client msg s =
     (case get_PreMetadata init_PreMetadata msg of
        None \<Rightarrow> None
      | Some (request, _) \<Rightarrow>
          (case getSenderByCode env (code (pre_code_phrase request)) (m_storage s) of
             None \<Rightarrow> Some (send_via client (encode Reject (empty_payload env)) s)
           | Some sender \<Rightarrow>
               (case getContextBySender sender (m_storage s) of
                  None \<Rightarrow> Some (send_via client (encode Reject (empty_payload env)) s)
                | Some ctx \<Rightarrow>
                    Some (send_via client (encode Accept (PPost (post_metadata ctx))) s))))"

definition establishTransmissionSession :: "('p, 's) server_env \<Rightarrow> nat \<Rightarrow> message \<Rightarrow>
    ('p, 's) file_server \<Rightarrow> ('p, 's) file_server option" where
  "establishTransmissionSession env receiver msg s =
     (case get_CodePhrase init_CodePhrase msg of
        None \<Rightarrow> None
      | Some (request, _) \<Rightarrow>
          (case getSenderByCode env (code request) (m_storage s) of
             None \<Rightarrow> Some (send_via receiver (encode Abort (empty_payload env)) s)
           | Some sender \<Rightarrow>
               (case getContextBySender sender (m_storage s) of
                  None \<Rightarrow> Some (removeSessionAbruptly env sender s)
                | Some ctx \<Rightarrow>
                    let session = new_retranslator (file_size (pre_file_data (pre_metadata ctx)))
                                    (m_max_chunk_size s) receiver;
                        s = s\<lparr>m_storage := addSession env sender receiver session (m_storage s)\<rparr>
                    in Some (send_via sender (encode Accept (PPost (post_metadata ctx))) s))))"

definition finishSession :: "('p, 's) server_env \<Rightarrow> nat \<Rightarrow> ('p, 's) file_server \<Rightarrow>
    ('p, 's) file_server" where
  "finishSession env receiver s =
     (case getSenderByReceiver env receiver (m_storage s) of
        Some sender \<Rightarrow>
          let s = send_via sender (encode Success (empty_payload env)) s;
              s = drop_pending env sender s
          in drop_session env sender s
      | None \<Rightarrow> s)"

text \<open>The size test is on \<open>size_t\<close>: for a body shorter than the digest the difference wraps.\<close>

definition onSessionedMessage :: "('p, 's) server_env \<Rightarrow> nat \<Rightarrow> ServerSession \<Rightarrow> message \<Rightarrow>
    ('p, 's) file_server \<Rightarrow> ('p, 's) file_server" where
  "onSessionedMessage env client session msg s =
     (if has_type msg FinalChunk then snd (run_session msg session s)
      else if has_type msg Chunk then
        (if (word_of_nat (msg_size msg) :: u64) - word_of_nat sha256_digest_length > m_max_chunk_size s
         then removeSessionAbruptly env client s
         else case run_session msg session s of (ok, s') \<Rightarrow>
           if \<not> ok then removeSessionAbruptly env client s' else s')
      else removeSessionAbruptly env client s)"

definition file_server_onMessage :: "('p, 's) server_env \<Rightarrow> nat \<Rightarrow> message \<Rightarrow> ('p, 's) file_server \<Rightarrow>
    ('p, 's) file_server option" where
  "file_server_onMessage env client msg s =
     (case getSessionBySender client (m_storage s) of
        Some session \<Rightarrow> Some (onSessionedMessage env client session msg s)
      | None \<Rightarrow>
          if has_type msg Send then onSendEstablishment env client msg s
          else if has_type msg RequestReceive then onReceiveEstablishment env client msg s
          else if has_type msg Receive then establishTransmissionSession env client msg s
          else if has_type msg FinishReceive then Some (finishSession env client s)
          else if has_type msg FailedReceive then
            (case getSenderByReceiver env client (m_storage s) of
               Some sender \<Rightarrow> Some (removeSessionAbruptly env sender s)
             | None \<Rightarrow> Some s)
          else Some s)"

definition file_server_onClientDisconnect :: "('p, 's) server_env \<Rightarrow> nat \<Rightarrow> ('p, 's) file_server \<Rightarrow>
    ('p, 's) file_server" where
  "file_server_onClientDisconnect env client s = drop_pending env client (drop_session env client s)"

text \<open>The hooks. \<open>ServerBase\<close> passes the connection a message came from, which is never null at a
  server; a null pointer is dereferenced by the handlers.\<close>

definition file_server_hooks :: "('p, 's) server_env \<Rightarrow> ('p, 's) file_server server_hooks" where
  "file_server_hooks env = \<lparr>onClientConnect = (\<lambda>_ s. (True, s)),
     onClientDisconnect = (\<lambda>c s. map_option (\<lambda>a. file_server_onClientDisconnect env a s) c),
     onMessage = (\<lambda>c msg s. Option.bind c (\<lambda>a. file_server_onMessage env a msg s))\<rparr>"

text \<open>\<open>main\<close>: \<open>rounds\<close> rounds of \<open>while (true) server.update(true)\<close> (the limit is that of \<open>size_t\<close>).
  The outer \<open>None\<close> means that it blocks for good.\<close>

definition server_boot :: "('p, 's) server_env \<Rightarrow> bool \<Rightarrow> ('p, 's) file_server" where
  "server_boot env thread_ok = snd (start thread_ok (new_file_server env))"

fun server_rounds :: "('p, 's) server_env \<Rightarrow> nat \<Rightarrow> owned_message schedule \<Rightarrow> owned_message tsqueue \<Rightarrow>
    ('p, 's) file_server \<Rightarrow>
    (owned_message schedule \<times> owned_message tsqueue \<times> ('p, 's) file_server) option option" where
  "server_rounds env 0 sch q s = Some (Some (sch, q, s))"
| "server_rounds env (Suc n) sch q s =
     (case update (file_server_hooks env) True (2 ^ 64 - 1) sch q s of
        None \<Rightarrow> None
      | Some None \<Rightarrow> Some None
      | Some (Some (sch', q', s')) \<Rightarrow> server_rounds env n sch' q' s')"

section \<open>What the operations change\<close>

lemma send_via_frame [simp]:
  "m_storage (send_via a m s) = m_storage s" "m_max_chunk_size (send_via a m s) = m_max_chunk_size s"
  "next_addr (send_via a m s) = next_addr s" "m_connections (send_via a m s) = m_connections s"
  "heap (send_via a m s) = (heap s)(a := snd (send m (heap s a)))"
  "accepting (send_via a m s) = accepting s"
  by (simp_all add: send_via_def)

lemma drop_pending_frame [simp]:
  "m_storage (drop_pending env a s) = removePendingSender env a (m_storage s)"
  "m_max_chunk_size (drop_pending env a s) = m_max_chunk_size s" "heap (drop_pending env a s) = heap s"
  "next_addr (drop_pending env a s) = next_addr s"
  by (simp_all add: drop_pending_def)

lemma drop_session_frame [simp]:
  "m_storage (drop_session env a s) = fst (removeSession env a (m_storage s, heap s))"
  "m_max_chunk_size (drop_session env a s) = m_max_chunk_size s"
  "heap (drop_session env a s) = (heap s)(a := disconnectAfterFlush (heap s a))"
  "next_addr (drop_session env a s) = next_addr s"
  by (simp_all add: drop_session_def removeSession_def)

lemma run_session_frame [simp]:
  "m_storage (snd (run_session m ss s)) = m_storage s"
  "m_max_chunk_size (snd (run_session m ss s)) = m_max_chunk_size s"
  "next_addr (snd (run_session m ss s)) = next_addr s"
  by (simp_all add: run_session_def split: prod.splits)

lemma run_retranslator:
  "has_type m Chunk \<or> has_type m FinalChunk \<or> has_type m Abort \<Longrightarrow>
     run_session m (ServerOneToOneRetranslatorSession fs mx sink) s =
       (fst (send m (heap s sink)), s\<lparr>heap := (heap s)(sink := snd (send m (heap s sink)))\<rparr>)"
  by (auto simp: run_session_def send_to_def split: prod.splits)

section \<open>The server's invariant\<close>

definition server_ok :: "('p, 's) server_env \<Rightarrow> ('p \<Rightarrow> bool) \<Rightarrow> ('s \<Rightarrow> bool) \<Rightarrow> ('p, 's) file_server \<Rightarrow> bool" where
  "server_ok env okp oks s \<longleftrightarrow> m_max_chunk_size s = 512 \<and> storage_ok env okp oks 512 (m_storage s) \<and>
     (\<forall>a ss. getSessionBySender a (m_storage s) = Some ss \<longrightarrow>
        (\<exists>fs sink. ss = ServerOneToOneRetranslatorSession fs 512 sink)) \<and>
     (\<forall>a ctx. getContextBySender a (m_storage s) = Some ctx \<longrightarrow> wf_PreMetadata (pre_metadata ctx))"

lemma server_okD:
  assumes "server_ok env okp oks s"
  shows "m_max_chunk_size s = 512" and "storage_ok env okp oks 512 (m_storage s)"
    and "getSessionBySender a (m_storage s) = Some ss \<Longrightarrow>
      \<exists>fs sink. ss = ServerOneToOneRetranslatorSession fs 512 sink"
    and "getContextBySender a (m_storage s) = Some ctx \<Longrightarrow> wf_PreMetadata (pre_metadata ctx)"
  using assms by (auto simp: server_ok_def)

lemma server_ok_heap [simp]:
  "server_ok env okp oks (send_via a m s) = server_ok env okp oks s"
  "server_ok env okp oks (snd (run_session m ss s)) = server_ok env okp oks s"
  by (simp_all add: server_ok_def)

text \<open>The handlers in closed form, for a client that has no session.\<close>

definition register :: "('p, 's) server_env \<Rightarrow> nat \<Rightarrow> PreMetadata \<Rightarrow> ('p, 's) file_server \<Rightarrow>
    ('p, 's) file_server" where
  "register env a pre s = s\<lparr>m_storage := addPendingSender env a (m_max_chunk_size s) pre
     (removePendingSender env a (m_storage s))\<rparr>"

lemma register_frame [simp]:
  "m_storage (register env a pre s) = addPendingSender env a (m_max_chunk_size s) pre
     (removePendingSender env a (m_storage s))"
  "m_max_chunk_size (register env a pre s) = m_max_chunk_size s" "heap (register env a pre s) = heap s"
  "next_addr (register env a pre s) = next_addr s"
  by (simp_all add: register_def)

lemma decode_Send: "decode Send m = map_option (apfst PPre) (get_PreMetadata init_PreMetadata m)"
  by (simp add: decode_def)

lemma onSend_eq:
  "getSessionBySender a (m_storage s) = None \<Longrightarrow> onSendEstablishment env a m s =
     map_option (\<lambda>(pre, _). register env a pre s) (get_PreMetadata init_PreMetadata m)"
  by (auto simp: onSendEstablishment_def decode_Send Let_def register_def drop_pending_def
      split: option.split prod.split)

lemma handler_cases:
  assumes "file_server_onMessage env a m s = Some s'"
  obtains (sessioned) ss where "getSessionBySender a (m_storage s) = Some ss"
      "s' = onSessionedMessage env a ss m s"
  | (send) pre m' where "getSessionBySender a (m_storage s) = None" "has_type m Send"
      "get_PreMetadata init_PreMetadata m = Some (pre, m')" "s' = register env a pre s"
  | (answer) x where "s' = send_via a x s"
  | (start) c m' sender ctx where "has_type m Receive" "get_CodePhrase init_CodePhrase m = Some (c, m')"
      "getSenderByCode env (code c) (m_storage s) = Some sender"
      "getContextBySender sender (m_storage s) = Some ctx"
      "s' = send_via sender (encode Accept (PPost (post_metadata ctx)))
        (s\<lparr>m_storage := addSession env sender a (new_retranslator
            (file_size (pre_file_data (pre_metadata ctx))) (m_max_chunk_size s) a) (m_storage s)\<rparr>)"
  | (no_context) c m' sender where "get_CodePhrase init_CodePhrase m = Some (c, m')"
      "getSenderByCode env (code c) (m_storage s) = Some sender"
      "getContextBySender sender (m_storage s) = None"
      "s' = removeSessionAbruptly env sender s"
  | (finish) "s' = finishSession env a s"
  | (failed) sender where "getSenderByReceiver env a (m_storage s) = Some sender"
      "s' = removeSessionAbruptly env sender s"
  | (ignored) "s' = s"
proof (cases "getSessionBySender a (m_storage s)")
  case (Some ss)
  then show ?thesis using assms sessioned by (simp add: file_server_onMessage_def)
next
  case None
  note fm = assms[unfolded file_server_onMessage_def None option.case]
  consider "has_type m Send" | "has_type m RequestReceive" | "has_type m Receive" |
    "\<not> has_type m Send" "\<not> has_type m RequestReceive" "\<not> has_type m Receive" by blast
  then show ?thesis
  proof cases
    case 1
    then obtain pre m' where "get_PreMetadata init_PreMetadata m = Some (pre, m')"
      "s' = register env a pre s" using fm None by (auto simp: onSend_eq)
    then show ?thesis using send None 1 by blast
  next
    case 2
    then have "onReceiveEstablishment env a m s = Some s'" using fm by (simp add: has_type_unique)
    then have "\<exists>x. s' = send_via a x s"
      by (auto simp: onReceiveEstablishment_def split: option.splits)
    then show ?thesis using answer by blast
  next
    case 3
    then have "establishTransmissionSession env a m s = Some s'" using fm by (simp add: has_type_unique)
    then obtain c m' where c: "get_CodePhrase init_CodePhrase m = Some (c, m')"
      and r: "(case getSenderByCode env (code c) (m_storage s) of
          None \<Rightarrow> s' = send_via a (encode Abort (empty_payload env)) s
        | Some sender \<Rightarrow> (case getContextBySender sender (m_storage s) of
             None \<Rightarrow> s' = removeSessionAbruptly env sender s
           | Some ctx \<Rightarrow> s' = send_via sender (encode Accept (PPost (post_metadata ctx)))
               (s\<lparr>m_storage := addSession env sender a (new_retranslator
                 (file_size (pre_file_data (pre_metadata ctx))) (m_max_chunk_size s) a) (m_storage s)\<rparr>)))"
      by (auto simp: establishTransmissionSession_def Let_def split: option.splits)
    show ?thesis
    proof (cases "getSenderByCode env (code c) (m_storage s)")
      case None
      then show ?thesis using r answer by simp
    next
      case (Some sender)
      then show ?thesis using r start[OF 3 c Some] no_context[OF c Some]
        by (cases "getContextBySender sender (m_storage s)") simp_all
    qed
  next
    case 4
    show ?thesis
    proof (cases "has_type m FailedReceive")
      case True
      then have fr: "(case getSenderByReceiver env a (m_storage s) of
          Some sender \<Rightarrow> s' = removeSessionAbruptly env sender s | None \<Rightarrow> s' = s)"
        using fm 4 by (auto simp: has_type_unique split: option.splits)
      then show ?thesis using failed ignored
        by (cases "getSenderByReceiver env a (m_storage s)") simp_all
    next
      case False
      then have "s' = finishSession env a s \<or> s' = s" using fm 4 by (auto split: if_splits)
      then show ?thesis using finish ignored by blast
    qed
  qed
qed

context storage_env
begin

lemma server_ok_new: "server_ok env okp oks (new_file_server env)"
  using init_ok[of 512]
  by (simp add: server_ok_def new_file_server_def storage_init_def getSessionBySender_def
      getContextBySender_def)

lemma drop_pending_ok: "server_ok env okp oks s \<Longrightarrow> server_ok env okp oks (drop_pending env a s)"
  by (auto simp: server_ok_def removePendingSender_ok split: if_splits)

lemma drop_session_ok: "server_ok env okp oks s \<Longrightarrow> server_ok env okp oks (drop_session env a s)"
  by (auto simp: server_ok_def removeSession_ok split: if_splits)

lemma abrupt_ok: "server_ok env okp oks s \<Longrightarrow> server_ok env okp oks (removeSessionAbruptly env a s)"
  by (simp add: removeSessionAbruptly_def Let_def drop_pending_ok drop_session_ok split: option.split)

lemma register_ok: "server_ok env okp oks s \<Longrightarrow> wf_PreMetadata pre \<Longrightarrow>
    server_ok env okp oks (register env a pre s)"
  using addPendingSender_ok[OF removePendingSender_ok[of 512 "m_storage s" a], of a pre]
  by (auto simp: server_ok_def)

lemma addSession_server_ok:
  "server_ok env okp oks s \<Longrightarrow> server_ok env okp oks (s\<lparr>m_storage := addSession env b r
     (new_retranslator fs (m_max_chunk_size s) r) (m_storage s)\<rparr>)"
  using addSession_ok[of 512 "m_storage s" b r]
  by (auto simp: server_ok_def new_retranslator_def split: if_splits)

lemma sessioned_ok:
  assumes "server_ok env okp oks s"
  shows "server_ok env okp oks (onSessionedMessage env a ss m s)"
proof -
  obtain ok s1 where r: "run_session m ss s = (ok, s1)" by fastforce
  then have "server_ok env okp oks s1" using assms server_ok_heap(2)[of env okp oks m ss s] by simp
  then show ?thesis using assms by (simp add: onSessionedMessage_def r abrupt_ok)
qed

lemma finish_ok: "server_ok env okp oks s \<Longrightarrow> server_ok env okp oks (finishSession env a s)"
  by (simp add: finishSession_def Let_def drop_pending_ok drop_session_ok split: option.split)

lemma handler_ok:
  assumes "server_ok env okp oks s" "file_server_onMessage env a m s = Some s'"
  shows "server_ok env okp oks s'"
  using assms(2)
  by (cases rule: handler_cases)
    (simp_all add: assms(1) sessioned_ok register_ok get_PreMetadata_wf addSession_server_ok abrupt_ok
      finish_ok)

end

section \<open>The server as a transition system\<close>

text \<open>What a handler does to a connection are calls of its owner.\<close>

inductive owner_calls :: "connection \<Rightarrow> connection \<Rightarrow> bool" where
  owner_none: "owner_calls c c"
| owner_send: "owner_calls c c' \<Longrightarrow> owner_calls c (snd (send m c'))"
| owner_flush: "owner_calls c c' \<Longrightarrow> owner_calls c (disconnectAfterFlush c')"

lemma owner_calls_trans: "owner_calls c' c'' \<Longrightarrow> owner_calls c c' \<Longrightarrow> owner_calls c c''"
  by (induction rule: owner_calls.induct) (auto intro: owner_calls.intros)

lemma owner_calls_inv:
  "owner_calls c c' \<Longrightarrow> conn_inv c \<Longrightarrow>
     conn_inv c' \<and> m_owner_type c' = m_owner_type c \<and> m_validated c' = m_validated c"
proof (induction rule: owner_calls.induct)
  case (owner_send c c' m)
  then have "write_inv c'" by (simp add: conn_inv_def)
  then have "conn_inv (snd (send m c'))"
    using owner_send call_write_inv(1) conn_inv_read_view by (metis call_read_view(1))
  then show ?case using owner_send by (simp add: snd_send)
next
  case (owner_flush c c')
  then have "write_inv c'" by (simp add: conn_inv_def)
  then have "conn_inv (disconnectAfterFlush c')"
    using owner_flush call_write_inv(3) conn_inv_read_view by (metis call_read_view(3))
  then show ?case using owner_flush by (simp add: disconnectAfterFlush_def)
qed simp

definition calls :: "heap \<Rightarrow> heap \<Rightarrow> bool" where
  "calls h h' \<longleftrightarrow> (\<forall>a. owner_calls (h a) (h' a))"

lemma calls_refl [simp]: "calls h h"
  by (simp add: calls_def owner_calls.intros)

lemma calls_trans: "calls h h' \<Longrightarrow> calls h' h'' \<Longrightarrow> calls h h''"
  using owner_calls_trans unfolding calls_def by blast

lemma calls_upd [simp]:
  "calls h (h(a := snd (send m (h a))))" "calls h (h(a := disconnectAfterFlush (h a)))"
  by (auto simp: calls_def intro: owner_calls.intros)

lemma calls_run_session: "calls (heap s) (heap (snd (run_session m ss s)))"
proof (cases ss)
  case (ServerOneToOneRetranslatorSession fs mx sink)
  have "heap (snd (run_session m ss s)) = heap s \<or>
      heap (snd (run_session m ss s)) = (heap s)(sink := snd (send m (heap s sink)))"
    by (auto simp: ServerOneToOneRetranslatorSession run_session_def send_to_def split: prod.splits)
  then show ?thesis using calls_upd(1) calls_refl by metis
qed (simp add: run_session_def)

lemma calls_abrupt: "calls (heap s) (heap (removeSessionAbruptly env a s))"
proof (cases "getSessionBySender a (m_storage s)")
  case None
  then show ?thesis by (simp add: removeSessionAbruptly_def)
next
  case (Some ss)
  then show ?thesis
    by (simp add: removeSessionAbruptly_def Let_def) (rule calls_trans[OF calls_run_session calls_upd(2)])
qed

lemma calls_finish: "calls (heap s) (heap (finishSession env a s))"
proof (cases "getSenderByReceiver env a (m_storage s)")
  case None
  then show ?thesis by (simp add: finishSession_def)
next
  case (Some b)
  have "calls ((heap s)(b := snd (send m (heap s b))))
      (((heap s)(b := snd (send m (heap s b))))(b := disconnectAfterFlush (snd (send m (heap s b)))))" for m
    using calls_upd(2)[of "(heap s)(b := snd (send m (heap s b)))" b] by simp
  then show ?thesis using Some
    by (simp add: finishSession_def Let_def) (metis calls_trans calls_upd(1) fun_upd_upd)
qed

lemma calls_sessioned: "calls (heap s) (heap (onSessionedMessage env a ss m s))"
proof -
  obtain ok s1 where r: "run_session m ss s = (ok, s1)" by fastforce
  have "calls (heap s) (heap s1)" using calls_run_session[of s m ss] r by simp
  then show ?thesis using calls_abrupt calls_trans
    by (auto simp: onSessionedMessage_def r intro: calls_trans)
qed

lemma calls_handler:
  assumes "file_server_onMessage env a m s = Some s'"
  shows "calls (heap s) (heap s')"
  using assms by (cases rule: handler_cases)
    (simp_all add: calls_sessioned calls_abrupt calls_finish)

lemma next_addr_abrupt [simp]: "next_addr (removeSessionAbruptly env a s) = next_addr s"
  by (simp add: removeSessionAbruptly_def Let_def split: option.split)

lemma next_addr_handler:
  assumes "file_server_onMessage env a m s = Some s'"
  shows "next_addr s' = next_addr s"
proof -
  have "next_addr (onSessionedMessage env a ss m s) = next_addr s" for ss
    using run_session_frame(3)[of m ss s]
    by (cases "run_session m ss s") (simp add: onSessionedMessage_def)
  with assms show ?thesis
    by (cases rule: handler_cases) (simp_all add: finishSession_def Let_def split: option.split)
qed

text \<open>A step accepts a connection, lets a connection complete an operation or run a posted task, or
  handles the next message of the queue; \<open>system\<close> is the queue and the server.\<close>

inductive srv_step :: "('p, 's) server_env \<Rightarrow> owned_message tsqueue \<times> ('p, 's) file_server \<Rightarrow>
    owned_message tsqueue \<times> ('p, 's) file_server \<Rightarrow> bool" for env where
  srv_accept: "accepting s \<Longrightarrow> accept_done (file_server_hooks env) r s = Some s' \<Longrightarrow>
     srv_step env (q, s) (q, s')"
| srv_net: "a < next_addr s \<Longrightarrow> network_event e \<Longrightarrow> conn_step a (heap s a, q) e (c, q') \<Longrightarrow>
     srv_step env (q, s) (q', s\<lparr>heap := (heap s)(a := c)\<rparr>)"
| srv_handle: "pop_front q = Some (om, q') \<Longrightarrow>
     onMessage (file_server_hooks env) (remote om) (owned_msg om) s = Some s' \<Longrightarrow>
     srv_step env (q, s) (q', s')"

inductive_cases srv_stepE: "srv_step env s s'"

inductive srv_reach :: "('p, 's) server_env \<Rightarrow> owned_message tsqueue \<times> ('p, 's) file_server \<Rightarrow> bool"
  for env where
  srv_start: "srv_reach env (new_queue, server_boot env True)"
| srv_next: "srv_reach env s \<Longrightarrow> srv_step env s s' \<Longrightarrow> srv_reach env s'"

text \<open>A message in the queue came from a connection of the server that the peer has validated.\<close>

definition from_valid :: "('p, 's) file_server \<Rightarrow> owned_message \<Rightarrow> bool" where
  "from_valid s om \<longleftrightarrow> (\<exists>a < next_addr s. remote om = Some a \<and> m_validated (heap s a))"

definition sys_inv :: "('p, 's) server_env \<Rightarrow> ('p \<Rightarrow> bool) \<Rightarrow> ('s \<Rightarrow> bool) \<Rightarrow>
    owned_message tsqueue \<times> ('p, 's) file_server \<Rightarrow> bool" where
  "sys_inv env okp oks st \<longleftrightarrow> (case st of (q, s) \<Rightarrow>
     server_ok env okp oks s \<and> (\<forall>a. conn_inv (heap s a) \<and> m_owner_type (heap s a) = Server) \<and>
     (\<forall>om \<in> set (m_deq q). from_valid s om))"

lemma conn_step_server:
  assumes "conn_step a (c, q) e (c', q')" "conn_inv c" "m_owner_type c = Server"
  shows "conn_inv c' \<and> m_owner_type c' = Server \<and> (m_validated c \<longrightarrow> m_validated c') \<and>
    (m_deq q' = m_deq q \<or> (\<exists>m. m_deq q' = m_deq q @ [owned a c m] \<and> m_validated c))"
proof -
  have e: "conn_enabled e c" "conn_exec a e (c, q) = Some (c', q')"
    using assms(1) by (auto simp: conn_step_iff)
  have "conn_inv c'" by (rule conn_exec_keeps_inv[OF assms(2) e])
  moreover have "m_owner_type c' = Server" using server_step_frame[OF e(2) assms(3)] by simp
  moreover have v: "m_validated c" if "reading c = RHeader \<or> reading c = RBody"
    using that assms(2) by (auto simp: conn_inv_def read_inv_def)
  have mono: "m_validated c \<longrightarrow> m_validated c'"
    using e
    by (cases e) (auto simp: take_task_def conn_handler_defs Let_def readHeader_done_def readBody_done_def
        addToIncomingMessageQueue_def send_def disconnect_def disconnectAfterFlush_def
        split: if_splits option.splits list.splits elim!: run_task.elims)
  have "m_deq q' = m_deq q \<or> (\<exists>m. m_deq q' = m_deq q @ [owned a c m] \<and> m_validated c)"
  proof (cases e)
    case (HeaderRead r)
    then have f: "m_forming_in_message c = new_message" and "m_validated c"
      using e(1) v assms(2) by (auto simp: conn_inv_def read_inv_def)
    then show ?thesis using e(2) HeaderRead
      by (auto simp: readHeader_done_eq[OF f] split: option.splits if_splits)
  next
    case (BodyRead r)
    then show ?thesis using e v by (auto simp: readBody_done_eq split: option.splits)
  qed (use e(2) in \<open>auto split: prod.splits\<close>)
  ultimately show ?thesis using mono by blast
qed

lemma conn_inv_new: "conn_inv (new_connection Server b now)"
    "m_owner_type (new_connection Server b now) = Server"
  by (simp_all add: new_connection_def conn_inv_def write_inv_def read_inv_def Let_def)

lemma accept_frame:
  assumes "accept_done (file_server_hooks env) r s = Some s'"
  shows "m_storage s' = m_storage s \<and> m_max_chunk_size s' = m_max_chunk_size s \<and>
    (heap s' = heap s \<and> next_addr s' = next_addr s \<or>
     (\<exists>c. heap s' = (heap s)(next_addr s := c) \<and> next_addr s' = Suc (next_addr s) \<and>
       conn_inv c \<and> m_owner_type c = Server))"
proof (cases r)
  case None
  then show ?thesis using assms by (auto simp: accept_done_def waitForClientConnection_def)
next
  case (Some now)
  then obtain c where c: "server_start (m_id_counter s) now = Some c"
    and s': "heap s' = (heap s)(next_addr s := c)" "next_addr s' = Suc (next_addr s)"
      "m_storage s' = m_storage s" "m_max_chunk_size s' = m_max_chunk_size s"
    using assms
    by (auto simp: accept_done_def waitForClientConnection_def file_server_hooks_def server_start_def Let_def)
  have "conn_inv c" using c conn_inv_started by (auto simp: started_def)
  moreover have "m_owner_type c = Server"
    using c by (auto simp: server_start_def connectToClient_def new_connection_def conn_defs bind_eq_Some_conv)
  ultimately show ?thesis using s' by blast
qed

lemma from_valid_mono:
  assumes "from_valid s om" "next_addr s \<le> next_addr s'"
    and "\<And>a. a < next_addr s \<Longrightarrow> m_validated (heap s a) \<Longrightarrow> m_validated (heap s' a)"
  shows "from_valid s' om"
  using assms by (auto simp: from_valid_def)

context storage_env
begin

lemma sys_inv_start: "sys_inv env okp oks (new_queue, server_boot env True)"
proof -
  have "server_ok env okp oks (server_boot env True)"
    using server_ok_new by (simp add: server_ok_def server_boot_def start_def waitForClientConnection_def)
  moreover have "heap (server_boot env True) = (\<lambda>_. new_connection Server False 0)"
    by (simp add: server_boot_def start_def waitForClientConnection_def new_file_server_def base_init_def)
  ultimately show ?thesis by (simp add: sys_inv_def conn_inv_new)
qed

lemma sys_inv_handle:
  assumes "sys_inv env okp oks (q, s)" "pop_front q = Some (om, q')"
    and "onMessage (file_server_hooks env) (remote om) (owned_msg om) s = Some s'"
  shows "sys_inv env okp oks (q', s')"
proof -
  obtain a where h: "file_server_onMessage env a (owned_msg om) s = Some s'"
    using assms(3) by (auto simp: file_server_hooks_def bind_eq_Some_conv)
  have inv: "server_ok env okp oks s" "\<forall>a. conn_inv (heap s a) \<and> m_owner_type (heap s a) = Server"
    "\<forall>om \<in> set (m_deq q). from_valid s om" using assms(1) by (simp_all add: sys_inv_def)
  have c: "conn_inv (heap s' b) \<and> m_owner_type (heap s' b) = Server \<and>
      m_validated (heap s' b) = m_validated (heap s b)" for b
    using calls_handler[OF h] inv(2) owner_calls_inv unfolding calls_def by metis
  have "from_valid s' om'" if "om' \<in> set (m_deq q')" for om'
  proof (rule from_valid_mono)
    show "from_valid s om'" using that inv(3) assms(2) by (simp add: pop_front_eq_Some)
  qed (use next_addr_handler[OF h] c in simp_all)
  then show ?thesis using handler_ok[OF inv(1) h] c by (simp add: sys_inv_def)
qed

lemma sys_inv_step:
  assumes "sys_inv env okp oks st" "srv_step env st st'"
  shows "sys_inv env okp oks st'"
  using assms(2)
proof (cases rule: srv_step.cases)
  case (srv_accept s r s' q)
  have inv: "server_ok env okp oks s" "\<forall>a. conn_inv (heap s a) \<and> m_owner_type (heap s a) = Server"
    "\<forall>om \<in> set (m_deq q). from_valid s om" using assms(1) srv_accept by (simp_all add: sys_inv_def)
  note fr = accept_frame[OF srv_accept(4)]
  have "from_valid s' om" if "om \<in> set (m_deq q)" for om
    by (rule from_valid_mono[of s]) (use that inv(3) fr in auto)
  moreover have "server_ok env okp oks s'" using inv(1) fr by (simp add: server_ok_def)
  moreover have "\<forall>a. conn_inv (heap s' a) \<and> m_owner_type (heap s' a) = Server"
    using inv(2) fr by auto
  ultimately show ?thesis using srv_accept by (simp add: sys_inv_def)
next
  case (srv_net a s e q c q')
  have inv: "server_ok env okp oks s" "\<forall>a. conn_inv (heap s a) \<and> m_owner_type (heap s a) = Server"
    "\<forall>om \<in> set (m_deq q). from_valid s om" using assms(1) srv_net by (simp_all add: sys_inv_def)
  let ?s = "s\<lparr>heap := (heap s)(a := c)\<rparr>"
  have st: "conn_inv c \<and> m_owner_type c = Server \<and> (m_validated (heap s a) \<longrightarrow> m_validated c) \<and>
    (m_deq q' = m_deq q \<or> (\<exists>m. m_deq q' = m_deq q @ [owned a (heap s a) m] \<and> m_validated (heap s a)))"
    using conn_step_server[OF srv_net(5)] inv(2) by blast
  have old: "from_valid ?s om" if "om \<in> set (m_deq q)" for om
    by (rule from_valid_mono[of s]) (use that inv(3) st in auto)
  have new: "from_valid ?s (owned a (heap s a) m)" if "m_validated (heap s a)" for m
    using that srv_net(3) st inv(2) by (auto simp: from_valid_def owned_def)
  have "server_ok env okp oks ?s" using inv(1) by (simp add: server_ok_def)
  then show ?thesis using srv_net(2) inv(2) st old new by (auto simp: sys_inv_def)
next
  case (srv_handle q om q' s s')
  then show ?thesis using sys_inv_handle assms(1) by blast
qed

lemma sys_inv_reach: "srv_reach env st \<Longrightarrow> sys_inv env okp oks st"
  by (induction rule: srv_reach.induct) (auto intro: sys_inv_start sys_inv_step)

text \<open>With the invariant every pending sender found by its phrase has its context.\<close>

lemma pending_context:
  assumes "server_ok env okp oks s" "getSenderByCode env cd (m_storage s) = Some a"
  obtains ctx where "getContextBySender a (m_storage s) = Some ctx"
    "code (pre_code_phrase (pre_metadata ctx)) = cd" "ctx = context_of 512 (pre_metadata ctx)"
proof -
  note ok = server_okD(2)[OF assms(1)]
  have "getCodeBySender env a (m_storage s) = Some cd" using codes_agree[OF ok] assms(2) by simp
  from storage_okD(3)[OF ok this] obtain ctx where
    c: "getContextBySender a (m_storage s) = Some ctx" "code (pre_code_phrase (pre_metadata ctx)) = cd"
    by blast
  show ?thesis by (rule that[OF c storage_okD(4)[OF ok c(1)]])
qed

end

section \<open>Effects of the handlers\<close>

lemma chunk_size_test:
  assumes "n < 2 ^ 64"
  shows "(word_of_nat n :: u64) - word_of_nat sha256_digest_length > 512 \<longleftrightarrow> n < 32 \<or> 544 < n"
proof -
  have u: "unat (word_of_nat n :: u64) = n"
    using assms by (simp add: unat_of_nat take_bit_eq_mod)
  have "unat ((word_of_nat n :: u64) - 32) = (if 32 \<le> n then n - 32 else n + 2 ^ 64 - 32)"
    using u by (simp add: unat_sub_if' word_le_nat_alt)
  then show ?thesis using assms
    by (auto simp: word_less_nat_alt sha256_digest_length_def)
qed

definition abort_to :: "('p, 's) server_env \<Rightarrow> nat \<Rightarrow> heap \<Rightarrow> heap" where
  "abort_to env sink h = h(sink := snd (send (encode Abort (empty_payload env)) (h sink)))"

definition close_after :: "nat \<Rightarrow> heap \<Rightarrow> heap" where
  "close_after a h = h(a := disconnectAfterFlush (h a))"

text \<open>\<open>gone a s\<close>: nothing is stored about \<open>a\<close> as a sender.\<close>

definition gone :: "('p, 's) server_env \<Rightarrow> nat \<Rightarrow> ('p, 's) client_storage \<Rightarrow> bool" where
  "gone env a st \<longleftrightarrow> getSessionBySender a st = None \<and> getReceiverBySender env a st = None \<and>
     getCodeBySender env a st = None \<and> getContextBySender a st = None"

text \<open>Which connections an operation can touch.\<close>

lemma run_session_touches: "heap (snd (run_session m ss s)) x \<noteq> heap s x \<Longrightarrow> x = m_sink ss"
  by (cases ss) (auto simp: run_session_def send_to_def split: prod.splits if_splits)

lemma abrupt_touches:
  "heap (removeSessionAbruptly env b s) x \<noteq> heap s x \<Longrightarrow>
     x = b \<or> (\<exists>ss. getSessionBySender b (m_storage s) = Some ss \<and> x = m_sink ss)"
  by (auto simp: removeSessionAbruptly_def Let_def dest: run_session_touches split: option.splits if_splits)

lemma sessioned_touches:
  assumes "heap (onSessionedMessage env a ss m s) x \<noteq> heap s x"
    and "getSessionBySender a (m_storage s) = Some ss"
  shows "x = a \<or> x = m_sink ss"
proof -
  obtain ok s1 where r: "run_session m ss s = (ok, s1)" by fastforce
  have s1: "m_storage s1 = m_storage s" "heap s1 x \<noteq> heap s x \<Longrightarrow> x = m_sink ss"
    using run_session_frame(1)[of m ss s] run_session_touches[of m ss s x] r by simp_all
  have "heap (removeSessionAbruptly env a s) x \<noteq> heap s x \<Longrightarrow> x = a \<or> x = m_sink ss"
    "heap (removeSessionAbruptly env a s1) x \<noteq> heap s1 x \<Longrightarrow> x = a \<or> x = m_sink ss"
    using abrupt_touches[of env a s x] abrupt_touches[of env a s1 x] assms(2) s1(1) by auto
  then show ?thesis using assms(1) s1(2)
    by (auto simp: onSessionedMessage_def r split: if_splits) fastforce+
qed

context storage_env
begin

lemma gone_drop:
  assumes "server_ok env okp oks s"
  shows "gone env a (m_storage (drop_session env a (drop_pending env a s)))"
proof -
  note ok = server_okD(2)[OF assms]
  note ok' = removePendingSender_ok[OF ok, of a]
  show ?thesis by (simp add: gone_def find_simps(3)[OF ok'] find_simps(1)[OF ok])
qed

lemma abrupt_effect:
  assumes "server_ok env okp oks s"
    and "getSessionBySender a (m_storage s) = Some (ServerOneToOneRetranslatorSession fs mx sink)"
  shows "heap (removeSessionAbruptly env a s) = close_after a (abort_to env sink (heap s))"
    and "gone env a (m_storage (removeSessionAbruptly env a s))"
proof -
  let ?s = "s\<lparr>heap := (heap s)(sink := snd (send (encode Abort (empty_payload env)) (heap s sink)))\<rparr>"
  have e: "removeSessionAbruptly env a s = drop_session env a (drop_pending env a ?s)"
    using assms(2) by (simp add: removeSessionAbruptly_def run_retranslator)
  show "heap (removeSessionAbruptly env a s) = close_after a (abort_to env sink (heap s))"
    unfolding e by (simp add: abort_to_def close_after_def)
  have "server_ok env okp oks ?s" using assms(1) by (simp add: server_ok_def)
  from gone_drop[OF this] show "gone env a (m_storage (removeSessionAbruptly env a s))" unfolding e .
qed

lemma chunk_effect:
  assumes "server_ok env okp oks s" "msg_size m < 2 ^ 64" "has_type m Chunk"
    and ss: "getSessionBySender a (m_storage s) = Some (ServerOneToOneRetranslatorSession fs mx sink)"
    and "file_server_onMessage env a m s = Some s'"
  shows "if 32 \<le> msg_size m \<and> msg_size m \<le> 544 \<and> fst (send m (heap s sink))
    then s' = s\<lparr>heap := (heap s)(sink := snd (send m (heap s sink)))\<rparr>
    else s' = removeSessionAbruptly env a s"
proof -
  have s': "s' = onSessionedMessage env a (ServerOneToOneRetranslatorSession fs mx sink) m s"
    using assms(5) ss by (simp add: file_server_onMessage_def)
  have "s\<lparr>heap := (heap s)(sink := snd (send m (heap s sink)))\<rparr> = s" if "\<not> fst (send m (heap s sink))"
    using that by (simp add: snd_send)
  then show ?thesis unfolding s'
    using assms(3) chunk_size_test[OF assms(2)] server_okD(1)[OF assms(1)]
    by (auto simp: onSessionedMessage_def run_retranslator has_type_unique)
qed

lemma start_effect:
  assumes "server_ok env okp oks s" "getSessionBySender a (m_storage s) = None"
    and "has_type m Receive" "get_CodePhrase init_CodePhrase m = Some (c, m')"
    and "getSenderByCode env (code c) (m_storage s) = Some b"
  obtains ctx where "getContextBySender b (m_storage s) = Some ctx"
    "file_server_onMessage env a m s = Some (send_via b (encode Accept (PPost (post_metadata ctx)))
       (s\<lparr>m_storage := addSession env b a (new_retranslator
          (file_size (pre_file_data (pre_metadata ctx))) 512 a) (m_storage s)\<rparr>))"
proof -
  obtain ctx where ctx: "getContextBySender b (m_storage s) = Some ctx"
    using pending_context[OF assms(1,5)] by blast
  show ?thesis
    by (rule that[OF ctx])
      (simp add: file_server_onMessage_def assms has_type_unique[OF assms(3)]
        establishTransmissionSession_def ctx server_okD(1)[OF assms(1)])
qed

end

section \<open>A server for the examples\<close>

text \<open>Four validated clients: 0 and 1 offer files under the phrases \<open>a\<close> and \<open>b\<close>; 2 receives \<open>a\<close>
  and then \<open>b\<close>; 3 receives \<open>b\<close>.\<close>

definition demo_server :: "((nat \<times> string) list, (nat \<times> nat) list) file_server" where
  "demo_server = (new_file_server alist_env)
     \<lparr>heap := (\<lambda>_. (new_connection Server True 0)\<lparr>m_validated := True,
        m_handshake_in := obfuscate 0, reading := RHeader\<rparr>), next_addr := 4\<rparr>"

definition phrase :: "string \<Rightarrow> CodePhrase" where
  "phrase c = \<lparr>code_size = word_of_nat (length c), code = c\<rparr>"

definition offer :: "string \<Rightarrow> PreMetadata" where
  "offer c = \<lparr>pre_payload_type = 0, pre_code_phrase = phrase c,
     pre_file_data = \<lparr>file_size = 3, file_name_size = 1, file_name = ''f''\<rparr>\<rparr>"

definition msg_from :: "nat \<Rightarrow> message \<Rightarrow> owned_message" where
  "msg_from a m = \<lparr>remote = Some a, owned_msg = m\<rparr>"

definition demo_history :: "owned_message list" where
  "demo_history = [msg_from 0 (encode Send (PPre (offer ''a''))), msg_from 1 (encode Send (PPre (offer ''b''))),
     msg_from 2 (encode Receive (PCode (phrase ''a''))), msg_from 2 (encode Receive (PCode (phrase ''b''))),
     msg_from 3 (encode Receive (PCode (phrase ''b'')))]"

definition demo_after :: "nat \<Rightarrow> ((nat \<times> string) list, (nat \<times> nat) list) file_server" where
  "demo_after n = (case handle_all (file_server_hooks alist_env) (take n demo_history) demo_server of
     Some s \<Rightarrow> s | None \<Rightarrow> demo_server)"

lemma alist_storage_env: "storage_env alist_env alist_ok alist_ok"
  by (rule alist_storage.storage_env_axioms)

lemma handle_all_ok:
  assumes "storage_env env okp oks" "server_ok env okp oks s"
    and "handle_all (file_server_hooks env) oms s = Some s'"
  shows "server_ok env okp oks s'"
  using assms(2,3)
proof (induction oms arbitrary: s)
  case Nil
  then show ?case by simp
next
  case (Cons om oms)
  then obtain a s1 where "file_server_onMessage env a (owned_msg om) s = Some s1"
    "handle_all (file_server_hooks env) oms s1 = Some s'"
    by (auto simp: file_server_hooks_def bind_eq_Some_conv)
  then show ?case using Cons.IH storage_env.handler_ok[OF assms(1) Cons.prems(1)] by blast
qed

lemma demo_after_ok: "server_ok alist_env alist_ok alist_ok (demo_after n)"
proof -
  have "server_ok alist_env alist_ok alist_ok demo_server"
    using storage_env.server_ok_new[OF alist_storage_env] by (simp add: server_ok_def demo_server_def)
  then show ?thesis
    using handle_all_ok[OF alist_storage_env] by (auto simp: demo_after_def split: option.split)
qed

lemma demo_sessions:
  "getSessionBySender 0 (m_storage (demo_after 3)) = Some (ServerOneToOneRetranslatorSession 3 512 2)"
  "getSessionBySender 2 (m_storage (demo_after 3)) = None"
  "getSenderByReceiver alist_env 2 (m_storage (demo_after 3)) = Some 0"
  "getSenderByCode alist_env ''b'' (m_storage (demo_after 3)) = Some 1"
  by code_simp+

lemma demo_conn: "m_validated (heap (demo_after 3) 2) \<and> isConnected (heap (demo_after 3) 2)"
  by code_simp

text \<open>What registering a sender does to the phrases: the sender gives up its old one, and takes the
  new one unless another client holds it.\<close>

lemma code_after_remove:
  assumes "storage_env env okp oks" and "storage_ok env okp oks k st"
  shows "getSenderByCode env cd (removePendingSender env a st) =
    (case getSenderByCode env cd st of None \<Rightarrow> None | Some b \<Rightarrow> if b = a then None else Some b)"
    (is "?l = ?r")
proof (rule option_eqI)
  fix v
  have "?r = Some v \<longleftrightarrow> getSenderByCode env cd st = Some v \<and> v \<noteq> a"
    by (auto split: option.splits if_splits)
  then show "?l = Some v \<longleftrightarrow> ?r = Some v"
    by (simp add: storage_env.find_simps(1)[OF assms] storage_env.codes_agree[OF assms]
        storage_env.codes_agree[OF assms(1) storage_env.removePendingSender_ok[OF assms]])
qed

lemma register_codes:
  fixes a :: nat
  assumes "storage_env env okp oks" and "server_ok env okp oks s" and "wf_PreMetadata pre"
  defines "cd \<equiv> code (pre_code_phrase pre)" and "st \<equiv> m_storage (register env a pre s)"
  shows "case getSenderByCode env cd (m_storage s) of
      None \<Rightarrow> getSenderByCode env cd st = Some a
    | Some b \<Rightarrow> getSenderByCode env cd st = Some b \<and> (b = a \<or> getCodeBySender env a st = None)"
proof -
  note ok = server_okD(2)[OF assms(2)]
  note ok1 = storage_env.removePendingSender_ok[OF assms(1) ok, of a]
  note ok2 = server_okD(2)[OF storage_env.register_ok[OF assms(1-3)]]
  note agree = storage_env.codes_agree[OF assms(1)]
  note find = storage_env.find_simps[OF assms(1)]
  note code1 = code_after_remove[OF assms(1) ok, of cd a]
  have new: "getCodeBySender env b st =
      (if getSenderByCode env cd (removePendingSender env a (m_storage s)) = None \<and> b = a then Some cd
       else if b = a then None else getCodeBySender env b (m_storage s))" for b
    by (simp add: find(2)[OF ok1] find(1)[OF ok] cd_def st_def)
  show ?thesis
  proof (cases "getSenderByCode env cd (m_storage s)")
    case None
    then have "getCodeBySender env a st = Some cd" using new[of a] code1 by simp
    then show ?thesis unfolding None using agree[OF ok2] by (simp add: st_def)
  next
    case (Some b)
    have b: "getCodeBySender env b (m_storage s) = Some cd" using Some agree[OF ok] by simp
    have "getCodeBySender env b st = Some cd \<and> (b = a \<or> getCodeBySender env a st = None)"
      using new[of a] new[of b] code1 Some b by (cases "b = a") simp_all
    then show ?thesis unfolding Some using agree[OF ok2] by (auto simp: st_def)
  qed
qed

section \<open>Properties\<close>

text \<open>C5: The server's invariant holds in every reachable state, under any interleaving of accepts,
  network events on any connection and handled messages: a registered code phrase belongs to a sender
  with a context for that very phrase, every announced chunk size is 512, a sender paired with a
  receiver has a session, every session relays with the limit 512, every connection keeps its own
  invariant, and every message waiting to be handled came from a connection that has answered
  the server's challenge.\<close>

theorem server_invariant:
  assumes "storage_env env okp oks" and "srv_reach env (q, s)"
  shows "storage_ok env okp oks 512 (m_storage s) \<and> m_max_chunk_size s = 512 \<and>
    (\<forall>a ss. getSessionBySender a (m_storage s) = Some ss \<longrightarrow>
       (\<exists>fs sink. ss = ServerOneToOneRetranslatorSession fs 512 sink)) \<and>
    (\<forall>a. conn_inv (heap s a)) \<and>
    (\<forall>om \<in> set (m_deq q). \<exists>a. remote om = Some a \<and> isValidated (heap s a))"
  using storage_env.sys_inv_reach[OF assms]
  by (auto simp: sys_inv_def server_ok_def from_valid_def isValidated_def)

theorem server_invariant_witness:
  "storage_ok alist_env alist_ok alist_ok 512 (m_storage (server_boot alist_env True))"
  using server_invariant[OF alist_storage_env srv_start] by blast

text \<open>C33: The handlers are undefined only on a short body: in a reachable state, a message
  from a client without a session is handled unless it is a \<open>Send\<close> or \<open>RequestReceive\<close> whose
  body cannot be read as \<open>PreMetadata\<close>, or a \<open>Receive\<close> with an empty body, where the code reads
  out of bounds; a message from a client with a session is always handled.\<close>

theorem server_undefined_only_short:
  "file_server_onMessage env a m s = None \<longleftrightarrow>
     getSessionBySender a (m_storage s) = None \<and>
     ((has_type m Send \<or> has_type m RequestReceive) \<and> get_PreMetadata init_PreMetadata m = None \<or>
      has_type m Receive \<and> body m = [])"
proof (cases "getSessionBySender a (m_storage s)")
  case (Some ss)
  then show ?thesis by (simp add: file_server_onMessage_def)
next
  case None
  have "onReceiveEstablishment env a m s = None \<longleftrightarrow> get_PreMetadata init_PreMetadata m = None"
    by (auto simp: onReceiveEstablishment_def split: option.splits)
  moreover have "establishTransmissionSession env a m s = None \<longleftrightarrow> body m = []"
    using get_CodePhrase_None_iff[of init_CodePhrase m]
    by (auto simp: establishTransmissionSession_def Let_def split: option.splits)
  ultimately show ?thesis using None
    by (auto simp: file_server_onMessage_def onSend_eq has_type_unique split: option.splits)
qed

text \<open>C15: Handling a message touches only the connections it is about: the client itself, the
  connection its session relays to, the sender paired with it and that sender's sink, and the sender
  whose code phrase a \<open>Receive\<close> names. Every other connection is left as it was.\<close>

theorem handler_isolation:
  assumes "storage_env env okp oks" and "server_ok env okp oks s"
    and "file_server_onMessage env a m s = Some s'" and "heap s' x \<noteq> heap s x"
  shows "x = a \<or>
    (\<exists>ss. getSessionBySender a (m_storage s) = Some ss \<and> x = m_sink ss) \<or>
    (\<exists>b. getSenderByReceiver env a (m_storage s) = Some b \<and>
       (x = b \<or> (\<exists>ss. getSessionBySender b (m_storage s) = Some ss \<and> x = m_sink ss))) \<or>
    (\<exists>c m'. has_type m Receive \<and> get_CodePhrase init_CodePhrase m = Some (c, m') \<and>
       getSenderByCode env (code c) (m_storage s) = Some x)"
proof -
  note ok = server_okD(2)[OF assms(2)]
  show ?thesis
    using assms(3)
  proof (cases rule: handler_cases)
    case (sessioned ss)
    then show ?thesis using sessioned_touches[of env a ss m s x] assms(4) by auto
  next
    case (no_context c m' sender)
    then show ?thesis using storage_env.pending_context[OF assms(1,2)] by (metis option.distinct(1))
  next
    case (failed sender)
    then show ?thesis using abrupt_touches[of env sender s x] assms(4) by auto
  qed (use assms(4) in \<open>auto simp: finishSession_def Let_def split: option.splits if_splits\<close>)
qed

theorem handler_isolation_witness:
  "\<exists>s'. file_server_onMessage alist_env 2 (encode Receive (PCode (phrase ''b''))) (demo_after 3) = Some s' \<and>
     heap s' 3 = heap (demo_after 3) 3"
proof -
  have g: "get_CodePhrase init_CodePhrase (encode Receive (PCode (phrase ''b''))) =
      Some (phrase ''b'', set_id (mt_code Receive) new_message)"
    by code_simp
  have "code (phrase ''b'') = ''b''" by (simp add: phrase_def)
  then obtain ctx s' where s': "file_server_onMessage alist_env 2 (encode Receive (PCode (phrase ''b'')))
      (demo_after 3) = Some s'"
    using storage_env.start_effect[OF alist_storage_env demo_after_ok demo_sessions(2) _ g] demo_sessions(4)
    by (metis encode_simps(3))
  have "heap s' 3 = heap (demo_after 3) 3"
    using handler_isolation[OF alist_storage_env demo_after_ok s', of 3] demo_sessions g
    by (auto simp: phrase_def)
  then show ?thesis using s' by blast
qed

text \<open>C6: A \<open>Chunk\<close> from a client with a session is passed on to the session's sink, unchanged, exactly
  when its body holds a digest and at most 512 bytes of data and the sink takes it; nothing else in
  the server changes. In every other case (too long, too short: the unsigned size test wraps; or
  the sink is closed) the session is torn down: the sink is sent \<open>Abort\<close>, everything stored about
  the sender is removed, and the sender is only closed after its own queue, without an \<open>Abort\<close>.\<close>

theorem chunk_relayed_or_aborted:
  assumes "storage_env env okp oks" and "server_ok env okp oks s" and "msg_size m < 2 ^ 64"
    and "has_type m Chunk"
    and "getSessionBySender a (m_storage s) = Some (ServerOneToOneRetranslatorSession fs mx sink)"
    and "file_server_onMessage env a m s = Some s'"
  shows "if 32 \<le> msg_size m \<and> msg_size m \<le> 544 \<and> fst (send m (heap s sink))
    then s' = s\<lparr>heap := (heap s)(sink := snd (send m (heap s sink)))\<rparr>
    else gone env a (m_storage s') \<and> heap s' = close_after a (abort_to env sink (heap s))"
  using storage_env.chunk_effect[OF assms(1,2,3,4,5,6)] storage_env.abrupt_effect[OF assms(1,2,5)] by auto

theorem chunk_relayed_or_aborted_witness:
  "\<exists>s'. file_server_onMessage alist_env 0 (chunk_message [] []) (demo_after 3) = Some s' \<and>
     gone alist_env 0 (m_storage s') \<and>
     heap s' = close_after 0 (abort_to alist_env 2 (heap (demo_after 3)))"
proof -
  obtain s' where s': "file_server_onMessage alist_env 0 (chunk_message [] []) (demo_after 3) = Some s'"
    using demo_sessions(1) by (simp add: file_server_onMessage_def)
  show ?thesis
    using chunk_relayed_or_aborted[OF alist_storage_env demo_after_ok _ _ demo_sessions(1) s'] s'
    by (simp add: msg_size_def)
qed

text \<open>C14: When the receiver paired with a sender reports \<open>FinishReceive\<close>, the sender is sent \<open>Success\<close>,
  everything stored about it is removed, and its connection is told to close after the flush, in
  that order: on an open validated connection the \<open>Success\<close> is posted right before the closing task.\<close>

theorem finish_confirms_sender:
  assumes "storage_env env okp oks" and "server_ok env okp oks s"
    and "getSessionBySender a (m_storage s) = None" and "has_type m FinishReceive"
    and "getSenderByReceiver env a (m_storage s) = Some b"
  shows "\<exists>s'. file_server_onMessage env a m s = Some s' \<and> gone env b (m_storage s') \<and>
    (\<forall>x. x \<noteq> b \<longrightarrow> heap s' x = heap s x) \<and>
    tasks (heap s' b) = tasks (heap s b) @
      (if isValidated (heap s b) \<and> isConnected (heap s b)
       then [TaskSend (encode Success (empty_payload env))] else []) @ [TaskCloseAfterFlush]"
proof -
  let ?s = "send_via b (encode Success (empty_payload env)) s"
  let ?s' = "drop_session env b (drop_pending env b ?s)"
  have "file_server_onMessage env a m s = Some ?s'"
    using assms(3,5) by (simp add: file_server_onMessage_def has_type_unique[OF assms(4)] finishSession_def)
  moreover have "gone env b (m_storage ?s')"
    using storage_env.gone_drop[OF assms(1), of ?s b] assms(2) by simp
  moreover have "heap ?s' x = heap s x" if "x \<noteq> b" for x using that by simp
  moreover have "tasks (heap ?s' b) = tasks (heap s b) @
      (if isValidated (heap s b) \<and> isConnected (heap s b)
       then [TaskSend (encode Success (empty_payload env))] else []) @ [TaskCloseAfterFlush]"
    by (simp add: disconnectAfterFlush_def send_def isValidated_def)
  ultimately show ?thesis by blast
qed

theorem finish_confirms_sender_witness:
  "\<exists>s'. file_server_onMessage alist_env 2 (encode FinishReceive (empty_payload alist_env)) (demo_after 3) =
     Some s' \<and> gone alist_env 0 (m_storage s')"
  using finish_confirms_sender[OF alist_storage_env demo_after_ok demo_sessions(2) _ demo_sessions(3),
      of "encode FinishReceive (empty_payload alist_env)"]
  by auto

text \<open>C21: A \<open>Send\<close> request from a client without a session gets no answer when it is handled (the
  repository's sequence diagram shows one), and replaces what the client had pending. If no other client
  holds its code phrase, the client is found by it from then on; if another one does, the request is
  dropped silently: the phrase stays with the other client and no message tells the new one.\<close>

theorem send_request_effect:
  assumes "storage_env env okp oks" and "server_ok env okp oks s"
    and "getSessionBySender a (m_storage s) = None" and "has_type m Send"
    and "get_PreMetadata init_PreMetadata m = Some (pre, m')"
    and "cd = code (pre_code_phrase pre)"
  shows "\<exists>s'. file_server_onMessage env a m s = Some s' \<and> heap s' = heap s \<and>
    getContextBySender a (m_storage s') = Some (context_of 512 pre) \<and>
    (case getSenderByCode env cd (m_storage s) of
       None \<Rightarrow> getSenderByCode env cd (m_storage s') = Some a
     | Some b \<Rightarrow> getSenderByCode env cd (m_storage s') = Some b \<and>
         (if b = a then True else getCodeBySender env a (m_storage s') = None))"
proof -
  have wf: "wf_PreMetadata pre" using get_PreMetadata_wf[OF assms(5)] .
  have "file_server_onMessage env a m s = Some (register env a pre s)"
    using assms(3,5) by (simp add: file_server_onMessage_def has_type_unique[OF assms(4)] onSend_eq)
  moreover have "getContextBySender a (m_storage (register env a pre s)) = Some (context_of 512 pre)"
    using server_okD(1)[OF assms(2)] by simp
  ultimately show ?thesis using register_codes[OF assms(1,2) wf, of a] assms(6)
    by (auto split: option.splits)
qed

theorem send_request_effect_witness:
  "\<exists>s'. file_server_onMessage alist_env 3 (encode Send (PPre (offer ''a''))) (demo_after 3) = Some s' \<and>
     getCodeBySender alist_env 3 (m_storage s') = None \<and> heap s' = heap (demo_after 3)"
proof -
  have "getSessionBySender 3 (m_storage (demo_after 3)) = None"
    "getSenderByCode alist_env ''a'' (m_storage (demo_after 3)) = Some 0" by code_simp+
  moreover have "get_PreMetadata init_PreMetadata (encode Send (PPre (offer ''a''))) =
      Some (offer ''a'', set_id (mt_code Send) new_message)" by code_simp
  ultimately show ?thesis
    using send_request_effect[OF alist_storage_env demo_after_ok, of 3 3 "encode Send (PPre (offer ''a''))"
        "offer ''a''" "set_id (mt_code Send) new_message" "''a''"]
    by (auto simp: offer_def phrase_def)
qed

text \<open>C20: A \<open>RequestReceive\<close> is answered at once: with \<open>Reject\<close> when nobody holds the phrase, and
  otherwise with an \<open>Accept\<close> that the receiver decodes to what the sender announced (phrase, file
  data, payload type) and the server's limit of 512 bytes per chunk. Nothing is stored.\<close>

theorem receive_request_answered:
  assumes "storage_env env okp oks" and "server_ok env okp oks s"
    and "getSessionBySender a (m_storage s) = None" and "has_type m RequestReceive"
    and "get_PreMetadata init_PreMetadata m = Some (req, m')"
  shows "case getSenderByCode env (code (pre_code_phrase req)) (m_storage s) of
      None \<Rightarrow> file_server_onMessage env a m s = Some (send_via a (encode Reject (empty_payload env)) s)
    | Some b \<Rightarrow> (\<exists>pre reply m''. getContextBySender b (m_storage s) = Some (context_of 512 pre) \<and>
        code (pre_code_phrase pre) = code (pre_code_phrase req) \<and>
        file_server_onMessage env a m s = Some (send_via a reply s) \<and> has_type reply Accept \<and>
        decode Accept reply = Some (PPost \<lparr>post_payload_type = pre_payload_type pre, max_chunk_size = 512,
          post_code_phrase = pre_code_phrase pre, post_file_data = pre_file_data pre\<rparr>, m''))"
proof (cases "getSenderByCode env (code (pre_code_phrase req)) (m_storage s)")
  case None
  then show ?thesis
    using assms(3,5) by (simp add: file_server_onMessage_def has_type_unique[OF assms(4)] onReceiveEstablishment_def)
next
  case (Some b)
  from storage_env.pending_context[OF assms(1,2) Some] obtain ctx where
    ctx: "getContextBySender b (m_storage s) = Some ctx"
    "code (pre_code_phrase (pre_metadata ctx)) = code (pre_code_phrase req)"
    "ctx = context_of 512 (pre_metadata ctx)" .
  have wf: "wf_payload (PPost (post_metadata ctx))"
    using server_okD(4)[OF assms(2) ctx(1)] ctx(3)
    by (metis context_of_def PostMetadata.select_convs(3,4) TransmissionContext.select_convs(2)
        wf_PostMetadata_def wf_PreMetadata_def wf_payload.simps(1))
  have post: "post_metadata ctx = \<lparr>post_payload_type = pre_payload_type (pre_metadata ctx), max_chunk_size = 512,
      post_code_phrase = pre_code_phrase (pre_metadata ctx), post_file_data = pre_file_data (pre_metadata ctx)\<rparr>"
    by (subst ctx(3)) (simp add: context_of_def)
  have "file_server_onMessage env a m s = Some (send_via a (encode Accept (PPost (post_metadata ctx))) s)"
    using assms(3,5) Some ctx(1)
    by (simp add: file_server_onMessage_def has_type_unique[OF assms(4)] onReceiveEstablishment_def)
  moreover have "decode Accept (encode Accept (PPost (post_metadata ctx))) =
      Some (PPost (post_metadata ctx), set_id (mt_code Accept) new_message)"
    using decode_encode[OF wf, of Accept] by simp
  ultimately show ?thesis unfolding Some option.case
    using ctx post encode_simps(3) by metis
qed

theorem receive_request_answered_witness:
  "\<exists>reply m'. file_server_onMessage alist_env 3 (encode RequestReceive (PPre (offer ''b''))) (demo_after 3) =
       Some (send_via 3 reply (demo_after 3)) \<and>
     decode Accept reply = Some (PPost \<lparr>post_payload_type = 0, max_chunk_size = 512,
       post_code_phrase = phrase ''b'', post_file_data = pre_file_data (offer ''b'')\<rparr>, m')"
proof -
  have 1: "getSessionBySender 3 (m_storage (demo_after 3)) = None"
    and 2: "getContextBySender 1 (m_storage (demo_after 3)) = Some (context_of 512 (offer ''b''))"
    and 3: "get_PreMetadata init_PreMetadata (encode RequestReceive (PPre (offer ''b''))) =
      Some (offer ''b'', set_id (mt_code RequestReceive) new_message)" by code_simp+
  have "getSenderByCode alist_env (code (pre_code_phrase (offer ''b''))) (m_storage (demo_after 3)) = Some 1"
    using demo_sessions(4) by (simp add: offer_def phrase_def)
  with receive_request_answered[OF alist_storage_env demo_after_ok 1 _ 3] 2 obtain pre reply m' where
    "context_of 512 (offer ''b'') = context_of 512 pre"
    "file_server_onMessage alist_env 3 (encode RequestReceive (PPre (offer ''b''))) (demo_after 3) =
       Some (send_via 3 reply (demo_after 3))"
    "decode Accept reply = Some (PPost \<lparr>post_payload_type = pre_payload_type pre, max_chunk_size = 512,
          post_code_phrase = pre_code_phrase pre, post_file_data = pre_file_data pre\<rparr>, m')"
    by auto
  moreover from this(1) have "pre = offer ''b''" by (metis pre_context_of)
  ultimately show ?thesis by (auto simp: offer_def)
qed

text \<open>C13: A \<open>Receive\<close> with the phrase of a sender that has no session yet, from a receiver not paired
  with anyone, starts the transfer: the session relays from that sender to that receiver with the
  announced size, the pair is registered, and only the sender is sent something, the \<open>Accept\<close>. With an
  unknown phrase the receiver is sent \<open>Abort\<close> and nothing is stored.\<close>

theorem receive_starts_session:
  assumes "storage_env env okp oks" and "server_ok env okp oks s"
    and "getSessionBySender a (m_storage s) = None" and "has_type m Receive"
    and "get_CodePhrase init_CodePhrase m = Some (c, m')"
  shows "case getSenderByCode env (code c) (m_storage s) of
      None \<Rightarrow> file_server_onMessage env a m s = Some (send_via a (encode Abort (empty_payload env)) s)
    | Some b \<Rightarrow> (\<exists>pre s'. getContextBySender b (m_storage s) = Some (context_of 512 pre) \<and>
        file_server_onMessage env a m s = Some s' \<and>
        heap s' = (heap s)(b := snd (send (encode Accept (PPost (post_metadata (context_of 512 pre)))) (heap s b))) \<and>
        (if getSessionBySender b (m_storage s) = None \<and> getSenderByReceiver env a (m_storage s) = None
         then getReceiverBySender env b (m_storage s') = Some a \<and>
           getSessionBySender b (m_storage s') =
             Some (ServerOneToOneRetranslatorSession (file_size (pre_file_data pre)) 512 a)
         else True))"
proof (cases "getSenderByCode env (code c) (m_storage s)")
  case None
  then show ?thesis
    using assms(3,5)
    by (simp add: file_server_onMessage_def has_type_unique[OF assms(4)] establishTransmissionSession_def)
next
  case (Some b)
  note ok = server_okD(2)[OF assms(2)]
  from storage_env.start_effect[OF assms(1-5) Some] obtain ctx where
    ctx: "getContextBySender b (m_storage s) = Some ctx"
    and s': "file_server_onMessage env a m s = Some (send_via b (encode Accept (PPost (post_metadata ctx)))
       (s\<lparr>m_storage := addSession env b a (new_retranslator
          (file_size (pre_file_data (pre_metadata ctx))) 512 a) (m_storage s)\<rparr>))" .
  have "getReceiverBySender env b (m_storage s) = None" if "getSessionBySender b (m_storage s) = None"
    using storage_okD(5)[OF ok, of b] that by (cases "getReceiverBySender env b (m_storage s)") auto
  then show ?thesis unfolding Some option.case using s' ctx storage_okD(4)[OF ok ctx]
    by (intro exI[of _ "pre_metadata ctx"] exI conjI, assumption?)
      (auto simp: storage_env.find_simps(4)[OF assms(1) ok] new_retranslator_def)
qed

lemma get_phrase_b: "get_CodePhrase init_CodePhrase (encode Receive (PCode (phrase ''b''))) =
    Some (phrase ''b'', set_id (mt_code Receive) new_message)"
  by code_simp

lemma code_phrase [simp]: "code (phrase c) = c"
  by (simp add: phrase_def)

theorem receive_starts_session_witness:
  "\<exists>s'. file_server_onMessage alist_env 3 (encode Receive (PCode (phrase ''b''))) (demo_after 3) = Some s' \<and>
     getReceiverBySender alist_env 1 (m_storage s') = Some 3 \<and>
     (\<exists>fs. getSessionBySender 1 (m_storage s') = Some (ServerOneToOneRetranslatorSession fs 512 3))"
proof -
  have "getSessionBySender 3 (m_storage (demo_after 3)) = None"
    "getSessionBySender 1 (m_storage (demo_after 3)) = None"
    "getSenderByReceiver alist_env 3 (m_storage (demo_after 3)) = None" by code_simp+
  then show ?thesis
    using receive_starts_session[OF alist_storage_env demo_after_ok _ _ get_phrase_b, of 3 3] demo_sessions(4)
    by auto
qed

text \<open>A second \<open>Receive\<close> for a sender whose transfer is running changes neither its session nor
  whom it is paired with, if it is; the sender is sent one more \<open>Accept\<close>, and the second
  receiver is sent nothing at all, so it waits without end.\<close>

theorem second_receiver_left_waiting:
  assumes "storage_env env okp oks" and "server_ok env okp oks s"
    and "getSessionBySender a (m_storage s) = None" and "has_type m Receive"
    and "get_CodePhrase init_CodePhrase m = Some (c, m')"
    and "getSenderByCode env (code c) (m_storage s) = Some b" and "a \<noteq> b"
    and "getSessionBySender b (m_storage s) = Some ss"
    and "getReceiverBySender env b (m_storage s) = Some r"
  shows "\<exists>s'. file_server_onMessage env a m s = Some s' \<and> heap s' a = heap s a \<and>
    getSessionBySender b (m_storage s') = Some ss \<and> getReceiverBySender env b (m_storage s') = Some r"
proof -
  from storage_env.start_effect[OF assms(1-6)] obtain ctx where
    "getContextBySender b (m_storage s) = Some ctx" and
    "file_server_onMessage env a m s = Some (send_via b (encode Accept (PPost (post_metadata ctx)))
       (s\<lparr>m_storage := addSession env b a (new_retranslator
          (file_size (pre_file_data (pre_metadata ctx))) 512 a) (m_storage s)\<rparr>))" .
  then show ?thesis using assms(7-9) storage_env.find_simps(4)[OF assms(1) server_okD(2)[OF assms(2)]]
    by simp
qed

theorem second_receiver_left_waiting_witness:
  "\<exists>s'. file_server_onMessage alist_env 3 (encode Receive (PCode (phrase ''a''))) (demo_after 3) = Some s' \<and>
     heap s' 3 = heap (demo_after 3) 3 \<and>
     getSessionBySender 0 (m_storage s') = Some (ServerOneToOneRetranslatorSession 3 512 2)"
proof -
  have "getSessionBySender 3 (m_storage (demo_after 3)) = None"
    "getSenderByCode alist_env ''a'' (m_storage (demo_after 3)) = Some 0"
    "getReceiverBySender alist_env 0 (m_storage (demo_after 3)) = Some 2"
    "get_CodePhrase init_CodePhrase (encode Receive (PCode (phrase ''a''))) =
       Some (phrase ''a'', set_id (mt_code Receive) new_message)" by code_simp+
  then show ?thesis
    using second_receiver_left_waiting[OF alist_storage_env demo_after_ok, of 3 3
        "encode Receive (PCode (phrase ''a''))" "phrase ''a''" "set_id (mt_code Receive) new_message" 0]
      demo_sessions(1) by auto
qed

text \<open>C37: A sender that has gone is still offered: no handler looks at whether a pending sender's
  connection is open, so a \<open>Receive\<close> for its phrase sets up a session as for a live one, the \<open>Accept\<close>
  to the dead sender is dropped, and no connection at all is sent anything.\<close>

theorem dead_sender_still_offered:
  assumes "storage_env env okp oks" and "server_ok env okp oks s"
    and "getSessionBySender a (m_storage s) = None" and "has_type m Receive"
    and "get_CodePhrase init_CodePhrase m = Some (c, m')"
    and "getSenderByCode env (code c) (m_storage s) = Some b" and "\<not> isConnected (heap s b)"
  shows "\<exists>s'. file_server_onMessage env a m s = Some s' \<and> heap s' = heap s \<and>
    getSessionBySender b (m_storage s') \<noteq> None"
proof -
  from storage_env.start_effect[OF assms(1-6)] obtain ctx where
    "getContextBySender b (m_storage s) = Some ctx" and
    s': "file_server_onMessage env a m s = Some (send_via b (encode Accept (PPost (post_metadata ctx)))
       (s\<lparr>m_storage := addSession env b a (new_retranslator
          (file_size (pre_file_data (pre_metadata ctx))) 512 a) (m_storage s)\<rparr>))" .
  have "snd (send x (heap s b)) = heap s b" for x using assms(7) by (simp add: snd_send fst_send)
  then show ?thesis unfolding s' by simp
qed

definition demo_sender_gone :: "((nat \<times> string) list, (nat \<times> nat) list) file_server" where
  "demo_sender_gone = (demo_after 3)\<lparr>heap := (heap (demo_after 3))(1 := new_connection Server False 0)\<rparr>"

theorem dead_sender_still_offered_witness:
  "\<exists>s'. file_server_onMessage alist_env 3 (encode Receive (PCode (phrase ''b''))) demo_sender_gone = Some s' \<and>
     heap s' = heap demo_sender_gone"
proof -
  have "server_ok alist_env alist_ok alist_ok demo_sender_gone"
    using demo_after_ok[of 3] by (simp add: server_ok_def demo_sender_gone_def)
  moreover have "getSessionBySender 3 (m_storage demo_sender_gone) = None"
    "getSenderByCode alist_env ''b'' (m_storage demo_sender_gone) = Some 1"
    "\<not> isConnected (heap demo_sender_gone 1)" by code_simp+
  ultimately show ?thesis
    using dead_sender_still_offered[OF alist_storage_env _ _ _ get_phrase_b, of demo_sender_gone 3 1] by auto
qed

text \<open>C38: The pairing and the sessions can disagree, in any state of the server: when a receiver \<open>r\<close> that is
  already paired with one sender sends a \<open>Receive\<close> for another sender \<open>b\<close>, still without a session,
  and a free client \<open>r2\<close> then sends one for \<open>b\<close> too, then \<open>b\<close> is registered with \<open>r2\<close>, while its session
  relays to \<open>r\<close>: a chunk of \<open>b\<close> goes to \<open>r\<close>, into the same stream as the first sender's, and \<open>r2\<close> is
  sent nothing.\<close>

theorem session_sink_mismatch:
  assumes "storage_env env okp oks" and "server_ok env okp oks s"
    and "has_type m1 Receive" "get_CodePhrase init_CodePhrase m1 = Some (c, m1')"
    and "has_type m2 Receive" "get_CodePhrase init_CodePhrase m2 = Some (c, m2')"
    and "getSenderByCode env (code c) (m_storage s) = Some b" "getSessionBySender b (m_storage s) = None"
    and "getSessionBySender r (m_storage s) = None" "getSenderByReceiver env r (m_storage s) = Some b0"
    and "getSessionBySender r2 (m_storage s) = None" "getSenderByReceiver env r2 (m_storage s) = None"
    and "r \<noteq> b" "r2 \<noteq> b" "r2 \<noteq> r"
  shows "\<exists>s1 s2 fs. file_server_onMessage env r m1 s = Some s1 \<and> file_server_onMessage env r2 m2 s1 = Some s2 \<and>
    getReceiverBySender env b (m_storage s2) = Some r2 \<and>
    getSessionBySender b (m_storage s2) = Some (ServerOneToOneRetranslatorSession fs 512 r) \<and>
    getReceiverBySender env b0 (m_storage s2) = Some r \<and>
    getSessionBySender b0 (m_storage s2) = getSessionBySender b0 (m_storage s) \<and>
    heap s2 r = heap s r \<and> heap s2 r2 = heap s r2 \<and>
    (\<forall>m. has_type m Chunk \<and> 32 \<le> msg_size m \<and> msg_size m \<le> 544 \<and> fst (send m (heap s r)) \<longrightarrow>
       file_server_onMessage env b m s2 = Some (s2\<lparr>heap := (heap s2)(r := snd (send m (heap s r)))\<rparr>))"
proof -
  note ok = server_okD(2)[OF assms(2)]
  note find = storage_env.find_simps(4)[OF assms(1)]
  note agree = storage_env.pairs_agree[OF assms(1)]
  from storage_env.start_effect[OF assms(1,2) assms(9,3,4,7)] obtain ctx where
    ctx: "getContextBySender b (m_storage s) = Some ctx" and
    h1: "file_server_onMessage env r m1 s = Some (send_via b (encode Accept (PPost (post_metadata ctx)))
       (s\<lparr>m_storage := addSession env b r (new_retranslator
          (file_size (pre_file_data (pre_metadata ctx))) 512 r) (m_storage s)\<rparr>))"
    (is "_ = Some ?s1") .
  have ok1: "server_ok env okp oks ?s1" by (rule storage_env.handler_ok[OF assms(1,2) h1])
  have pair1: "getReceiverBySender env x (m_storage ?s1) = getReceiverBySender env x (m_storage s)" for x
    using find[OF ok] assms(10) by simp
  have code1: "getSenderByCode env (code c) (m_storage ?s1) = Some b"
    using assms(7) storage_env.codes_agree[OF assms(1) ok] storage_env.codes_agree[OF assms(1) server_okD(2)[OF ok1]]
    by simp
  have free: "getSessionBySender r2 (m_storage ?s1) = None" using assms(11,14) by simp
  from storage_env.start_effect[OF assms(1) ok1 free assms(5,6) code1] obtain ctx' where
    "getContextBySender b (m_storage ?s1) = Some ctx'" and
    h2: "file_server_onMessage env r2 m2 ?s1 = Some (send_via b (encode Accept (PPost (post_metadata ctx')))
       (?s1\<lparr>m_storage := addSession env b r2 (new_retranslator
          (file_size (pre_file_data (pre_metadata ctx'))) 512 r2) (m_storage ?s1)\<rparr>))"
    (is "_ = Some ?s2") .
  have ok2: "server_ok env okp oks ?s2" by (rule storage_env.handler_ok[OF assms(1) ok1 h2])
  have "getReceiverBySender env b (m_storage s) = None"
    using storage_okD(5)[OF ok, of b] assms(8) by (cases "getReceiverBySender env b (m_storage s)") auto
  moreover have "getSenderByReceiver env r2 (m_storage ?s1) = None"
    using agree[OF server_okD(2)[OF ok1], of r2] agree[OF ok, of r2] pair1 assms(12)
    by (cases "getSenderByReceiver env r2 (m_storage ?s1)") auto
  moreover have b0: "getReceiverBySender env b0 (m_storage s) = Some r" using agree[OF ok] assms(10) by simp
  moreover from this have "b0 \<noteq> b" using storage_okD(5)[OF ok, of b0] assms(8) by auto
  ultimately have pairs: "getReceiverBySender env b (m_storage ?s2) = Some r2"
      "getReceiverBySender env b0 (m_storage ?s2) = Some r"
      "getSessionBySender b0 (m_storage ?s2) = getSessionBySender b0 (m_storage s)"
    using find[OF server_okD(2)[OF ok1]] pair1 by simp_all
  have ss: "getSessionBySender b (m_storage ?s2) = Some (ServerOneToOneRetranslatorSession
      (file_size (pre_file_data (pre_metadata ctx))) 512 r)"
    using assms(8) by (simp add: new_retranslator_def)
  have heap: "heap ?s2 r = heap s r" "heap ?s2 r2 = heap s r2" using assms(13,14) by simp_all
  have "file_server_onMessage env b m ?s2 = Some (?s2\<lparr>heap := (heap ?s2)(r := snd (send m (heap s r)))\<rparr>)"
    if m: "has_type m Chunk" "32 \<le> msg_size m" "msg_size m \<le> 544" "fst (send m (heap s r))" for m
  proof -
    have lt: "msg_size m < 2 ^ 64" using m(3) by simp
    obtain s' where s': "file_server_onMessage env b m ?s2 = Some s'"
      using ss by (simp add: file_server_onMessage_def)
    show ?thesis
      using storage_env.chunk_effect[OF assms(1) ok2 lt m(1) ss s'] m heap(1) unfolding s' by simp
  qed
  then show ?thesis
    using h1 h2 pairs ss heap by (intro exI[of _ ?s1] exI[of _ ?s2] exI conjI) blast+
qed

theorem session_sink_mismatch_witness:
  "\<exists>s1 s2. file_server_onMessage alist_env 2 (encode Receive (PCode (phrase ''b''))) (demo_after 3) = Some s1 \<and>
     file_server_onMessage alist_env 3 (encode Receive (PCode (phrase ''b''))) s1 = Some s2 \<and>
     getReceiverBySender alist_env 1 (m_storage s2) = Some 3 \<and>
     (\<exists>fs. getSessionBySender 1 (m_storage s2) = Some (ServerOneToOneRetranslatorSession fs 512 2))"
proof -
  have "getSessionBySender 1 (m_storage (demo_after 3)) = None"
    "getSessionBySender 3 (m_storage (demo_after 3)) = None"
    "getSenderByReceiver alist_env 3 (m_storage (demo_after 3)) = None" by code_simp+
  then show ?thesis
    using session_sink_mismatch[OF alist_storage_env demo_after_ok _ get_phrase_b _ get_phrase_b,
        of 3 1 2 0 3] demo_sessions(2-4)
    by auto
qed

end
