(* ===== verification/IpUtils.thy ===== *)
theory IpUtils
  imports Prelude
begin

text \<open>
  \<^verbatim>\<open>filetransmission/ppclient/src/unix_ip_utils.cpp\<close>: the choice of the local IPv4 address and
  the range of host addresses of its subnet. Addresses are 32-bit words in host byte order, as
  \<open>address_v4\<close> holds them; the kernel's list of interfaces holds them in network byte order. The
  list that \<open>getifaddrs\<close> returns is an argument, \<open>None\<close> when the call fails.
\<close>

section \<open>Interfaces\<close>

text \<open>An address of the list: its family and, for IPv4, \<open>s_addr\<close>.\<close>

record sockaddr =
  sa_family :: nat
  s_addr :: u32

record ifaddrs =
  ifa_name :: "string option"
  ifa_flags :: u32
  ifa_addr :: "sockaddr option"
  ifa_netmask :: "sockaddr option"

definition AF_INET :: nat where "AF_INET = 2"
definition IFF_UP :: u32 where "IFF_UP = 0x1"
definition IFF_LOOPBACK :: u32 where "IFF_LOOPBACK = 0x8"

text \<open>Network byte order to host byte order on a little-endian machine.\<close>

definition ntohl :: "u32 \<Rightarrow> u32" where
  "ntohl w = bytes_word (rev (word_bytes w))"

definition isPrivateIPv4 :: "u32 \<Rightarrow> bool" where
  "isPrivateIPv4 a \<longleftrightarrow>
     (if a AND 0xFF000000 = 0x0A000000 then True
      else if a AND 0xFFF00000 = 0xAC100000 then True
      else if a AND 0xFFFF0000 = 0xC0A80000 then True
      else False)"

definition isLinkLocalIPv4 :: "u32 \<Rightarrow> bool" where
  "isLinkLocalIPv4 a \<longleftrightarrow> a AND 0xFFFF0000 = 0xA9FE0000"

text \<open>The loop of \<open>getLocalIPv4\<close> with its two candidates, each an address with the name of its
  interface.\<close>

fun local_loop :: "ifaddrs list \<Rightarrow> (u32 \<times> string) option \<Rightarrow> (u32 \<times> string) option \<Rightarrow>
    (u32 \<times> string) option \<times> (u32 \<times> string) option" where
  "local_loop [] best_private best_nonloopback = (best_private, best_nonloopback)"
| "local_loop (ifa # ifas) best_private best_nonloopback =
     (case ifa_addr ifa of
        None \<Rightarrow> local_loop ifas best_private best_nonloopback
      | Some sa \<Rightarrow>
          if sa_family sa \<noteq> AF_INET then local_loop ifas best_private best_nonloopback
          else if ifa_flags ifa AND IFF_UP = 0 then local_loop ifas best_private best_nonloopback
          else if ifa_flags ifa AND IFF_LOOPBACK \<noteq> 0 then local_loop ifas best_private best_nonloopback
          else
            let addr_host = ntohl (s_addr sa)
            in if isLinkLocalIPv4 addr_host then local_loop ifas best_private best_nonloopback
               else
                 let ifc_name = (case ifa_name ifa of None \<Rightarrow> [] | Some n \<Rightarrow> n)
                 in if isPrivateIPv4 addr_host
                    then local_loop ifas
                      (if best_private = None then Some (addr_host, ifc_name) else best_private)
                      best_nonloopback
                    else local_loop ifas best_private
                      (if best_nonloopback = None then Some (addr_host, ifc_name) else best_nonloopback))"

text \<open>The address and the interface name that the output parameter is set to.\<close>

definition getLocalIPv4 :: "ifaddrs list option \<Rightarrow> (u32 \<times> string) option" where
  "getLocalIPv4 ifs = (case ifs of
       None \<Rightarrow> None
     | Some l \<Rightarrow> (case local_loop l None None of (best_private, best_nonloopback) \<Rightarrow>
         (case best_private of
            Some b \<Rightarrow> Some b
          | None \<Rightarrow> (case best_nonloopback of Some b \<Rightarrow> Some b | None \<Rightarrow> None))))"

fun netmask_loop :: "u32 \<Rightarrow> ifaddrs list \<Rightarrow> u32 option" where
  "netmask_loop ip [] = None"
| "netmask_loop ip (ifa # ifas) =
     (case ifa_addr ifa of
        None \<Rightarrow> netmask_loop ip ifas
      | Some addr \<Rightarrow>
          if sa_family addr \<noteq> AF_INET then netmask_loop ip ifas
          else case ifa_netmask ifa of
              None \<Rightarrow> netmask_loop ip ifas
            | Some nm \<Rightarrow>
                if ntohl (s_addr addr) = ip then Some (ntohl (s_addr nm)) else netmask_loop ip ifas)"

definition getNetmaskForIP :: "ifaddrs list option \<Rightarrow> u32 \<Rightarrow> u32 option" where
  "getNetmaskForIP ifs ip = (case ifs of None \<Rightarrow> None | Some l \<Rightarrow> netmask_loop ip l)"

section \<open>The subnet\<close>

record SubnetRange =
  network :: u32
  broadcast :: u32
  first_host :: u32
  last_host :: u32
  host_count :: u32

definition getSubnetRange :: "u32 \<Rightarrow> u32 \<Rightarrow> SubnetRange" where
  "getSubnetRange ip nm =
     (let net_int = ip AND nm;
          broadcast_int = net_int OR NOT nm
      in if broadcast_int - net_int \<ge> 2
         then \<lparr>network = net_int, broadcast = broadcast_int, first_host = net_int + 1,
               last_host = broadcast_int - 1, host_count = broadcast_int - net_int - 1\<rparr>
         else \<lparr>network = net_int, broadcast = broadcast_int, first_host = net_int,
               last_host = net_int, host_count = 0\<rparr>)"

section \<open>The choice of the local address\<close>

text \<open>The reference: the usable addresses in the order of the list, of which the first private
  one is taken, and without a private one the first.\<close>

definition usable :: "ifaddrs \<Rightarrow> (u32 \<times> string) option" where
  "usable ifa = (case ifa_addr ifa of
      None \<Rightarrow> None
    | Some sa \<Rightarrow>
        if sa_family sa = AF_INET \<and> ifa_flags ifa AND IFF_UP \<noteq> 0 \<and>
           ifa_flags ifa AND IFF_LOOPBACK = 0 \<and> \<not> isLinkLocalIPv4 (ntohl (s_addr sa))
        then Some (ntohl (s_addr sa), case ifa_name ifa of None \<Rightarrow> [] | Some n \<Rightarrow> n) else None)"

definition candidates :: "ifaddrs list \<Rightarrow> (u32 \<times> string) list" where
  "candidates l = List.map_filter usable l"

definition or_else :: "'a option \<Rightarrow> 'a option \<Rightarrow> 'a option" where
  "or_else x y = (case x of Some a \<Rightarrow> Some a | None \<Rightarrow> y)"

lemma candidates_simps [simp]:
  "candidates [] = []"
  "candidates (i # is) = (case usable i of None \<Rightarrow> candidates is | Some x \<Rightarrow> x # candidates is)"
  by (simp_all add: candidates_def map_filter_simps split: option.split)

lemma local_loop_eq:
  "local_loop l p n =
     (or_else p (find (\<lambda>x. isPrivateIPv4 (fst x)) (candidates l)),
      or_else n (find (\<lambda>x. \<not> isPrivateIPv4 (fst x)) (candidates l)))"
  by (induction l p n rule: local_loop.induct)
    (auto simp: usable_def or_else_def Let_def split: option.splits)

lemma find_hd: "find P xs = None \<Longrightarrow> find (\<lambda>x. \<not> P x) xs = (case xs of [] \<Rightarrow> None | x # _ \<Rightarrow> Some x)"
  by (cases xs) (auto split: if_splits)

section \<open>Arithmetic of the range\<close>

lemma host_bits: "(net AND nm) OR NOT nm = (net AND nm) + NOT (nm :: u32)"
  by (rule disjunctive_add [symmetric]) (auto simp: bit_simps)

lemma host_split: "(ip :: u32) = (ip AND nm) + (ip AND NOT nm)"
proof -
  have "ip = (ip AND nm) OR (ip AND NOT nm)" by (rule bit_word_eqI) (auto simp: bit_simps)
  also have "\<dots> = (ip AND nm) + (ip AND NOT nm)"
    by (rule disjunctive_add [symmetric]) (auto simp: bit_simps)
  finally show ?thesis .
qed

text \<open>Everything about the range follows from the number \<open>NOT nm\<close> of host values (less one), which
  never makes the additions wrap.\<close>

lemma net_room: "unat (ip AND nm) + unat (NOT nm) < 2 ^ 32" for ip nm :: u32
proof -
  have "unat ((ip AND nm) AND NOT nm) = 0" by (simp add: and.assoc)
  have "ip AND nm \<le> nm" by (simp add: word_and_le1)
  moreover have "unat nm + unat (NOT nm) = 2 ^ 32 - 1"
  proof -
    have "NOT nm = - 1 - nm" by (simp add: not_eq_complement)
    moreover have "unat (- 1 :: u32) = 2 ^ 32 - 1" by (simp add: unsigned_minus_1_eq_mask mask_eq_exp_minus_1)
    ultimately show ?thesis using unat_sub[of nm "- 1 :: u32"] unsigned_less[of nm, where 'a = nat]
      by simp
  qed
  ultimately show ?thesis by (simp add: word_le_nat_alt)
qed

lemma range_fields:
  fixes ip nm :: u32
  defines "r \<equiv> getSubnetRange ip nm"
  shows "network r = ip AND nm"
    and "unat (broadcast r) = unat (ip AND nm) + unat (NOT nm)"
    and "2 \<le> unat (NOT nm) \<Longrightarrow> unat (first_host r) = unat (ip AND nm) + 1 \<and>
      unat (last_host r) = unat (ip AND nm) + unat (NOT nm) - 1 \<and>
      unat (host_count r) = unat (NOT nm) - 1"
    and "unat (NOT nm) < 2 \<Longrightarrow> first_host r = ip AND nm \<and> last_host r = ip AND nm \<and> host_count r = 0"
proof -
  define net h where "net = ip AND nm" and "h = NOT nm"
  have room: "unat net + unat h < 2 ^ 32" using net_room[of ip nm] by (simp add: net_def h_def)
  have b: "net OR h = net + h" using host_bits[of ip nm] by (simp add: net_def h_def)
  have ub: "unat (net + h) = unat net + unat h"
    by (rule unat_add_lem [THEN iffD1]) (use room in simp)
  have d: "net + h - net = h" by simp
  show "network r = ip AND nm" by (simp add: r_def getSubnetRange_def Let_def)
  show "unat (broadcast r) = unat (ip AND nm) + unat (NOT nm)"
    using ub by (simp add: r_def getSubnetRange_def Let_def b flip: net_def h_def)
  have ge: "2 \<le> h \<longleftrightarrow> 2 \<le> unat h" by (simp add: word_le_nat_alt)
  show "2 \<le> unat (NOT nm) \<Longrightarrow> unat (first_host r) = unat (ip AND nm) + 1 \<and>
      unat (last_host r) = unat (ip AND nm) + unat (NOT nm) - 1 \<and>
      unat (host_count r) = unat (NOT nm) - 1"
  proof -
    assume "2 \<le> unat (NOT nm)"
    then have 2: "2 \<le> unat h" by (simp add: h_def)
    have "unat (net + 1) = unat net + unat (1 :: u32)"
      by (rule unat_add_lem [THEN iffD1]) (use room 2 in simp)
    moreover have "unat (net + h - 1) = unat (net + h) - 1"
      using ub 2 by (subst unat_sub) (simp_all add: word_le_nat_alt)
    moreover have "unat (h - 1) = unat h - 1"
      using 2 by (subst unat_sub) (simp_all add: word_le_nat_alt)
    ultimately show ?thesis using 2 ge ub
      by (simp add: r_def getSubnetRange_def Let_def b flip: net_def h_def)
  qed
  show "unat (NOT nm) < 2 \<Longrightarrow> first_host r = ip AND nm \<and> last_host r = ip AND nm \<and> host_count r = 0"
    using ge by (simp add: r_def getSubnetRange_def Let_def b flip: net_def h_def)
qed

text \<open>For a prefix mask the subnet's addresses are an interval.\<close>

lemma prefix_interval:
  fixes x net :: u32
  assumes "k \<le> 32" "net AND NOT (mask k) = net"
  shows "x AND NOT (mask k) = net \<longleftrightarrow> unat net \<le> unat x \<and> unat x < unat net + 2 ^ k"
proof -
  have cut: "unat (y AND NOT (mask k)) = (unat y div 2 ^ k) * 2 ^ k" for y :: u32
  proof -
    have "y AND NOT (mask k) = push_bit k (drop_bit k y)"
      by (rule bit_word_eqI) (auto simp: bit_simps)
    moreover have "unat (drop_bit k y) = unat y div 2 ^ k"
      by (subst unat_drop_bit_eq) (rule drop_bit_eq_div)
    moreover have "unat y div 2 ^ k * 2 ^ k < 2 ^ 32"
    proof -
      have "unat y div 2 ^ k * 2 ^ k \<le> unat y" by (rule div_times_less_eq_dividend)
      also have "unat y < 2 ^ 32" using unsigned_less[of y, where 'a = nat] by simp
      finally show ?thesis .
    qed
    moreover have "unat (push_bit k (drop_bit k y)) =
        take_bit 32 (push_bit k (unat (drop_bit k y)))"
      using unsigned_push_bit_eq[where 'b = 32, of k "drop_bit k y"] by simp
    ultimately show ?thesis by (simp add: push_bit_eq_mult take_bit_nat_eq_self)
  qed
  have n: "unat net = unat net div 2 ^ k * 2 ^ k" using cut[of net] assms(2) by simp
  have "x AND NOT (mask k) = net \<longleftrightarrow> unat x div 2 ^ k * 2 ^ k = unat net div 2 ^ k * 2 ^ k"
    using cut[of x] n by (metis unsigned_word_eqI)
  also have "\<dots> \<longleftrightarrow> unat x div 2 ^ k = unat net div 2 ^ k" by simp
  also have "\<dots> \<longleftrightarrow> unat net div 2 ^ k \<le> unat x div 2 ^ k \<and> unat x div 2 ^ k < Suc (unat net div 2 ^ k)"
    by auto
  also have "\<dots> \<longleftrightarrow> unat net \<le> unat x \<and> unat x < unat net + 2 ^ k"
    using n by (simp add: less_eq_div_iff_mult_less_eq div_less_iff_less_mult add.commute)
  finally show ?thesis .
qed

section \<open>Properties\<close>

text \<open>C29: \<open>getLocalIPv4\<close> is the reference choice: of the interfaces that are up, not loopback and have
  an IPv4 address that is not link-local, the first one with a private address, and if there is
  none the first one.\<close>

theorem local_address_choice:
  "getLocalIPv4 (Some l) =
     (case find (\<lambda>x. isPrivateIPv4 (fst x)) (candidates l) of
        Some x \<Rightarrow> Some x
      | None \<Rightarrow> (case candidates l of [] \<Rightarrow> None | x # _ \<Rightarrow> Some x))"
proof (cases "find (\<lambda>x. isPrivateIPv4 (fst x)) (candidates l)")
  case None
  show ?thesis using find_hd[OF None]
    by (simp add: getLocalIPv4_def local_loop_eq or_else_def None split: option.split)
qed (simp add: getLocalIPv4_def local_loop_eq or_else_def)

text \<open>C26: The probed range is right for every address and every prefix length up to 30: an address lies
  in \<open>first_host\<close> to \<open>last_host\<close> exactly when it is in the subnet and is neither the network nor
  the broadcast address, \<open>host_count\<close> is the number of those addresses, and nothing wraps, so
  \<open>last_host\<close> is never the greatest 32-bit number.\<close>

theorem subnet_hosts_exact:
  fixes ip x :: u32
  assumes "2 \<le> k" and "k \<le> 32" and "r = getSubnetRange ip (NOT (mask k))"
  shows "(first_host r \<le> x \<and> x \<le> last_host r \<longleftrightarrow>
      x AND NOT (mask k) = network r \<and> x \<noteq> network r \<and> x \<noteq> broadcast r) \<and>
    unat (host_count r) = 2 ^ k - 2 \<and> unat (last_host r) + 1 = unat (first_host r) + (2 ^ k - 2) \<and>
    last_host r < - 1"
proof -
  have h: "unat (NOT (NOT (mask k)) :: u32) = 2 ^ k - 1"
    using assms(2) uint_mask_eq[where 'a = 32, of k]
    by (simp add: min_def mask_eq_exp_minus_1 unat_eq_nat_uint nat_diff_distrib nat_power_eq)
  have p: "(4 :: nat) \<le> 2 ^ k" using power_increasing[OF assms(1), of "2 :: nat"] by simp
  define net where "net = ip AND NOT (mask k)"
  note f = range_fields[where ip = ip and nm = "NOT (mask k)", folded assms(3), unfolded h, folded net_def]
  have f3: "unat (first_host r) = unat net + 1" "unat (last_host r) = unat net + (2 ^ k - 1) - 1"
    "unat (host_count r) = 2 ^ k - 1 - 1" using f(3) p by simp_all
  have "net AND NOT (mask k) = net" by (simp add: net_def and.assoc)
  from prefix_interval[OF assms(2) this, of x]
  have x: "x AND NOT (mask k) = net \<longleftrightarrow> unat net \<le> unat x \<and> unat x < unat net + 2 ^ k" .
  have neq: "x \<noteq> net \<longleftrightarrow> unat x \<noteq> unat net" "x \<noteq> broadcast r \<longleftrightarrow> unat x \<noteq> unat net + (2 ^ k - 1)"
    using f(2) by (metis unsigned_word_eqI)+
  have "unat net + (2 ^ k - 1) < 2 ^ 32"
    using net_room[where ip = ip and nm = "NOT (mask k)", unfolded h] by (simp add: net_def)
  then have "last_host r < - 1" using f3(2) p
    by (simp add: word_less_nat_alt unsigned_minus_1_eq_mask mask_eq_exp_minus_1)
  then show ?thesis using x neq f(1) f3 p by (auto simp: word_le_nat_alt)
qed

theorem subnet_hosts_exact_witness:
  "unat (host_count (getSubnetRange 0xC0A8006C (NOT (mask 8)))) = 254 \<and>
   last_host (getSubnetRange 0xC0A8006C (NOT (mask 8))) < - 1"
  using subnet_hosts_exact[OF _ _ refl, where k = 8 and ip = "0xC0A8006C"] by simp

end
