(* ===== verification/Discovery.thy ===== *)
theory Discovery
  imports IpUtils
begin

text \<open>
  \<^verbatim>\<open>filetransmission/ppserver/src/discovery_server.cpp\<close> and
  \<^verbatim>\<open>filetransmission/ppclient/src/discovery_client.cpp\<close>: the UDP exchange by which a client
  finds the server. A datagram is a string; an endpoint of the peer is the text of its address. The
  operations of a UDP socket are inputs: whether opening and binding succeed, what each
  \<open>receive_from\<close> returns and how many milliseconds have passed since the start of the loop.
  Exceptions are the \<open>Inl\<close> of a sum.
\<close>

definition c_discovery_phrase :: string where
  "c_discovery_phrase = ''pingpong_discover_v1''"

definition c_response_phrase :: string where
  "c_response_phrase = ''pingpong_server_v1''"

section \<open>Parsing a number\<close>

text \<open>\<open>std::stoi\<close>: leading white space, a sign, then the longest run of digits, which must not be
  empty; what follows is ignored. The value must fit in 32 signed bits.\<close>

datatype stoi_error = InvalidArgument | OutOfRange

definition is_digit :: "char \<Rightarrow> bool" where
  "is_digit c \<longleftrightarrow> 48 \<le> (of_char c :: nat) \<and> (of_char c :: nat) \<le> 57"

definition is_space :: "char \<Rightarrow> bool" where
  "is_space c \<longleftrightarrow> (of_char c :: nat) = 32 \<or> 9 \<le> (of_char c :: nat) \<and> (of_char c :: nat) \<le> 13"

definition digits_value :: "string \<Rightarrow> nat" where
  "digits_value ds = foldl (\<lambda>n c. n * 10 + (of_char c - 48)) 0 ds"

fun take_sign :: "string \<Rightarrow> bool \<times> string" where
  "take_sign (c # s) = (if c = CHR ''-'' then (True, s) else if c = CHR ''+'' then (False, s)
     else (False, c # s))"
| "take_sign [] = (False, [])"

definition stoi :: "string \<Rightarrow> stoi_error + int" where
  "stoi s =
     (case take_sign (dropWhile is_space s) of (neg, s1) \<Rightarrow>
        let ds = takeWhile is_digit s1;
            v = (if neg then - int (digits_value ds) else int (digits_value ds))
        in if ds = [] then Inl InvalidArgument
           else if v < - (2 ^ 31) \<or> 2 ^ 31 \<le> v then Inl OutOfRange
           else Inr v)"

section \<open>DiscoveryServer\<close>

record discovery_server =
  ds_tcp_port :: u16
  ds_listening :: bool
  ds_remote_endpoint :: string
  ds_sent :: "(string \<times> string) list"  \<comment> \<open>responses handed to \<open>async_send_to\<close>\<close>

definition listenForRequests :: "discovery_server \<Rightarrow> discovery_server" where
  "listenForRequests d = d\<lparr>ds_listening := True\<rparr>"

text \<open>The constructor gives up when opening, the option or the binding fails.\<close>

definition new_discovery_server :: "u16 \<Rightarrow> bool \<Rightarrow> bool \<Rightarrow> bool \<Rightarrow> discovery_server" where
  "new_discovery_server tcp_port open_ok option_ok bind_ok =
     (let d = \<lparr>ds_tcp_port = tcp_port, ds_listening = False, ds_remote_endpoint = [], ds_sent = []\<rparr>
      in if \<not> open_ok then d else if \<not> option_ok then d else if \<not> bind_ok then d
         else listenForRequests d)"

text \<open>\<open>async_send_to\<close> is given a buffer over the local string \<open>response\<close>, which is destroyed when
  the handler returns. \<open>sent_at_once\<close> says whether Asio performs the send before it returns from that
  call, which it does not promise; a later send reads a destroyed string, which is undefined
  (\<open>None\<close>).\<close>

definition handleRequest :: "bool \<Rightarrow> string \<Rightarrow> discovery_server \<Rightarrow> discovery_server option" where
  "handleRequest sent_at_once data d =
     (if data = c_discovery_phrase
      then let response = c_response_phrase @ ''/'' @ show_nat (unat (ds_tcp_port d))
           in if sent_at_once
              then Some (d\<lparr>ds_sent := ds_sent d @ [(response, ds_remote_endpoint d)]\<rparr>)
              else None
      else Some d)"

text \<open>The handler of \<open>async_receive_from\<close>: a datagram (cut to the buffer) with its source, or an
  error. It listens again in both cases.\<close>

definition receive_done :: "bool \<Rightarrow> (string \<times> string) option \<Rightarrow> discovery_server \<Rightarrow>
    discovery_server option" where
  "receive_done sent_at_once r d =
     (let d = d\<lparr>ds_listening := False\<rparr>
      in case r of
           Some (data, source) \<Rightarrow>
             map_option listenForRequests
               (handleRequest sent_at_once (take 1024 data) (d\<lparr>ds_remote_endpoint := source\<rparr>))
         | None \<Rightarrow> Some (listenForRequests d))"

section \<open>The client's side\<close>

record DiscoveredServer =
  address :: string
  port :: u16

text \<open>\<open>getLocalSubnet\<close>: the dotted address up to and including its last dot. \<open>rfind\<close> returns the
  greatest \<open>size_t\<close> when there is none, and adding one gives 0.\<close>

definition getLocalSubnet :: "string \<Rightarrow> string" where
  "getLocalSubnet raw = rev (dropWhile (\<lambda>c. c \<noteq> CHR ''.'') (rev raw))"

text \<open>A response of the server: \<open>None\<close> if the data does not begin with the phrase, otherwise the
  port after the first slash, cut to 16 bits (0 without a slash), or the exception of \<open>stoi\<close>.\<close>

definition parse_response :: "string \<Rightarrow> (stoi_error + u16) option" where
  "parse_response data =
     (if take (length c_response_phrase) data = c_response_phrase
      then Some (case dropWhile (\<lambda>c. c \<noteq> CHR ''/'') data of
          [] \<Rightarrow> Inr 0
        | _ # rest \<Rightarrow> (case stoi rest of Inl e \<Rightarrow> Inl e | Inr v \<Rightarrow> Inr (word_of_int v)))
      else None)"

text \<open>The probe loop of the unicast scan with its 32-bit counter, as the list of probed addresses.
  The counter can pass the greatest value and start again, so that the loop need not end (\<open>None\<close>).\<close>

partial_function (option) probe_loop :: "u32 \<Rightarrow> u32 \<Rightarrow> u32 \<Rightarrow> u32 list option" where
  "probe_loop addr_int last_host_int local_ip =
     (if addr_int \<le> last_host_int
      then Option.bind (probe_loop (addr_int + 1) last_host_int local_ip)
             (\<lambda>r. Some (if addr_int = local_ip then r else addr_int # r))
      else Some [])"

text \<open>The receive loop that both scans share: one entry per round, with the datagram received and
  the time that has passed. \<open>Waiting\<close>: the rounds given are used up and the loop goes on.\<close>

datatype scan_result = Waiting | NotFound | Found DiscoveredServer | Throws stoi_error

fun poll_loop :: "nat \<Rightarrow> ((string \<times> string) option \<times> nat) list \<Rightarrow> scan_result" where
  "poll_loop timeout [] = Waiting"
| "poll_loop timeout ((received, elapsed) # rounds) =
     (case (case received of
              Some (data, source) \<Rightarrow>
                if length (take 1024 data) > 0
                then map_option (map_sum id (\<lambda>p. \<lparr>address = source, port = p\<rparr>))
                       (parse_response (take 1024 data))
                else None
            | None \<Rightarrow> None) of
        Some (Inl e) \<Rightarrow> Throws e
      | Some (Inr res) \<Rightarrow> Found res
      | None \<Rightarrow> if elapsed > timeout then NotFound else poll_loop timeout rounds)"

text \<open>How a scan ends: the exception of a socket operation, a probe loop that does not end, or the
  result of the receive loop.\<close>

datatype scan_outcome = SocketError | ProbesForever | Scan "u32 list" scan_result

definition discoverServerByUnicastBruteforce :: "ifaddrs list option \<Rightarrow> ifaddrs list option \<Rightarrow>
    bool \<Rightarrow> nat \<Rightarrow> ((string \<times> string) option \<times> nat) list \<Rightarrow> scan_outcome" where
  "discoverServerByUnicastBruteforce ifs1 ifs2 socket_ok timeout rounds =
     (case getLocalIPv4 ifs1 of
        None \<Rightarrow> Scan [] NotFound
      | Some (local_ip, _) \<Rightarrow>
          (case getNetmaskForIP ifs2 local_ip of
             None \<Rightarrow> Scan [] NotFound
           | Some netmask \<Rightarrow>
               let subrange = getSubnetRange local_ip netmask
               in if \<not> socket_ok then SocketError
                  else (case probe_loop (first_host subrange) (last_host subrange) local_ip of
                      None \<Rightarrow> ProbesForever
                    | Some probed \<Rightarrow> Scan probed (poll_loop timeout rounds))))"

definition discoverServerByBroadcast :: "bool \<Rightarrow> nat \<Rightarrow>
    ((string \<times> string) option \<times> nat) list \<Rightarrow> scan_outcome" where
  "discoverServerByBroadcast socket_ok timeout rounds =
     (if \<not> socket_ok then SocketError else Scan [0xFFFFFFFF] (poll_loop timeout rounds))"

section \<open>Printed numbers are read back\<close>

lemma of_char_digit [simp]: "d < 10 \<Longrightarrow> (of_char (digit_char d) :: nat) = 48 + d"
  by (simp add: digit_char_def)

lemma is_digit_digit_char [simp]: "d < 10 \<Longrightarrow> is_digit (digit_char d)"
  by (simp add: is_digit_def)

lemma digits_value_snoc [simp]: "digits_value (ds @ [c]) = digits_value ds * 10 + (of_char c - 48)"
  by (simp add: digits_value_def)

lemma show_nat_digits: "\<forall>c \<in> set (show_nat n). is_digit c"
proof (induction n rule: show_nat.induct)
  case (1 n)
  then show ?case by (subst show_nat.simps) auto
qed

lemma digits_value_show_nat: "digits_value (show_nat n) = n"
proof (induction n rule: show_nat.induct)
  case (1 n)
  show ?case
  proof (cases "n < 10")
    case True
    then show ?thesis using digits_value_snoc[of "[]"] by (subst show_nat.simps) (simp add: digits_value_def)
  next
    case False
    then show ?thesis using 1 by (subst show_nat.simps) simp
  qed
qed

lemma is_digit_not_special:
  "is_digit c \<Longrightarrow> \<not> is_space c \<and> c \<noteq> CHR ''-'' \<and> c \<noteq> CHR ''+''"
  by (auto simp: is_digit_def is_space_def)

lemma take_sign_other: "c \<noteq> CHR ''-'' \<Longrightarrow> c \<noteq> CHR ''+'' \<Longrightarrow> take_sign (c # s) = (False, c # s)"
  by simp

text \<open>Digits followed by something that is not a digit.\<close>

lemma stoi_digits:
  assumes "ds \<noteq> []" "\<forall>c \<in> set ds. is_digit c" "rest = [] \<or> \<not> is_digit (hd rest)"
  shows "stoi (ds @ rest) = (if digits_value ds < 2 ^ 31 then Inr (int (digits_value ds)) else Inl OutOfRange)"
proof -
  obtain c cs where ds: "ds = c # cs" using assms(1) by (cases ds) auto
  have c: "\<not> is_space c" "c \<noteq> CHR ''-''" "c \<noteq> CHR ''+''"
    using assms(2) is_digit_not_special ds by auto
  have "takeWhile is_digit (ds @ rest) = ds"
    using assms(2,3) by (cases rest) (auto simp: takeWhile_append)
  moreover have "take_sign (dropWhile is_space (ds @ rest)) = (False, ds @ rest)"
    using ds c by simp
  ultimately show ?thesis using assms(1) by (simp add: stoi_def)
qed

lemma stoi_no_digit:
  assumes "s = [] \<or> \<not> is_digit (hd s) \<and> \<not> is_space (hd s) \<and> hd s \<noteq> CHR ''-'' \<and> hd s \<noteq> CHR ''+''"
  shows "stoi s = Inl InvalidArgument"
  using assms by (cases s) (auto simp: stoi_def)

lemma parse_response_phrase:
  "parse_response (c_response_phrase @ CHR ''/'' # s) =
     Some (case stoi s of Inl e \<Rightarrow> Inl e | Inr v \<Rightarrow> Inr (word_of_int v))"
  by (simp add: parse_response_def c_response_phrase_def)

lemma stoi_show_nat: "stoi (show_nat n) = (if n < 2 ^ 31 then Inr (int n) else Inl OutOfRange)"
  using stoi_digits[of "show_nat n" "[]"] show_nat_digits by (simp add: digits_value_show_nat)

text \<open>Rounds without a datagram before the one that a response comes in.\<close>

lemma poll_loop_response:
  assumes "\<forall>(received, elapsed) \<in> set silent. received = None \<and> elapsed \<le> timeout"
    and "take (length c_response_phrase) d = c_response_phrase" and "length d \<le> 1024"
  shows "poll_loop timeout (silent @ (Some (d, source), elapsed) # rounds) =
    (case parse_response d of Some (Inl e) \<Rightarrow> Throws e
     | Some (Inr p) \<Rightarrow> Found \<lparr>address = source, port = p\<rparr> | None \<Rightarrow> NotFound)"
  using assms(1)
proof (induction silent)
  case Nil
  have "d \<noteq> []" using assms(2) by (auto simp: c_response_phrase_def)
  moreover obtain r where "parse_response d = Some r" using assms(2) by (simp add: parse_response_def)
  ultimately show ?case using assms(3) by (cases r) simp_all
next
  case (Cons a silent)
  then show ?case by (cases a) simp
qed

section \<open>The probe loop\<close>

lemma probe_loop_step:
  "probe_loop a l loc = (if a \<le> l
     then Option.bind (probe_loop (a + 1) l loc) (\<lambda>r. Some (if a = loc then r else a # r)) else Some [])"
  by (rule probe_loop.simps)

lemma probe_loop_stops:
  assumes "l \<noteq> - 1"
  shows "probe_loop a l loc =
    Some (filter (\<lambda>x. x \<noteq> loc) (map word_of_nat [unat a..<Suc (unat l)]))"
proof (induction "Suc (unat l) - unat a" arbitrary: a)
  case 0
  then have "\<not> a \<le> l" by (simp add: word_le_nat_alt)
  then show ?case using 0 by (subst probe_loop_step) simp
next
  case (Suc n)
  then have le: "unat a \<le> unat l" by simp
  have "unat l \<noteq> unat (- 1 :: u32)" using assms by (metis unsigned_word_eqI)
  moreover have "unat (- 1 :: u32) = 2 ^ 32 - 1"
    by (simp add: unsigned_minus_1_eq_mask mask_eq_exp_minus_1)
  ultimately have "unat a + unat (1 :: u32) < 2 ^ 32"
    using le unsigned_less[of l, where 'a = nat] by simp
  then have a1: "unat (a + 1) = Suc (unat a)" using unat_add_lem[of a "1 :: u32"] by simp
  have "n = Suc (unat l) - unat (a + 1)" using Suc(2) a1 by simp
  note IH = Suc(1)[OF this]
  have "[unat a..<Suc (unat l)] = unat a # [unat (a + 1)..<Suc (unat l)]"
    using le a1 by (simp add: upt_conv_Cons)
  then show ?case using le by (subst probe_loop_step) (simp add: IH word_le_nat_alt)
qed

lemma probe_loop_forever: "probe_loop a (- 1) loc = None"
proof (cases "probe_loop a (- 1) loc")
  case (Some r)
  have "l \<noteq> - 1" if "probe_loop a l loc = Some r" for a l r :: "_" 
    using that
    by (rule probe_loop.raw_induct[rotated]) (auto split: if_splits bind_splits)
  then show ?thesis using Some by blast
qed simp

lemma length_show_nat: "n < 10 ^ Suc k \<Longrightarrow> length (show_nat n) \<le> Suc k"
proof (induction k arbitrary: n)
  case 0
  then show ?case by (subst show_nat.simps) simp
next
  case (Suc k)
  have "length (show_nat (n div 10)) \<le> Suc k" using Suc by simp
  then show ?case by (subst show_nat.simps) simp
qed

lemma handleRequest_None:
  "handleRequest sent_at_once data d = None \<longleftrightarrow> data = c_discovery_phrase \<and> \<not> sent_at_once"
  by (simp add: handleRequest_def Let_def)

section \<open>Properties\<close>

text \<open>C27: A client finds the server that answers it, if the server's send is performed inside
  \<open>async_send_to\<close>: to the discovery phrase, and to nothing else, the server responds, to the source
  of the datagram, with a response that the client's scan reads as that server's address and exactly
  its TCP port, whatever the port is; and it goes on listening after every datagram and every error.
  A response that is not sent at once is the one undefined case: it would be read from a destroyed
  string.\<close>

theorem discovery_round_trip:
  "(\<exists>response. map_option ds_sent (receive_done True (Some (c_discovery_phrase, source)) d) =
       Some (ds_sent d @ [(response, source)]) \<and>
     poll_loop timeout ((Some (response, server), elapsed) # rounds) =
       Found \<lparr>address = server, port = ds_tcp_port d\<rparr>) \<and>
   (take 1024 data = c_discovery_phrase \<or>
      map_option ds_sent (receive_done sent_at_once (Some (data, source)) d) = Some (ds_sent d)) \<and>
   pred_option ds_listening (receive_done sent_at_once r d) \<and>
   (receive_done sent_at_once r d = None \<longleftrightarrow>
      sent_at_once = False \<and> map_option (take 1024 \<circ> fst) r = Some c_discovery_phrase)"
proof -
  define n where "n = unat (ds_tcp_port d)"
  define response where "response = c_response_phrase @ CHR ''/'' # show_nat n"
  have n: "n < 2 ^ 16" using unsigned_less[of "ds_tcp_port d", where 'a = nat] by (simp add: n_def)
  then have "length (show_nat n) \<le> 5" using length_show_nat[of n 4] by simp
  then have len: "take 1024 response = response" "response \<noteq> []"
    by (simp_all add: response_def c_response_phrase_def)
  have "stoi (show_nat n) = Inr (int n)"
    using stoi_digits[of "show_nat n" "[]"] show_nat_digits n by (simp add: digits_value_show_nat)
  then have "parse_response response = Some (Inr (ds_tcp_port d))"
    unfolding response_def parse_response_phrase by (simp add: n_def)
  then have "poll_loop timeout ((Some (response, server), elapsed) # rounds) =
      Found \<lparr>address = server, port = ds_tcp_port d\<rparr>"
    using len by simp
  moreover have "map_option ds_sent (receive_done True (Some (c_discovery_phrase, source)) d) =
      Some (ds_sent d @ [(response, source)])"
    by (simp add: receive_done_def handleRequest_def listenForRequests_def response_def n_def
        c_discovery_phrase_def)
  moreover have "take 1024 data = c_discovery_phrase \<or>
      map_option ds_sent (receive_done sent_at_once (Some (data, source)) d) = Some (ds_sent d)"
    by (cases "take 1024 data = c_discovery_phrase")
      (simp_all add: receive_done_def handleRequest_def listenForRequests_def)
  moreover have "pred_option ds_listening (receive_done sent_at_once r d)"
    by (cases r) (auto simp: receive_done_def listenForRequests_def Let_def handleRequest_def)
  moreover have "receive_done sent_at_once r d = None \<longleftrightarrow>
      sent_at_once = False \<and> map_option (take 1024 \<circ> fst) r = Some c_discovery_phrase"
    by (cases r) (auto simp: receive_done_def handleRequest_None)
  ultimately show ?thesis by blast
qed

text \<open>C28: The probe loop ends, and then has probed every address of the range once, in order, except
  the client's own, unless the range goes up to the greatest address: the 32-bit counter then starts
  again from 0 and the loop never ends.\<close>

theorem probe_loop_enumerates:
  "probe_loop first last_host_int local_ip =
     (if last_host_int = - 1 then None
      else Some (filter (\<lambda>x. x \<noteq> local_ip) (map word_of_nat [unat first..<Suc (unat last_host_int)])))"
  using probe_loop_stops probe_loop_forever by simp

end
