(* ===== verification/ClientBase.thy ===== *)
theory ClientBase
  imports Connection Discovery
begin

text \<open>
  \<^verbatim>\<open>net_common/include/net_common/net_client.hpp\<close> and the \<open>FileClient\<close> of
  \<^verbatim>\<open>filetransmission/ppclient/src/client.hpp\<close>.

  A client is used by its main thread, while the thread of the \<open>io_context\<close> runs the handlers of
  its one connection. What that thread does is an input: \<open>io\<close> is a list of batches of connection
  events, the next of which has run when the main thread looks at the connection, and \<open>arrivals\<close>
  is the schedule of the messages that it pushes to \<open>m_messages_in\<close>. The two lists are not tied
  to each other, so every interleaving of the threads is covered. When they are used up, nothing
  changes any more, and a wait whose condition does not hold then never ends.
\<close>

section \<open>ClientBase\<close>

text \<open>\<open>handed\<close> is a history: the messages the main thread has passed to \<open>send\<close>, with the results.\<close>

record file_client =
  m_context_thread :: bool  \<comment> \<open>joinable\<close>
  m_connection :: "connection option"
  m_messages_in :: "owned_message tsqueue"
  m_context_stopped :: bool
  io :: "conn_event list list"
  arrivals :: "owned_message schedule"
  handed :: "(message \<times> bool) list"

definition new_client :: "conn_event list list \<Rightarrow> owned_message schedule \<Rightarrow> file_client" where
  "new_client events sch = \<lparr>m_context_thread = False, m_connection = None, m_messages_in = new_queue,
     m_context_stopped = False, io = events, arrivals = sch, handed = []\<rparr>"

text \<open>The handlers and posted tasks that the network thread runs. The messages that reading pushes
  to the queue are those of \<open>arrivals\<close>. At a client no event is undefined (\<open>client_io_defined\<close>
  below), so the case \<open>None\<close> does not arise.\<close>

definition run_io :: "conn_event \<Rightarrow> connection \<Rightarrow> connection" where
  "run_io e k =
     (if network_event e \<and> conn_enabled e k
      then (case conn_exec 0 e (k, new_queue) of None \<Rightarrow> k | Some (k', _) \<Rightarrow> k')
      else k)"

definition sync :: "file_client \<Rightarrow> file_client" where
  "sync c = (case io c of
       [] \<Rightarrow> c
     | es # rest \<Rightarrow> c\<lparr>io := rest, m_connection := map_option (fold run_io es) (m_connection c)\<rparr>)"

text \<open>\<open>connect\<close>: the resolver throws unless \<open>resolved\<close>, the thread cannot be created unless
  \<open>thread_ok\<close>; assigning to a thread that is joinable ends the program (\<open>None\<close>).\<close>

definition connect :: "(string \<Rightarrow> u16 \<Rightarrow> bool) \<Rightarrow> bool \<Rightarrow> string \<Rightarrow> u16 \<Rightarrow> file_client \<Rightarrow>
    (bool \<times> file_client) option" where
  "connect resolved thread_ok host prt c =
     (if \<not> resolved host prt then Some (False, c)
      else let c = c\<lparr>m_connection := Some (new_connection Client False 0)\<rparr>;
               c = c\<lparr>m_connection := map_option connectToServer (m_connection c)\<rparr>
           in if \<not> thread_ok then Some (False, c)
              else if m_context_thread c then None
              else Some (True, c\<lparr>m_context_thread := True\<rparr>))"

definition client_isConnected :: "file_client \<Rightarrow> bool" where
  "client_isConnected c = (case m_connection c of None \<Rightarrow> False | Some k \<Rightarrow> isConnected k)"

text \<open>Dereferences the pointer without a check.\<close>

definition client_isValidated :: "file_client \<Rightarrow> bool option" where
  "client_isValidated c = map_option isValidated (m_connection c)"

definition client_disconnect :: "file_client \<Rightarrow> file_client" where
  "client_disconnect c =
     (if m_connection c = None \<and> \<not> m_context_thread c then c
      else let c = (if m_connection c \<noteq> None \<and> client_isConnected c
                    then c\<lparr>m_connection := map_option Connection.disconnect (m_connection c)\<rparr> else c);
               c = c\<lparr>m_context_stopped := True\<rparr>;
               c = (if m_context_thread c then c\<lparr>m_context_thread := False\<rparr> else c)
           in c\<lparr>m_connection := None\<rparr>)"

text \<open>The end of a wait: the condition holds, nothing will ever make it hold, or the pointer to the
  connection is null and was dereferenced.\<close>

datatype wait_result = Ready file_client | Never | NullPointer

text \<open>\<open>flush\<close> waits for \<open>flush_ready\<close> as the network thread goes on.\<close>

function wait_flushed :: "file_client \<Rightarrow> wait_result" where
  "wait_flushed c =
     (case m_connection c of
        None \<Rightarrow> NullPointer
      | Some k \<Rightarrow>
          if flush_ready k then Ready c
          else if io c = [] then Never else wait_flushed (sync c))"
  by pat_completeness auto

termination
  by (relation "measure (\<lambda>c. length (io c))") (auto simp: sync_def split: list.splits)

declare wait_flushed.simps [simp del]

definition client_flush :: "file_client \<Rightarrow> wait_result" where
  "client_flush c = (if client_isConnected c then wait_flushed c else Ready c)"

definition client_getPendingWrites :: "file_client \<Rightarrow> nat" where
  "client_getPendingWrites c =
     (if client_isConnected c then (case m_connection c of None \<Rightarrow> 0 | Some k \<Rightarrow> getPendingWrites k) else 0)"

definition client_send :: "message \<Rightarrow> file_client \<Rightarrow> bool \<times> file_client" where
  "client_send m c =
     (let (ok, c') =
        (if client_isConnected c
         then (case m_connection c of
                 None \<Rightarrow> (False, c)
               | Some k \<Rightarrow> (case send m k of (r, k') \<Rightarrow> (r, c\<lparr>m_connection := Some k'\<rparr>)))
         else (False, c))
      in (ok, c'\<lparr>handed := handed c' @ [(m, ok)]\<rparr>))"

text \<open>What \<open>c.send(\<dots>)\<close> in the routines does: the network thread has gone on before.\<close>

definition io_send :: "message \<Rightarrow> file_client \<Rightarrow> bool \<times> file_client" where
  "io_send m c = client_send m (sync c)"

section \<open>FileClient\<close>

text \<open>\<open>waitForIncomingQueueMessage\<close>: in each round of the wait the network thread goes on.\<close>

function wait_incoming :: "file_client \<Rightarrow> wait_result" where
  "wait_incoming c =
     (case m_connection c of
        None \<Rightarrow> NullPointer
      | Some k \<Rightarrow>
          if \<not> keep_waiting k (m_messages_in c) then Ready c
          else if io c = [] \<and> arrivals c = [] then Never
          else (case arrive (arrivals c) (m_messages_in c) of (sch, q) \<Rightarrow>
                  wait_incoming ((sync c)\<lparr>arrivals := sch, m_messages_in := q\<rparr>)))"
  by pat_completeness auto

termination
  by (relation "measure (\<lambda>c. length (io c) + length (arrivals c))")
    (auto simp: sync_def arrive_def split: list.splits)

declare wait_incoming.simps [simp del]

text \<open>What the connecting meets: the resolver, the creation of the thread, and the inputs of the
  scan (both interface lists, the UDP socket, the rounds of its receive loop).\<close>

record net_env =
  resolved :: "string \<Rightarrow> u16 \<Rightarrow> bool"
  thread_ok :: bool
  ifaddrs_local :: "ifaddrs list option"
  ifaddrs_mask :: "ifaddrs list option"
  udp_ok :: bool
  scan_rounds :: "((string \<times> string) option \<times> nat) list"

text \<open>How \<open>autoConnect\<close> ends: with the result of \<open>connect\<close>, an exception of the scan, a scan that
  goes on, or the end of the program. The address found by the scan is the host name.\<close>

datatype auto_connect = Connected bool file_client | DiscoveryThrows | DiscoveryHangs | Terminates

definition try_connect :: "net_env \<Rightarrow> string \<Rightarrow> u16 \<Rightarrow> file_client \<Rightarrow> auto_connect" where
  "try_connect ne host prt c =
     (case connect (resolved ne) (thread_ok ne) host prt c of
        None \<Rightarrow> Terminates
      | Some (ok, c') \<Rightarrow> Connected ok c')"

definition autoConnect :: "net_env \<Rightarrow> nat \<Rightarrow> file_client \<Rightarrow> auto_connect" where
  "autoConnect ne timeout c =
     (case discoverServerByUnicastBruteforce (ifaddrs_local ne) (ifaddrs_mask ne) (udp_ok ne)
             timeout (scan_rounds ne) of
        SocketError \<Rightarrow> DiscoveryThrows
      | ProbesForever \<Rightarrow> DiscoveryHangs
      | Scan _ (Throws _) \<Rightarrow> DiscoveryThrows
      | Scan _ Waiting \<Rightarrow> DiscoveryHangs
      | Scan _ (Found res) \<Rightarrow> try_connect ne (address res) (port res) c
      | Scan _ NotFound \<Rightarrow> try_connect ne ''127.0.0.1'' 60010 c)"

section \<open>The invariant of a client\<close>

text \<open>The messages the connection has accepted.\<close>

definition accepted_msgs :: "(message \<times> bool) list \<Rightarrow> message list" where
  "accepted_msgs h = map fst (filter snd h)"

lemma accepted_msgs_simps [simp]:
  "accepted_msgs [] = []"
  "accepted_msgs ((m, b) # h) = (if b then [m] else []) @ accepted_msgs h"
  "accepted_msgs (h @ h') = accepted_msgs h @ accepted_msgs h'"
  by (simp_all add: accepted_msgs_def)

text \<open>A connection that has been given the messages \<open>acc\<close>.\<close>

definition carries :: "message list \<Rightarrow> connection \<Rightarrow> bool" where
  "carries acc k \<longleftrightarrow> conn_inv k \<and> (\<exists>ws P. wire ws P acc k)"

text \<open>The network thread is to run the posted tasks in the order of posting.\<close>

definition client_ok :: "file_client \<Rightarrow> bool" where
  "client_ok c \<longleftrightarrow> (\<forall>es \<in> set (io c). fifo_tasks es) \<and>
     (case m_connection c of
        None \<Rightarrow> accepted_msgs (handed c) = []
      | Some k \<Rightarrow> carries (accepted_msgs (handed c)) k)"

lemma accepted_network: "network_event e \<Longrightarrow> accepted [e] = []"
  by (cases e) simp_all

lemma client_io_defined:
  assumes "conn_inv k" "m_owner_type k = Client" "conn_enabled e k"
  shows "conn_exec self e (k, q) \<noteq> None"
  using conn_exec_None_iff[OF assms(1,3), of self q] overlapping_at_server[OF assms(1,3)] assms(2)
  by auto

lemma run_io_carries:
  assumes "carries acc k" and "\<forall>i. e = RunTask i \<longrightarrow> i = 0"
  shows "carries acc (run_io e k)"
proof (cases "network_event e \<and> conn_enabled e k \<and> conn_exec 0 e (k, new_queue) \<noteq> None")
  case True
  obtain ws P where inv: "conn_inv k" and w: "wire ws P acc k"
    using assms(1) by (auto simp: carries_def)
  obtain k' q' where e: "conn_exec 0 e (k, new_queue) = Some (k', q')" using True by auto
  have inv': "conn_inv k'" using conn_exec_keeps_inv[OF inv _ e] True by blast
  have "\<exists>ws' P'. wire ws' P' acc k'"
    using wire_step[OF w inv _ assms(2) e] True by (simp add: accepted_network)
  then show ?thesis using True e inv' by (simp add: run_io_def carries_def)
next
  case False
  then show ?thesis using assms(1) by (auto simp: run_io_def split: option.split)
qed

lemma run_ios_carries:
  "carries acc k \<Longrightarrow> fifo_tasks es \<Longrightarrow> carries acc (fold run_io es k)"
proof (induction es arbitrary: k)
  case (Cons e es)
  then have "carries acc (run_io e k)"
    by (intro run_io_carries) (auto simp: fifo_tasks_def)
  then show ?case using Cons by (auto simp: fifo_tasks_def)
qed simp

lemma conn_run_carries:
  assumes "conn_run self s es s'" and "carries acc (fst s)" and "fifo_tasks es"
  shows "carries (acc @ accepted es) (fst s')"
  using assms
proof (induction rule: conn_run.induct)
  case (conn_run_snoc s es s' e s'')
  then have c: "carries (acc @ accepted es) (fst s')" by simp
  have e: "conn_enabled e (fst s')" "conn_exec self e (fst s', snd s') = Some (fst s'', snd s'')"
    using conn_run_snoc.hyps(2) by (auto simp: conn_step_iff)
  have i: "\<forall>i. e = RunTask i \<longrightarrow> i = 0" using conn_run_snoc.prems(2) by simp
  obtain ws P where w: "conn_inv (fst s')" "wire ws P (acc @ accepted es) (fst s')"
    using c by (auto simp: carries_def)
  have "conn_inv (fst s'')" by (rule conn_exec_keeps_inv[OF w(1) e])
  then show ?case using wire_step[OF w(2,1) e(1) i e(2)] by (simp add: carries_def)
qed simp

lemma sync_frame [simp]:
  "handed (sync c) = handed c" "m_messages_in (sync c) = m_messages_in c"
  "arrivals (sync c) = arrivals c" "m_connection (sync c) = None \<longleftrightarrow> m_connection c = None"
  "m_context_thread (sync c) = m_context_thread c"
  by (simp_all add: sync_def split: list.splits)

lemma sync_ok: "client_ok c \<Longrightarrow> client_ok (sync c)"
  by (auto simp: client_ok_def sync_def run_ios_carries split: list.splits option.splits)

lemma client_ok_frame [simp]:
  "client_ok (c\<lparr>arrivals := sch, m_messages_in := q\<rparr>) = client_ok c"
  "client_ok (c\<lparr>m_messages_in := q, arrivals := sch\<rparr>) = client_ok c"
  by (simp_all add: client_ok_def split: option.splits)

lemma carries_send: "carries acc k \<Longrightarrow> carries (acc @ (if fst (send m k) then [m] else [])) (snd (send m k))"
  using conn_inv_read_view[of k "snd (send m k)"] call_write_inv(1)[of k m] wire_send[of _ _ acc k m]
  by (fastforce simp: carries_def conn_inv_def[of k])

lemma client_send_ok:
  assumes "client_ok c"
  shows "client_ok (snd (client_send m c))"
proof (cases "m_connection c")
  case None
  then show ?thesis using assms by (simp add: client_send_def client_isConnected_def client_ok_def)
next
  case (Some k)
  have "carries (accepted_msgs (handed c)) k" using assms Some by (simp add: client_ok_def)
  from carries_send[OF this, of m] this show ?thesis
    using assms Some
    by (cases "send m k") (auto simp: client_send_def client_isConnected_def client_ok_def)
qed

lemma client_send_frame [simp]:
  "handed (snd (client_send m c)) = handed c @ [(m, fst (client_send m c))]"
  "m_messages_in (snd (client_send m c)) = m_messages_in c"
  "arrivals (snd (client_send m c)) = arrivals c"
  by (simp_all add: client_send_def split: prod.splits option.splits)

lemma io_send_frame [simp]:
  "handed (snd (io_send m c)) = handed c @ [(m, fst (io_send m c))]"
  "m_messages_in (snd (io_send m c)) = m_messages_in c"
  "arrivals (snd (io_send m c)) = arrivals c"
  by (simp_all add: io_send_def)

lemma io_send_ok: "client_ok c \<Longrightarrow> client_ok (snd (io_send m c))"
  by (simp add: io_send_def client_send_ok sync_ok)

lemma carries_client_start: "carries [] client_start"
  using conn_inv_started[of client_start] wire_started[of client_start]
  by (auto simp: carries_def started_def)

lemma connect_ok:
  assumes "client_ok c" and "accepted_msgs (handed c) = []" and "connect res th host prt c = Some (ok, c')"
  shows "client_ok c' \<and> handed c' = handed c \<and> io c' = io c \<and> arrivals c' = arrivals c \<and>
    m_messages_in c' = m_messages_in c \<and> (ok \<longrightarrow> m_connection c' = Some client_start)"
  using assms carries_client_start
  by (auto simp: connect_def client_ok_def client_start_def Let_def split: if_splits)

text \<open>After \<open>flush\<close> everything that was accepted has been written, unless the socket was closed
  before.\<close>

definition all_written :: "file_client \<Rightarrow> bool" where
  "all_written c \<longleftrightarrow>
     (\<exists>k. m_connection c = Some k \<and> sent_bytes k = concat (map frame (accepted_msgs (handed c))))"

lemma flush_ready_written:
  assumes "carries acc k" and "flush_ready k"
  shows "sent_bytes k = concat (map frame acc)"
  using assms by (auto simp: carries_def conn_inv_def write_inv_def wire_def flush_ready_def)

lemma wait_flushed_written:
  "client_ok c \<Longrightarrow> wait_flushed c = Ready c' \<Longrightarrow>
     client_ok c' \<and> all_written c' \<and> handed c' = handed c"
proof (induction c rule: wait_flushed.induct)
  case (1 c)
  show ?case
  proof (cases "m_connection c")
    case None
    then show ?thesis using 1(3) by (simp add: wait_flushed.simps[of c])
  next
    case (Some k)
    show ?thesis
    proof (cases "flush_ready k")
      case True
      have "carries (accepted_msgs (handed c)) k" using 1(2) Some by (simp add: client_ok_def)
      from flush_ready_written[OF this True] show ?thesis
        using 1(2,3) Some True by (simp add: wait_flushed.simps[of c] all_written_def)
    next
      case False
      then have "io c \<noteq> []" "wait_flushed (sync c) = Ready c'"
        using 1(3) Some by (auto simp: wait_flushed.simps[of c] split: if_splits)
      then show ?thesis using 1(1)[OF Some False] sync_ok[OF 1(2)] by simp
    qed
  qed
qed

lemma client_flush_written:
  assumes "client_ok c" and "client_flush c = Ready c'"
  shows "client_ok c' \<and> handed c' = handed c \<and> (all_written c' \<or> \<not> client_isConnected c)"
  using assms wait_flushed_written[of c c'] by (auto simp: client_flush_def split: if_splits)

text \<open>Waiting for messages loses none.\<close>

definition client_pending :: "file_client \<Rightarrow> owned_message list" where
  "client_pending c = pending_in (arrivals c) (m_messages_in c)"

lemma length_arrive: "arrive sch q = (sch', q') \<Longrightarrow> length sch' = length sch - 1"
  by (auto simp: arrive_def split: list.splits)

lemma length_io_sync: "length (io (sync c)) = length (io c) - 1"
  by (simp add: sync_def split: list.splits)

lemma wait_incoming_ready:
  "wait_incoming c = Ready c' \<Longrightarrow>
     client_pending c' = client_pending c \<and> handed c' = handed c \<and> (client_ok c \<longrightarrow> client_ok c') \<and>
     length (io c') \<le> length (io c) \<and> length (arrivals c') \<le> length (arrivals c)"
proof (induction c rule: wait_incoming.induct)
  case (1 c)
  show ?case
  proof (cases "m_connection c")
    case None
    then show ?thesis using 1(2) by (simp add: wait_incoming.simps[of c])
  next
    case (Some k)
    show ?thesis
    proof (cases "keep_waiting k (m_messages_in c)")
      case False
      then show ?thesis using 1(2) Some by (simp add: wait_incoming.simps[of c])
    next
      case True
      obtain sch q where a: "arrive (arrivals c) (m_messages_in c) = (sch, q)" by fastforce
      have n: "\<not> (io c = [] \<and> arrivals c = [])"
        and w: "wait_incoming ((sync c)\<lparr>arrivals := sch, m_messages_in := q\<rparr>) = Ready c'"
        using 1(2) Some True a by (auto simp: wait_incoming.simps[of c] split: if_splits)
      show ?thesis
        using 1(1)[OF Some _ n a[symmetric] w] True pending_arrive[OF a] length_arrive[OF a]
          sync_ok[of c] length_io_sync[of c]
        by (auto simp: client_pending_def)
    qed
  qed
qed

end
