(* ===== verification/PhraseGen.thy ===== *)
theory PhraseGen
  imports PPCommon
begin

text \<open>
  \<^verbatim>\<open>filetransmission/ppgenerator/src/phrase_generator.cpp\<close>: the code phrase a sender prints and
  its receiver types in. The values that the generator draws from its two distributions are
  arguments; \<open>draws_ok\<close> is what \<open>std::uniform_int_distribution\<close> promises of them.
\<close>

definition c_dictionary :: "string list" where
  "c_dictionary =
    [''accismus'', ''acumen'', ''aglet'', ''anachronism'', ''aphotic'', ''aplomb'', ''behove'',
     ''cacophony'', ''cryptic'', ''doppelganger'', ''draconian'', ''ephemeral'', ''fecund'',
     ''frivol'', ''gambit'', ''garrulous'', ''iconoclast'', ''impetus'', ''intrepid'',
     ''juggernaut'', ''juxtaposition'', ''kismet'', ''makebate'', ''mendacious'', ''mettle'',
     ''murmuration'', ''nastify'', ''nefarious'', ''overmorrow'', ''paragon'', ''pessimum'',
     ''petrichor'', ''platitude'', ''puerile'', ''redame'', ''riposte'', ''sanguine'',
     ''sarcast'', ''serendipity'', ''solivagant'', ''sonder'', ''syzygy'', ''tidbit'',
     ''vagabond'', ''yaffle'', ''zephyr'']"

text \<open>\<open>std::hex\<close> on the stream prints a number below 16 as one lower-case digit.\<close>

definition hex_digit :: "nat \<Rightarrow> char" where
  "hex_digit n = (if n < 10 then char_of (48 + n) else char_of (87 + n))"

text \<open>\<open>words\<close> are the indices drawn in the loop, one for each of the \<open>word_cnt\<close> rounds.\<close>

fun phrase_words :: "nat list \<Rightarrow> string" where
  "phrase_words [] = []"
| "phrase_words (i # is) = c_dictionary ! i @ ''-'' @ phrase_words is"

definition getRandomPhrase :: "nat list \<Rightarrow> nat \<Rightarrow> nat \<Rightarrow> nat \<Rightarrow> string" where
  "getRandomPhrase words n1 n2 n3 =
     phrase_words words @ [hex_digit n1] @ [hex_digit n2] @ [hex_digit n3]"

definition draws_ok :: "nat list \<Rightarrow> nat \<Rightarrow> nat \<Rightarrow> nat \<Rightarrow> bool" where
  "draws_ok words n1 n2 n3 \<longleftrightarrow>
     (\<forall>i \<in> set words. i < length c_dictionary) \<and> n1 \<le> 15 \<and> n2 \<le> 15 \<and> n3 \<le> 15"

section \<open>The dictionary\<close>

lemma length_dictionary [simp]: "length c_dictionary = 46"
  by (simp add: c_dictionary_def)

lemma dictionary_distinct: "distinct c_dictionary"
  by code_simp

lemma dictionary_words: "\<forall>w \<in> set c_dictionary. length w \<le> 13 \<and> CHR ''-'' \<notin> set w"
proof -
  have "list_all (\<lambda>w. length w \<le> 13 \<and> list_all (\<lambda>c. c \<noteq> CHR ''-'') w) c_dictionary" by code_simp
  then show ?thesis by (auto simp: list_all_iff)
qed

lemma of_char_hex_digit: "n \<le> 15 \<Longrightarrow> (of_char (hex_digit n) :: nat) = (if n < 10 then 48 + n else 87 + n)"
  by (simp add: hex_digit_def)

lemma hex_digit_inj:
  assumes "m \<le> 15" "n \<le> 15" "hex_digit m = hex_digit n"
  shows "m = n"
proof -
  have "(if m < 10 then 48 + m else 87 + m) = (if n < 10 then 48 + n else 87 + n)"
    using of_char_hex_digit[OF assms(1)] of_char_hex_digit[OF assms(2)] assms(3) by simp
  then show ?thesis by (simp split: if_splits)
qed

lemma split_at_dash:
  assumes "CHR ''-'' \<notin> set u" "CHR ''-'' \<notin> set v" "u @ CHR ''-'' # x = v @ CHR ''-'' # y"
  shows "u = v \<and> x = y"
  using assms
proof (induction u arbitrary: v)
  case Nil
  then show ?case by (cases v) auto
next
  case (Cons c u)
  then show ?case by (cases v) auto
qed

lemma phrase_words_length:
  "\<forall>i \<in> set ws. i < 46 \<Longrightarrow> length (phrase_words ws) \<le> 14 * length ws"
proof (induction ws)
  case (Cons i ws)
  have "c_dictionary ! i \<in> set c_dictionary" using Cons.prems by simp
  then have "length (c_dictionary ! i) \<le> 13" using dictionary_words by blast
  then show ?case using Cons by simp
qed simp

lemma phrase_words_inj:
  assumes "\<forall>i \<in> set us. i < 46" "\<forall>i \<in> set vs. i < 46" "length us = length vs"
    and "phrase_words us @ x = phrase_words vs @ y"
  shows "us = vs \<and> x = y"
  using assms(3,1,2,4)
proof (induction us vs rule: list_induct2)
  case Nil
  then show ?case by simp
next
  case (Cons u us v vs)
  have "c_dictionary ! u \<in> set c_dictionary" "c_dictionary ! v \<in> set c_dictionary"
    using Cons.prems by simp_all
  then have "CHR ''-'' \<notin> set (c_dictionary ! u)" "CHR ''-'' \<notin> set (c_dictionary ! v)"
    using dictionary_words by blast+
  moreover have "c_dictionary ! u @ CHR ''-'' # (phrase_words us @ x) =
      c_dictionary ! v @ CHR ''-'' # (phrase_words vs @ y)" using Cons.prems(3) by simp
  ultimately have "c_dictionary ! u = c_dictionary ! v" "phrase_words us @ x = phrase_words vs @ y"
    using split_at_dash by blast+
  moreover from this(1) have "u = v"
    using nth_eq_iff_index_eq[OF dictionary_distinct, of u v] Cons.prems by simp
  ultimately show ?case using Cons by simp
qed

section \<open>Properties\<close>

text \<open>C30: The generated phrases are as good as the draws: different draws give different phrases (so
  with the two words of the default there are \<open>46 ^ 2 * 16 ^ 3\<close> of them), and a phrase of two words has at
  most 31 characters, so its length fits the 8-bit size field and it survives encoding and decoding.\<close>

theorem phrase_injective:
  assumes "draws_ok ws a b c" and "draws_ok ws' a' b' c'" and "length ws = length ws'"
  shows "(getRandomPhrase ws a b c = getRandomPhrase ws' a' b' c' \<longleftrightarrow>
      ws = ws' \<and> a = a' \<and> b = b' \<and> c = c') \<and>
    (length ws = 2 \<longrightarrow> length (getRandomPhrase ws a b c) \<le> 31 \<and>
      decode Receive (encode Receive (PCode
        \<lparr>code_size = word_of_nat (length (getRandomPhrase ws a b c)), code = getRandomPhrase ws a b c\<rparr>)) =
      Some (PCode \<lparr>code_size = word_of_nat (length (getRandomPhrase ws a b c)),
        code = getRandomPhrase ws a b c\<rparr>, set_id (mt_code Receive) new_message))"
proof -
  let ?p = "getRandomPhrase ws a b c"
  have ok: "\<forall>i \<in> set ws. i < 46" "\<forall>i \<in> set ws'. i < 46" using assms(1,2) by (simp_all add: draws_ok_def)
  have "?p = getRandomPhrase ws' a' b' c' \<longleftrightarrow> ws = ws' \<and> a = a' \<and> b = b' \<and> c = c'"
  proof
    assume "?p = getRandomPhrase ws' a' b' c'"
    then have e: "ws = ws' \<and> [hex_digit a, hex_digit b, hex_digit c] = [hex_digit a', hex_digit b', hex_digit c']"
      by (intro phrase_words_inj[OF ok assms(3)]) (simp add: getRandomPhrase_def)
    have r: "a \<le> 15" "b \<le> 15" "c \<le> 15" "a' \<le> 15" "b' \<le> 15" "c' \<le> 15"
      using assms(1,2) by (simp_all add: draws_ok_def)
    have "a = a'" by (rule hex_digit_inj[OF r(1,4)]) (use e in simp)
    moreover have "b = b'" by (rule hex_digit_inj[OF r(2,5)]) (use e in simp)
    moreover have "c = c'" by (rule hex_digit_inj[OF r(3,6)]) (use e in simp)
    ultimately show "ws = ws' \<and> a = a' \<and> b = b' \<and> c = c'" using e by blast
  qed simp
  moreover have "length ?p \<le> 31" if "length ws = 2"
    using phrase_words_length[OF ok(1)] that by (simp add: getRandomPhrase_def)
  moreover have "decode Receive (encode Receive (PCode \<lparr>code_size = word_of_nat (length ?p), code = ?p\<rparr>)) =
      Some (PCode \<lparr>code_size = word_of_nat (length ?p), code = ?p\<rparr>, set_id (mt_code Receive) new_message)"
    if "length ?p \<le> 31"
    using that decode_encode[of "PCode \<lparr>code_size = word_of_nat (length ?p), code = ?p\<rparr>" Receive]
    by (simp add: wf_CodePhrase_def)
  ultimately show ?thesis by blast
qed

theorem phrase_injective_witness:
  "getRandomPhrase [1, 2] 0 10 15 = ''acumen-aglet-0af'' \<and>
   getRandomPhrase [1, 2] 0 10 15 \<noteq> getRandomPhrase [2, 1] 0 10 15"
  using phrase_injective[of "[1, 2]" 0 10 15 "[2, 1]" 0 10 15]
  by (simp add: draws_ok_def) code_simp

end
