(* ===== verification/Client.thy ===== *)
theory Client
  imports ClientBase Session PhraseGen
begin

text \<open>
  \<^verbatim>\<open>filetransmission/ppclient/src/\<close>: \<^verbatim>\<open>sender.cpp\<close>, \<^verbatim>\<open>receiver.cpp\<close> and
  \<^verbatim>\<open>main.cpp\<close>, the client program. A routine ends with an \<open>outcome\<close>; \<open>Blocked\<close> also stands
  for a loop that goes round without end. What the program meets (arguments, file system, standard
  input, random draws, hashing, the values of uninitialised objects) is one record.
\<close>

datatype EOperationType = Help | OpSend | OpReceive

record Operation =
  op_type :: EOperationType
  filepath :: string
  receival_code_phrase :: string

record 'w client_env =
  ce_net :: net_env
  ce_draws :: "nat \<times> nat \<times> nat \<times> nat \<times> nat"  \<comment> \<open>two words, three hexadecimal digits\<close>
  ce_file :: "string \<Rightarrow> fs_file"
  ce_file_size :: "string \<Rightarrow> u64 option"  \<comment> \<open>\<open>None\<close>: \<open>fs::filesystem_error\<close>\<close>
  ce_alloc :: "u64 \<Rightarrow> bool"
  ce_api :: "'w evp_api"
  ce_world :: 'w
  ce_disk :: out_disk
  ce_out_opens :: bool
  ce_stdin :: string
  ce_pad :: u8
  ce_chunksize :: u64  \<comment> \<open>uninitialised: \<open>chunksize\<close>, \<open>file_size\<close>, \<open>file_name_size\<close>\<close>
  ce_size :: u64
  ce_name_size :: u8

section \<open>Both routines\<close>

text \<open>\<open>while (!(c.isConnected() && c.isValidated()))\<close>: the network thread can go on between the two
  calls.\<close>

function wait_validated :: "file_client \<Rightarrow> outcome \<times> file_client" where
  "wait_validated c =
     (let again = (if io c = [] then (Blocked, c) else wait_validated (sync c))
      in if client_isConnected c
         then (case client_isValidated (sync c) of
                 None \<Rightarrow> (Undef, c)
               | Some v \<Rightarrow> if v then (Returned True, sync c) else again)
         else again)"
  by pat_completeness auto

termination
  by (relation "measure (\<lambda>c. length (io c))") (auto simp: length_io_sync)

declare wait_validated.simps [simp del]

definition waitForConnection :: "net_env \<Rightarrow> file_client \<Rightarrow> outcome \<times> file_client" where
  "waitForConnection ne c =
     (case autoConnect ne 2000 c of
        DiscoveryThrows \<Rightarrow> (Exception ''discovery'', c)
      | DiscoveryHangs \<Rightarrow> (Blocked, c)
      | Terminates \<Rightarrow> (Exception ''std::terminate'', c)
      | Connected connected c' \<Rightarrow> if \<not> connected then (Returned False, c') else wait_validated c')"

text \<open>The loop over the messages that came in answer to a request: it stops at a \<open>Reject\<close> or an
  \<open>Accept\<close>, and when the queue is empty.\<close>

datatype answer = NoAnswer | Rejected | Accepted PostMetadata | Undecodable

function answer_loop :: "owned_message schedule \<Rightarrow> owned_message tsqueue \<Rightarrow>
    answer \<times> owned_message schedule \<times> owned_message tsqueue" where
  "answer_loop sch q =
     (case arrive sch q of (sch1, q1) \<Rightarrow>
        case pop_front q1 of
          None \<Rightarrow> (NoAnswer, sch1, q1)
        | Some (om, q2) \<Rightarrow>
            let msg = owned_msg om
            in if has_type msg Reject then (Rejected, sch1, q2)
               else if has_type msg Accept then
                 (case decode Accept msg of
                    Some (PPost p, _) \<Rightarrow> (Accepted p, sch1, q2)
                  | _ \<Rightarrow> (Undecodable, sch1, q2))
               else answer_loop sch1 q2)"
  by pat_completeness auto

termination
  by (relation "measure (\<lambda>(sch, q). length (pending_in sch q))") (auto dest!: pending_pop[OF sym])

declare answer_loop.simps [simp del]

text \<open>\<open>c.incoming().wait()\<close> and the loop.\<close>

definition wait_answer :: "file_client \<Rightarrow> (answer \<times> file_client) option" where
  "wait_answer c =
     (case wait_q (arrivals c) (m_messages_in c) of
        None \<Rightarrow> None
      | Some (sch, q) \<Rightarrow> (case answer_loop sch q of (a, sch, q) \<Rightarrow>
          Some (a, c\<lparr>arrivals := sch, m_messages_in := q\<rparr>)))"

section \<open>The sender\<close>

definition filename :: "string \<Rightarrow> string" where
  "filename path = rev (takeWhile (\<lambda>x. x \<noteq> CHR ''/'') (rev path))"

definition random_phrase :: "'w client_env \<Rightarrow> string" where
  "random_phrase env = (case ce_draws env of (w1, w2, a, b, d) \<Rightarrow> getRandomPhrase [w1, w2] a b d)"

definition send_metadata :: "string \<Rightarrow> string \<Rightarrow> u64 \<Rightarrow> PreMetadata" where
  "send_metadata phrase path n =
     \<lparr>pre_payload_type = pt_code File,
      pre_code_phrase = \<lparr>code_size = word_of_nat (length phrase), code = phrase\<rparr>,
      pre_file_data = \<lparr>file_size = n, file_name_size = word_of_nat (length (filename path)),
                       file_name = filename path\<rparr>\<rparr>"

text \<open>The second component is \<open>out_chunksize\<close>.\<close>

definition sender_establishSession :: "'w client_env \<Rightarrow> Operation \<Rightarrow> u64 \<Rightarrow> file_client \<Rightarrow>
    outcome \<times> u64 \<times> file_client" where
  "sender_establishSession env op out_chunksize c =
     (case ce_file_size env (filepath op) of
        None \<Rightarrow> (Returned False, out_chunksize, c)
      | Some n \<Rightarrow>
          (case io_send (encode Send (PPre (send_metadata (random_phrase env) (filepath op) n))) c of
             (ok, c) \<Rightarrow>
               if \<not> ok then (Returned False, out_chunksize, c)
               else (case wait_answer c of
                       None \<Rightarrow> (Blocked, out_chunksize, c)
                     | Some (Rejected, c) \<Rightarrow> (Returned False, out_chunksize, c)
                     | Some (Accepted p, c) \<Rightarrow> (Returned True, max_chunk_size p, c)
                     | Some (NoAnswer, c) \<Rightarrow> (Returned True, out_chunksize, c)
                     | Some (Undecodable, c) \<Rightarrow> (Undef, out_chunksize, c))))"

definition sender_startSession :: "'w client_env \<Rightarrow> Operation \<Rightarrow> u64 \<Rightarrow> file_client \<Rightarrow>
    outcome \<times> file_client" where
  "sender_startSession env op chunksize c =
     (case sender_mainLoop (ce_api env) (ce_alloc env) (ce_pad env) (ce_file env (filepath op)) chunksize
             io_send (arrivals c) (m_messages_in c) (ce_world env) c of
        (r, s) \<Rightarrow> (r, (ss_client s)\<lparr>arrivals := ss_sched s, m_messages_in := ss_in s\<rparr>))"

text \<open>The inner loop of \<open>waitForConfirmation\<close>: the value it returns, \<open>None\<close> when the queue is empty.\<close>

function confirm_drain :: "owned_message schedule \<Rightarrow> owned_message tsqueue \<Rightarrow>
    bool option \<times> owned_message schedule \<times> owned_message tsqueue" where
  "confirm_drain sch q =
     (case arrive sch q of (sch1, q1) \<Rightarrow>
        case pop_front q1 of
          None \<Rightarrow> (None, sch1, q1)
        | Some (om, q2) \<Rightarrow>
            if has_type (owned_msg om) Abort then (Some False, sch1, q2)
            else if has_type (owned_msg om) Success then (Some True, sch1, q2)
            else confirm_drain sch1 q2)"
  by pat_completeness auto

termination
  by (relation "measure (\<lambda>(sch, q). length (pending_in sch q))") (auto dest!: pending_pop[OF sym])

declare confirm_drain.simps [simp del]

text \<open>What the outer loop needs to come back: it does not find the queue empty for nothing.\<close>

lemma length_confirm_drain:
  "confirm_drain sch q = (r, sch', q') \<Longrightarrow> length sch' \<le> length sch - 1"
proof (induction sch q rule: confirm_drain.induct)
  case (1 sch q)
  obtain sch1 q1 where a: "arrive sch q = (sch1, q1)" by fastforce
  note l = length_arrive[OF a]
  show ?case
  proof (cases "pop_front q1")
    case None
    then show ?thesis using 1(2) l by (simp add: confirm_drain.simps[of sch q] a)
  next
    case (Some p)
    obtain om q2 where p: "p = (om, q2)" by fastforce
    show ?thesis
    proof (cases "has_type (owned_msg om) Abort \<or> has_type (owned_msg om) Success")
      case True
      then show ?thesis using 1(2) l Some p by (auto simp: confirm_drain.simps[of sch q] a split: if_splits)
    next
      case False
      then have "confirm_drain sch1 q2 = (r, sch', q')"
        using 1(2) Some p by (simp add: confirm_drain.simps[of sch q] a)
      moreover have "\<not> has_type (owned_msg om) Abort" "\<not> has_type (owned_msg om) Success"
        using False by simp_all
      ultimately show ?thesis using 1(1)[OF a[symmetric] Some p[symmetric]] l by simp
    qed
  qed
qed

lemma confirmation_decreases:
  assumes "wait_incoming (sync c) = Ready c1"
    and "confirm_drain (arrivals c1) (m_messages_in c1) = (r, sch, q)" and "io c1 \<noteq> [] \<or> sch \<noteq> []"
  shows "length (io c1) + length sch < length (io c) + length (arrivals c)"
proof -
  have "length (io c1) \<le> length (io c) - 1" "length (arrivals c1) \<le> length (arrivals c)"
    using wait_incoming_ready[OF assms(1)] by (simp_all add: length_io_sync)
  moreover have "length sch \<le> length (arrivals c1) - 1" using length_confirm_drain[OF assms(2)] .
  ultimately show ?thesis using assms(3) by (cases "io c1"; cases sch) auto
qed

text \<open>The outer loop ends only inside: with the connection closed it goes round without waiting.\<close>

function waitForConfirmation :: "file_client \<Rightarrow> outcome \<times> file_client" where
  "waitForConfirmation c =
     (case wait_incoming (sync c) of
        Never \<Rightarrow> (Blocked, c)
      | NullPointer \<Rightarrow> (Undef, c)
      | Ready c1 \<Rightarrow>
          (case confirm_drain (arrivals c1) (m_messages_in c1) of (r, sch, q) \<Rightarrow>
             let c2 = c1\<lparr>arrivals := sch, m_messages_in := q\<rparr>
             in case r of
                  Some b \<Rightarrow> (Returned b, c2)
                | None \<Rightarrow> if io c2 = [] \<and> arrivals c2 = [] then (Blocked, c2) else waitForConfirmation c2))"
  by pat_completeness auto

termination
  by (relation "measure (\<lambda>c. length (io c) + length (arrivals c))")
    (auto dest: confirmation_decreases[OF _ sym])

declare waitForConfirmation.simps [simp del]

text \<open>The destructor of the local \<open>FileClient\<close> runs however the routine is left.\<close>

definition leave :: "outcome \<times> file_client \<Rightarrow> outcome \<times> file_client" where
  "leave s = (case s of
       (Returned b, c) \<Rightarrow> (Returned b, client_disconnect c)
     | (Exception e, c) \<Rightarrow> (Exception e, client_disconnect c)
     | _ \<Rightarrow> s)"

definition sendRoutine :: "'w client_env \<Rightarrow> Operation \<Rightarrow> file_client \<Rightarrow> outcome \<times> file_client" where
  "sendRoutine env op c =
     leave
       (case waitForConnection (ce_net env) c of
          (Returned True, c) \<Rightarrow>
            (case sender_establishSession env op (ce_chunksize env) c of
               (Returned True, chunksize, c) \<Rightarrow>
                 (case sender_startSession env op chunksize c of
                    (Returned True, c) \<Rightarrow> waitForConfirmation c
                  | s \<Rightarrow> s)
             | (r, _, c) \<Rightarrow> (r, c))
        | s \<Rightarrow> s)"

section \<open>The receiver\<close>

text \<open>The file data of the request is not initialised, except for its empty name.\<close>

definition request_metadata :: "'w client_env \<Rightarrow> string \<Rightarrow> PreMetadata" where
  "request_metadata env phrase =
     \<lparr>pre_payload_type = pt_code File,
      pre_code_phrase = \<lparr>code_size = word_of_nat (length phrase), code = phrase\<rparr>,
      pre_file_data = \<lparr>file_size = ce_size env, file_name_size = ce_name_size env, file_name = []\<rparr>\<rparr>"

definition receiver_establishSession :: "'w client_env \<Rightarrow> Operation \<Rightarrow> file_client \<Rightarrow>
    outcome \<times> file_client" where
  "receiver_establishSession env op c =
     (let c = snd (io_send (encode RequestReceive (PPre (request_metadata env (receival_code_phrase op)))) c)
      in case wait_answer c of
           None \<Rightarrow> (Blocked, c)
         | Some (Rejected, c) \<Rightarrow> (Returned False, c)
         | Some (Accepted _, c) \<Rightarrow> (Returned True, c)
         | Some (NoAnswer, c) \<Rightarrow> (Returned True, c)
         | Some (Undecodable, c) \<Rightarrow> (Undef, c))"

text \<open>Reading a character skips white space, and leaves \<open>ans\<close> as it is at the end of the input.\<close>

definition read_answer :: "string \<Rightarrow> char" where
  "read_answer input = (case dropWhile is_space input of [] \<Rightarrow> CHR ''n'' | x # _ \<Rightarrow> x)"

text \<open>With the bytes written to \<^verbatim>\<open>./out\<close>.\<close>

definition receiver_startSession :: "'w client_env \<Rightarrow> Operation \<Rightarrow> file_client \<Rightarrow>
    outcome \<times> file_client \<times> bytes" where
  "receiver_startSession env op c =
     (let phrase = receival_code_phrase op;
          code_phrase = \<lparr>code_size = word_of_nat (length phrase), code = phrase\<rparr>;
          c = snd (io_send (encode Receive (PCode code_phrase)) c)
      in case receiver_mainLoop (ce_api env) (ce_disk env) (ce_pad env) (ce_out_opens env)
                (\<lambda>m c. snd (io_send m c)) (arrivals c) (m_messages_in c) (ce_world env) c of
           (r, s, c) \<Rightarrow> (r, c\<lparr>arrivals := rs_sched s, m_messages_in := rs_in s\<rparr>, ofs_data (rs_ofs s)))"

definition finish_receive :: "'w client_env \<Rightarrow> file_client \<Rightarrow> outcome \<times> file_client" where
  "finish_receive env c =
     (let c = snd (io_send (encode FinishReceive (PEmpty (Empty (ce_pad env)))) c)
      in case client_flush (sync c) of
           Never \<Rightarrow> (Blocked, c)
         | NullPointer \<Rightarrow> (Undef, c)
         | Ready c \<Rightarrow> (Returned True, c))"

text \<open>Before the destructor, with the bytes written to the output file if the session was started.\<close>

definition receive_steps :: "'w client_env \<Rightarrow> Operation \<Rightarrow> file_client \<Rightarrow>
    outcome \<times> file_client \<times> bytes option" where
  "receive_steps env op c =
     (case waitForConnection (ce_net env) c of
        (Returned True, c) \<Rightarrow>
          (case receiver_establishSession env op c of
             (Returned True, c) \<Rightarrow>
               let ans = read_answer (ce_stdin env)
               in if \<not> (ans = CHR ''y'' \<or> ans = CHR ''Y'') then (Returned True, c, None)
                  else (case receiver_startSession env op c of
                          (Returned True, c, out) \<Rightarrow>
                            (case finish_receive env c of (r, c) \<Rightarrow> (r, c, Some out))
                        | (r, c, out) \<Rightarrow> (r, c, Some out))
           | (r, c) \<Rightarrow> (r, c, None))
      | (r, c) \<Rightarrow> (r, c, None))"

definition receiveRoutine :: "'w client_env \<Rightarrow> Operation \<Rightarrow> file_client \<Rightarrow>
    outcome \<times> file_client \<times> bytes option" where
  "receiveRoutine env op c =
     (case receive_steps env op c of (r, c, out) \<Rightarrow>
        case leave (r, c) of (r, c) \<Rightarrow> (r, c, out))"

section \<open>main\<close>

text \<open>What \<^verbatim>\<open>boost::program_options\<close> finds in the arguments; it can throw.\<close>

record variables_map =
  vm_help :: bool
  vm_send :: "string option"
  vm_receive :: "string option"

text \<open>\<open>exists\<close> is \<open>fs::exists\<close>, which throws (\<open>None\<close>) when the path cannot be looked at.\<close>

definition readArguments :: "(string \<Rightarrow> bool option) \<Rightarrow> string + variables_map \<Rightarrow> string + Operation" where
  "readArguments exists parsed =
     (case parsed of
        Inl e \<Rightarrow> Inl e
      | Inr vm \<Rightarrow>
          if vm_help vm then Inr \<lparr>op_type = Help, filepath = [], receival_code_phrase = []\<rparr>
          else (case vm_send vm of
              Some p \<Rightarrow>
                (case exists p of
                   None \<Rightarrow> Inl ''filesystem_error''
                 | Some ex \<Rightarrow>
                     if \<not> ex then Inl ''File doesn't exist''
                     else Inr \<lparr>op_type = OpSend, filepath = p, receival_code_phrase = []\<rparr>)
            | None \<Rightarrow>
                (case vm_receive vm of
                   Some phrase \<Rightarrow> Inr \<lparr>op_type = OpReceive, filepath = [], receival_code_phrase = phrase\<rparr>
                 | None \<Rightarrow> Inl ''Invalid arguments'')))"

text \<open>How the process ends: an exception of a routine is not caught.\<close>

datatype exit_status = ExitStatus nat | Runs | Aborts | UndefinedBehaviour

fun exit_of :: "outcome \<Rightarrow> exit_status" where
  "exit_of (Returned result) = ExitStatus (if \<not> result then 1 else 0)"
| "exit_of Blocked = Runs"
| "exit_of (Exception _) = Aborts"
| "exit_of Undef = UndefinedBehaviour"

definition client_main :: "(string \<Rightarrow> bool option) \<Rightarrow> string + variables_map \<Rightarrow> 'w client_env \<Rightarrow>
    file_client \<Rightarrow> exit_status" where
  "client_main exists parsed env c =
     (case readArguments exists parsed of
        Inl _ \<Rightarrow> ExitStatus 1
      | Inr op \<Rightarrow>
          (case op_type op of
             Help \<Rightarrow> ExitStatus 0
           | OpSend \<Rightarrow> exit_of (fst (sendRoutine env op c))
           | OpReceive \<Rightarrow> exit_of (fst (receiveRoutine env op c))))"

section \<open>A client's history\<close>

text \<open>What a caller of the sessions may rely on when it hands them a send callback: a history of
  what was handed over, and an invariant. The client's own \<open>send\<close> provides it.\<close>

locale logging_send =
  fixes cb :: "message \<Rightarrow> 'c \<Rightarrow> bool \<times> 'c"
    and log :: "'c \<Rightarrow> (message \<times> bool) list"
    and good :: "'c \<Rightarrow> bool"
  assumes log_cb: "log (snd (cb m c)) = log c @ [(m, fst (cb m c))]"
    and good_cb: "good c \<Longrightarrow> good (snd (cb m c))"
begin

lemma good_send_all: "good c \<Longrightarrow> good (send_all cb ms c)"
  by (induction ms arbitrary: c) (simp_all add: good_cb)

lemma log_send_all: "map fst (log (send_all cb ms c)) = map fst (log c) @ ms"
  by (induction ms arbitrary: c) (simp_all add: log_cb)

lemma log_accepts: "accepts cb ms c \<Longrightarrow> log (send_all cb ms c) = log c @ map (\<lambda>m. (m, True)) ms"
  by (induction ms arbitrary: c) (simp_all add: log_cb)

text \<open>A main loop of a sender that reports success has had every chunk of the file accepted.\<close>

lemma sender_mainLoop_log:
  assumes "hash_works api sha" and "alloc k" and "good c"
    and "sender_mainLoop api alloc pad f k cb sch q w c = (Returned True, s')"
  shows "f \<noteq> Missing \<and> f \<noteq> Inaccessible \<and> good (ss_client s') \<and> (\<exists>b. log (ss_client s') = log c @
    map (\<lambda>m. (m, True)) (chunk_messages sha k (file_bytes f)) @ [(encode FinalChunk (PEmpty (Empty pad)), b)])"
proof -
  let ?s = "\<lparr>ss_sched = sch, ss_in = q, ss_ifs = open_ifs f, ss_world = w, ss_client = c\<rparr>"
  let ?ms = "chunk_messages sha k (file_bytes f)"
  let ?m = "encode FinalChunk (PEmpty (Empty pad))"
  have f: "f \<noteq> Missing" "f \<noteq> Inaccessible" using assms(4) by (auto simp: sender_mainLoop_def)
  obtain r1 s1 where l: "send_loop api alloc cb k ?s = (r1, s1)" by fastforce
  have r: "r1 = Returned True" "ss_client s' = snd (cb ?m (ss_client s1))"
    using assms(4) f l by (auto simp: sender_mainLoop_def split: outcome.splits)
  then have "sends_prefix cb ?ms True c (ss_client s1)"
    using send_loop_prefix[OF assms(1,2) l] by auto
  then have "ss_client s1 = send_all cb ?ms c" "accepts cb ?ms c"
    unfolding sends_prefix_def by auto
  then show ?thesis
    using f r(2) log_accepts log_cb good_cb good_send_all assms(3) by simp
qed

end

interpretation cl: logging_send io_send handed client_ok
  by unfold_locales (simp_all add: io_send_ok)

text \<open>What connecting and waiting for an answer leave as it was.\<close>

lemma wait_validated_ready:
  "wait_validated c = (Returned b, c') \<Longrightarrow> client_ok c \<Longrightarrow>
     b \<and> client_ok c' \<and> handed c' = handed c \<and> client_pending c' = client_pending c \<and>
     client_isValidated c' = Some True"
proof (induction c rule: wait_validated.induct)
  case (1 c)
  note w = 1(2)[unfolded wait_validated.simps[of c] Let_def]
  show ?case
  proof (cases "client_isConnected c \<and> client_isValidated (sync c) = Some True")
    case True
    then have "b" "c' = sync c" using w by simp_all
    then show ?thesis using True 1(3) sync_ok[of c] by (simp add: client_pending_def)
  next
    case False
    then have "io c \<noteq> []" "wait_validated (sync c) = (Returned b, c')"
      using w by (auto split: if_splits option.splits)
    then show ?thesis using 1(1) 1(3) sync_ok[of c]
      by (auto simp: client_pending_def)
  qed
qed

lemma new_client_simps [simp]:
  "handed (new_client events sch) = []" "client_pending (new_client events sch) = concat sch"
  "io (new_client events sch) = events" "m_connection (new_client events sch) = None"
  by (simp_all add: new_client_def client_pending_def pending_in_def)

lemma client_ok_new: "\<forall>es \<in> set events. fifo_tasks es \<Longrightarrow> client_ok (new_client events sch)"
  by (simp add: client_ok_def)

lemma autoConnect_connected:
  assumes "autoConnect ne timeout c = Connected ok c'" and "client_ok c" and "handed c = []"
  shows "client_ok c' \<and> handed c' = [] \<and> client_pending c' = client_pending c \<and> io c' = io c \<and>
    (ok \<longrightarrow> m_connection c' = Some client_start)"
proof -
  obtain host prt where "connect (resolved ne) (thread_ok ne) host prt c = Some (ok, c')"
    using assms(1) by (auto simp: autoConnect_def try_connect_def
      split: scan_outcome.splits scan_result.splits option.splits prod.splits)
  from connect_ok[OF assms(2) _ this] assms(3) show ?thesis by (simp add: client_pending_def)
qed

lemma waitForConnection_ready:
  assumes "waitForConnection ne c = (Returned True, c')" and "client_ok c" and "handed c = []"
  shows "client_ok c' \<and> handed c' = [] \<and> client_pending c' = client_pending c \<and>
    client_isValidated c' = Some True"
  using assms wait_validated_ready autoConnect_connected[OF _ assms(2,3)]
  by (fastforce simp: waitForConnection_def split: auto_connect.splits if_splits)

lemma arrive_pop_pending:
  "arrive sch q = (sch1, q1) \<Longrightarrow> pop_front q1 = Some (om, q2) \<Longrightarrow>
     map owned_msg (pending_in sch q) = owned_msg om # map owned_msg (pending_in sch1 q2)"
  by (drule (1) pending_pop) simp

definition settles :: "message \<Rightarrow> bool" where
  "settles m \<longleftrightarrow> has_type m Accept \<or> has_type m Reject"

text \<open>\<open>p\<close> are the messages taken while waiting for the answer to a request that was not refused: up to
  the first \<open>Accept\<close>, which announces \<open>d\<close>, or, when the queue ran empty before one came, some
  messages that are no answer.\<close>

definition answered :: "message list \<Rightarrow> PostMetadata option \<Rightarrow> bool" where
  "answered p d \<longleftrightarrow> (case d of
       None \<Rightarrow> p \<noteq> [] \<and> (\<forall>m \<in> set p. \<not> settles m)
     | Some d \<Rightarrow> p \<noteq> [] \<and> (\<forall>m \<in> set (butlast p). \<not> settles m) \<and> has_type (last p) Accept \<and>
         (\<exists>m'. decode Accept (last p) = Some (PPost d, m')))"

lemma answered_Cons:
  "\<not> settles m \<Longrightarrow> answered p d \<Longrightarrow> answered (m # p) d"
  by (auto simp: answered_def split: option.splits)

text \<open>An \<open>Accept\<close> that comes first is the answer, and the only message taken.\<close>

lemma answered_first:
  assumes "answered p d" "p @ rest = m # ms" "has_type m Accept"
  shows "p = [m]"
proof -
  obtain p' where p: "p = m # p'" using assms(1,2) by (cases p) (auto simp: answered_def split: option.splits)
  have "settles m" using assms(3) by (simp add: settles_def)
  then show ?thesis using assms(1) p
    by (cases p' rule: rev_cases) (auto simp: answered_def split: option.splits)
qed

fun answer_data :: "answer \<Rightarrow> PostMetadata option" where
  "answer_data (Accepted d) = Some d"
| "answer_data _ = None"

lemma answer_loop_consumes:
  "answer_loop sch q = (a, sch', q') \<Longrightarrow>
     \<exists>p. map owned_msg (pending_in sch q) = p @ map owned_msg (pending_in sch' q') \<and>
       (m_deq q \<noteq> [] \<longrightarrow> p \<noteq> []) \<and>
       (a = NoAnswer \<and> p \<noteq> [] \<or> a \<in> range Accepted \<longrightarrow> answered p (answer_data a))"
proof (induction sch q rule: answer_loop.induct)
  case (1 sch q)
  obtain sch1 q1 where arr: "arrive sch q = (sch1, q1)" by fastforce
  show ?case
  proof (cases "pop_front q1")
    case None
    then have "m_deq q = []" using arr by (auto simp: arrive_def pop_front_eq_None split: list.splits)
    then show ?thesis using None 1(2) pending_arrive[OF arr] by (auto simp: answer_loop.simps[of sch q] arr)
  next
    case (Some pr)
    obtain om q2 where pr: "pr = (om, q2)" by fastforce
    note e = arrive_pop_pending[OF arr Some[unfolded pr]]
    have loop: "(if has_type (owned_msg om) Reject then (Rejected, sch1, q2)
       else if has_type (owned_msg om) Accept then
         (case decode Accept (owned_msg om) of Some (PPost p, _) \<Rightarrow> (Accepted p, sch1, q2)
          | _ \<Rightarrow> (Undecodable, sch1, q2))
       else answer_loop sch1 q2) = (a, sch', q')"
      using 1(2)[unfolded answer_loop.simps[of sch q]] by (simp only: arr Some pr prod.case option.case Let_def)
    show ?thesis
    proof (cases "settles (owned_msg om)")
      case True
      then have "sch' = sch1" "q' = q2" and "a \<noteq> NoAnswer" and "a = Accepted d \<longrightarrow> has_type (owned_msg om) Accept \<and>
          (\<exists>m'. decode Accept (owned_msg om) = Some (PPost d, m'))" for d
        using loop by (auto simp: settles_def split: if_splits option.splits payload.splits)
      then show ?thesis using e by (intro exI[of _ "[owned_msg om]"]) (auto simp: answered_def)
    next
      case False
      then have n: "\<not> has_type (owned_msg om) Reject" "\<not> has_type (owned_msg om) Accept"
        by (simp_all add: settles_def)
      then have "answer_loop sch1 q2 = (a, sch', q')" using loop by simp
      from 1(1)[OF arr[symmetric] Some pr[symmetric] refl n this]
      obtain p where p: "map owned_msg (pending_in sch1 q2) = p @ map owned_msg (pending_in sch' q')"
        "a = NoAnswer \<and> p \<noteq> [] \<or> a \<in> range Accepted \<longrightarrow> answered p (answer_data a)"
        by auto
      have "answered (owned_msg om # p) (answer_data a)" if "a \<in> {NoAnswer} \<union> range Accepted"
        using p(2) that answered_Cons[OF False] False
        by (cases "p = [] \<and> a = NoAnswer") (auto simp: answered_def)
      then show ?thesis using e p(1) by (intro exI[of _ "owned_msg om # p"]) simp
    qed
  qed
qed

lemma wait_answer_consumes:
  assumes "wait_answer c = Some (a, c')"
  shows "handed c' = handed c \<and> client_ok c' = client_ok c \<and> m_connection c' = m_connection c \<and>
    (\<exists>p. map owned_msg (client_pending c) = p @ map owned_msg (client_pending c') \<and>
      (a \<in> {NoAnswer} \<union> range Accepted \<longrightarrow> answered p (answer_data a)))"
proof -
  obtain sch q sch' q' where w: "wait_q (arrivals c) (m_messages_in c) = Some (sch, q)"
    "answer_loop sch q = (a, sch', q')" "c' = c\<lparr>arrivals := sch', m_messages_in := q'\<rparr>"
    using assms by (auto simp: wait_answer_def split: option.splits prod.splits)
  then show ?thesis
    using answer_loop_consumes[OF w(2)] pending_wait[OF w(1)] by (auto simp: client_pending_def)
qed

lemma find_Some_split:
  assumes "find P xs = Some x"
  shows "\<exists>pre post. xs = pre @ x # post \<and> (\<forall>y \<in> set pre. \<not> P y)"
  using assms
proof (induction xs)
  case (Cons y xs)
  show ?case
  proof (cases "P y")
    case True
    then show ?thesis using Cons.prems by (intro exI[of _ "[]"] exI[of _ xs]) simp
  next
    case False
    then obtain pre post where "xs = pre @ x # post" "\<forall>y \<in> set pre. \<not> P y" using Cons by auto
    then show ?thesis using False by (intro exI[of _ "y # pre"] exI[of _ post]) simp
  qed
qed simp

text \<open>\<open>waitForConfirmation\<close> looks for the first \<open>Success\<close> or \<open>Abort\<close>.\<close>

definition confirms :: "message \<Rightarrow> bool" where
  "confirms m \<longleftrightarrow> has_type m Success \<or> has_type m Abort"

lemma confirm_drain_find:
  "confirm_drain sch q = (r, sch', q') \<Longrightarrow>
     (case r of
        Some b \<Rightarrow> \<exists>m. find confirms (map owned_msg (pending_in sch q)) = Some m \<and> b = has_type m Success
      | None \<Rightarrow> find confirms (map owned_msg (pending_in sch q)) =
          find confirms (map owned_msg (pending_in sch' q')) \<and> m_deq q' = [])"
proof (induction sch q rule: confirm_drain.induct)
  case (1 sch q)
  obtain sch1 q1 where arr: "arrive sch q = (sch1, q1)" by fastforce
  show ?case
  proof (cases "pop_front q1")
    case None
    then have "(None, sch1, q1) = (r, sch', q')" using 1(2) by (simp add: confirm_drain.simps[of sch q] arr)
    then show ?thesis using None pending_arrive[OF arr] by (auto simp: pop_front_eq_None)
  next
    case (Some pr)
    obtain om q2 where pr: "pr = (om, q2)" by fastforce
    note e = arrive_pop_pending[OF arr Some[unfolded pr]]
    show ?thesis
    proof (cases "confirms (owned_msg om)")
      case True
      then show ?thesis using 1(2) e Some pr
        by (auto simp: confirm_drain.simps[of sch q] arr confirms_def has_type_unique split: if_splits)
    next
      case False
      then have n: "\<not> has_type (owned_msg om) Abort" "\<not> has_type (owned_msg om) Success"
        by (simp_all add: confirms_def)
      then have "confirm_drain sch1 q2 = (r, sch', q')"
        using 1(2) Some pr by (simp add: confirm_drain.simps[of sch q] arr)
      from 1(1)[OF arr[symmetric] Some pr[symmetric] n this] show ?thesis
        using e False by (simp split: option.splits)
    qed
  qed
qed

lemma wait_incoming_never:
  "wait_incoming c = Never \<Longrightarrow> client_pending c = []"
proof (induction c rule: wait_incoming.induct)
  case (1 c)
  show ?case
  proof (cases "m_connection c")
    case None
    then show ?thesis using 1(2) by (simp add: wait_incoming.simps[of c])
  next
    case (Some k)
    obtain sch q where arr: "arrive (arrivals c) (m_messages_in c) = (sch, q)" by fastforce
    have k: "keep_waiting k (m_messages_in c)"
      using 1(2) Some by (simp add: wait_incoming.simps[of c] split: if_splits)
    show ?thesis
    proof (cases "io c = [] \<and> arrivals c = []")
      case True
      then show ?thesis using k by (simp add: client_pending_def pending_in_def keep_waiting_def)
    next
      case False
      then have "wait_incoming ((sync c)\<lparr>arrivals := sch, m_messages_in := q\<rparr>) = Never"
        using 1(2) Some k arr by (auto simp: wait_incoming.simps[of c])
      from 1(1)[OF Some _ False arr[symmetric] this] k show ?thesis
        using pending_arrive[OF arr] by (simp add: client_pending_def)
    qed
  qed
qed

lemma wait_incoming_null: "wait_incoming c = NullPointer \<longleftrightarrow> m_connection c = None"
proof (induction c rule: wait_incoming.induct)
  case (1 c)
  obtain sch q where arr: "arrive (arrivals c) (m_messages_in c) = (sch, q)" by fastforce
  then show ?case using 1
    by (cases "m_connection c") (simp_all add: wait_incoming.simps[of c])
qed

lemma wait_incoming_connection: "wait_incoming c = Ready c' \<Longrightarrow> m_connection c' \<noteq> None"
proof (induction c rule: wait_incoming.induct)
  case (1 c)
  obtain sch q where arr: "arrive (arrivals c) (m_messages_in c) = (sch, q)" by fastforce
  then show ?case using 1
    by (cases "m_connection c") (auto simp: wait_incoming.simps[of c] split: if_splits)
qed

lemma client_sync_pending [simp]: "client_pending (sync c) = client_pending c"
  by (simp add: client_pending_def)

text \<open>One round of \<open>waitForConfirmation\<close>.\<close>

lemma confirmation_round:
  assumes "wait_incoming (sync c) = Ready c1"
    and "confirm_drain (arrivals c1) (m_messages_in c1) = (r, sch, q)"
    and "c2 = c1\<lparr>arrivals := sch, m_messages_in := q\<rparr>"
  shows "waitForConfirmation c = (case r of
      Some b \<Rightarrow> (Returned b, c2)
    | None \<Rightarrow> if io c2 = [] \<and> arrivals c2 = [] then (Blocked, c2) else waitForConfirmation c2)"
  unfolding assms(3) using assms(1,2) by (simp add: waitForConfirmation.simps[of c] Let_def)

lemma confirmation_find:
  "fst (waitForConfirmation c) =
     (if m_connection c = None then Undef
      else case find confirms (map owned_msg (client_pending c)) of
        None \<Rightarrow> Blocked
      | Some m \<Rightarrow> Returned (has_type m Success))"
proof (induction c rule: waitForConfirmation.induct)
  case (1 c)
  show ?case
  proof (cases "wait_incoming (sync c)")
    case Never
    then have "m_connection c \<noteq> None" using wait_incoming_null[of "sync c"] by auto
    then show ?thesis using Never wait_incoming_never[OF Never]
      by (simp add: waitForConfirmation.simps[of c])
  next
    case NullPointer
    then show ?thesis using wait_incoming_null[of "sync c"] by (simp add: waitForConfirmation.simps[of c])
  next
    case (Ready c1)
    have n: "m_connection c \<noteq> None" "m_connection c1 \<noteq> None"
      using wait_incoming_null[of "sync c"] wait_incoming_connection[OF Ready] Ready by auto
    have p: "client_pending c1 = client_pending c" using wait_incoming_ready[OF Ready] by simp
    obtain r sch q where d: "confirm_drain (arrivals c1) (m_messages_in c1) = (r, sch, q)"
      by (metis prod.exhaust)
    note f = confirm_drain_find[OF d, folded client_pending_def, unfolded p]
    show ?thesis
    proof (cases r)
      case (Some b)
      then show ?thesis using n f Ready d by (auto simp: waitForConfirmation.simps[of c])
    next
      case None
      let ?c = "c1\<lparr>arrivals := sch, m_messages_in := q\<rparr>"
      have g: "find confirms (map owned_msg (client_pending c)) =
          find confirms (map owned_msg (client_pending ?c))" "m_deq q = []"
        using f None by (simp_all add: client_pending_def)
      show ?thesis
      proof (cases "io ?c = [] \<and> arrivals ?c = []")
        case True
        then have "client_pending ?c = []" using g(2) by (simp add: client_pending_def pending_in_def)
        then show ?thesis using True n Ready d None g(1) by (simp add: waitForConfirmation.simps[of c])
      next
        case False
        then have "waitForConfirmation c = waitForConfirmation ?c"
          by (simp only: confirmation_round[OF Ready d refl] None option.case False if_False)
        then show ?thesis using 1[OF Ready d[symmetric] refl refl None False] n g(1) by auto
      qed
    qed
  qed
qed

lemma confirmation_handed: "handed (snd (waitForConfirmation c)) = handed c"
proof (induction c rule: waitForConfirmation.induct)
  case (1 c)
  show ?case
  proof (cases "wait_incoming (sync c)")
    case (Ready c1)
    have p: "handed c1 = handed c" using wait_incoming_ready[OF Ready] by simp
    obtain r sch q where d: "confirm_drain (arrivals c1) (m_messages_in c1) = (r, sch, q)"
      by (metis prod.exhaust)
    show ?thesis using 1[OF Ready d[symmetric] refl refl] p
      by (cases r) (simp_all add: confirmation_round[OF Ready d refl])
  qed (simp_all add: waitForConfirmation.simps[of c])
qed

text \<open>Drawing the answer out of a request.\<close>

lemma sender_established:
  assumes "sender_establishSession env op k0 c = (Returned True, k, c')"
    and "client_ok c" and "handed c = []"
  shows "\<exists>n p. ce_file_size env (filepath op) = Some n \<and>
    handed c' = [(encode Send (PPre (send_metadata (random_phrase env) (filepath op) n)), True)] \<and>
    client_ok c' \<and> map owned_msg (client_pending c) = p @ map owned_msg (client_pending c') \<and>
    (\<exists>d. answered p d \<and> k = (case d of None \<Rightarrow> k0 | Some d \<Rightarrow> max_chunk_size d))"
proof -
  obtain n where n: "ce_file_size env (filepath op) = Some n"
    using assms(1) by (auto simp: sender_establishSession_def split: option.splits)
  let ?m = "encode Send (PPre (send_metadata (random_phrase env) (filepath op) n))"
  obtain c1 where s: "io_send ?m c = (True, c1)"
    using assms(1) n by (auto simp: sender_establishSession_def split: prod.splits if_splits)
  have c1: "handed c1 = [(?m, True)]" "client_ok c1" "client_pending c1 = client_pending c"
    using io_send_frame[of ?m c] io_send_ok[OF assms(2), of ?m] s assms(3) by (simp_all add: client_pending_def)
  obtain a where w: "wait_answer c1 = Some (a, c')" and a: "a \<in> {NoAnswer} \<union> range Accepted"
    and k: "k = (case answer_data a of None \<Rightarrow> k0 | Some d \<Rightarrow> max_chunk_size d)"
    using assms(1) n s by (auto simp: sender_establishSession_def split: option.splits answer.splits)
  from wait_answer_consumes[OF w] a obtain p where "handed c' = handed c1" "client_ok c' = client_ok c1"
    "map owned_msg (client_pending c1) = p @ map owned_msg (client_pending c')"
    "answered p (answer_data a)"
    by blast
  then show ?thesis using n c1 k by (intro exI[of _ n] exI[of _ p]) auto
qed

lemma leave_simps [simp]:
  "fst (leave s) = fst s" "handed (snd (leave s)) = handed (snd s)"
  by (simp_all add: leave_def client_disconnect_def Let_def split: outcome.splits prod.splits)

lemma sender_session_log:
  assumes "hash_works (ce_api env) sha" and "ce_alloc env k" and "client_ok c"
    and "sender_startSession env op k c = (Returned True, c')"
  shows "ce_file env (filepath op) \<noteq> Missing \<and> ce_file env (filepath op) \<noteq> Inaccessible \<and>
    client_ok c' \<and> (\<exists>b. handed c' = handed c @
      map (\<lambda>m. (m, True)) (chunk_messages sha k (file_bytes (ce_file env (filepath op)))) @
      [(encode FinalChunk (PEmpty (Empty (ce_pad env))), b)]) \<and>
    (\<exists>p. client_pending c = p @ client_pending c' \<and> no_abort p)"
proof -
  obtain s where s: "sender_mainLoop (ce_api env) (ce_alloc env) (ce_pad env) (ce_file env (filepath op)) k
      io_send (arrivals c) (m_messages_in c) (ce_world env) c = (Returned True, s)"
    and c': "c' = (ss_client s)\<lparr>arrivals := ss_sched s, m_messages_in := ss_in s\<rparr>"
    using assms(4) by (auto simp: sender_startSession_def split: prod.splits)
  show ?thesis
    using cl.sender_mainLoop_log[OF assms(1-3) s] sender_mainLoop_suffix[OF s]
    by (simp add: c' client_pending_def)
qed

lemma receiver_established:
  assumes "receiver_establishSession env op c = (Returned True, c')" and "client_ok c"
  shows "client_ok c' \<and> (\<exists>b p d. handed c' = handed c @
      [(encode RequestReceive (PPre (request_metadata env (receival_code_phrase op))), b)] \<and>
      map owned_msg (client_pending c) = p @ map owned_msg (client_pending c') \<and> answered p d)"
proof -
  let ?m = "encode RequestReceive (PPre (request_metadata env (receival_code_phrase op)))"
  let ?c = "snd (io_send ?m c)"
  obtain a where w: "wait_answer ?c = Some (a, c')" and a: "a \<in> {NoAnswer} \<union> range Accepted"
    using assms(1) by (auto simp: receiver_establishSession_def Let_def split: option.splits answer.splits)
  have "client_ok ?c" "client_pending ?c = client_pending c"
    using io_send_ok[OF assms(2)] by (simp_all add: client_pending_def)
  moreover obtain p where "handed c' = handed ?c" "client_ok c' = client_ok ?c"
    "map owned_msg (client_pending ?c) = p @ map owned_msg (client_pending c')" "answered p (answer_data a)"
    using wait_answer_consumes[OF w] a by blast
  ultimately show ?thesis by auto
qed

lemma receiver_session:
  assumes "hash_works (ce_api env) sha" and "disk_ok (ce_disk env)" and "client_ok c"
    and "receiver_startSession env op c = (Returned True, c', out)"
  shows "client_ok c' \<and> complete_file sha (map owned_msg (client_pending c)) out \<and>
    (\<exists>b. handed c' = handed c @ [(encode Receive (PCode \<lparr>code_size =
       word_of_nat (length (receival_code_phrase op)), code = receival_code_phrase op\<rparr>), b)])"
proof -
  let ?m = "encode Receive (PCode \<lparr>code_size = word_of_nat (length (receival_code_phrase op)),
      code = receival_code_phrase op\<rparr>)"
  let ?c = "snd (io_send ?m c)"
  obtain s c1 where m: "receiver_mainLoop (ce_api env) (ce_disk env) (ce_pad env) (ce_out_opens env)
      (\<lambda>m c. snd (io_send m c)) (arrivals ?c) (m_messages_in ?c) (ce_world env) ?c = (Returned True, s, c1)"
    and c': "c' = c1\<lparr>arrivals := rs_sched s, m_messages_in := rs_in s\<rparr>" "out = ofs_data (rs_ofs s)"
    using assms(4) by (auto simp: receiver_startSession_def Let_def split: prod.splits)
  from receiver_mainLoop_True[OF assms(1,2) m] show ?thesis
    using io_send_ok[OF assms(3), of ?m] by (simp add: c' client_pending_def)
qed

lemma finish_receive_written:
  assumes "finish_receive env c = (Returned True, c')" and "client_ok c"
  shows "(\<exists>b. handed c' = handed c @ [(encode FinishReceive (PEmpty (Empty (ce_pad env))), b)]) \<and>
    (all_written c' \<or> \<not> client_isConnected c')"
proof -
  let ?c = "snd (io_send (encode FinishReceive (PEmpty (Empty (ce_pad env)))) c)"
  have ok: "client_ok (sync ?c)" using assms(2) by (simp add: io_send_ok sync_ok)
  have f: "client_flush (sync ?c) = Ready c'"
    using assms(1) by (auto simp: finish_receive_def Let_def split: wait_result.splits)
  have "client_isConnected (sync ?c) \<or> c' = sync ?c"
    using f by (auto simp: client_flush_def split: if_splits)
  then show ?thesis using client_flush_written[OF ok f] by auto
qed

text \<open>A connection that was never established is never validated.\<close>

definition unconnected :: "connection \<Rightarrow> bool" where
  "unconnected k \<longleftrightarrow> m_owner_type k = Client \<and> \<not> m_validated k \<and> \<not> hs_writing k \<and> reading k = RIdle"

lemma run_io_unconnected:
  assumes "unconnected k" and "\<forall>opn. ConnectDone True opn \<noteq> e"
  shows "unconnected (run_io e k)"
proof (cases "network_event e \<and> conn_enabled e k")
  case True
  obtain r where e: "conn_exec 0 e (k, new_queue) = r" by simp
  have "unconnected k'" if "r = Some (k', q')" for k' q'
    using e that True assms
    by (cases e; cases "tasks k ! 0")
      (auto simp: unconnected_def conn_handler_defs Let_def take_task_def split: if_splits option.splits list.splits elim!: run_task.elims)
  then show ?thesis using True assms(1) e by (auto simp: run_io_def split: option.splits)
next
  case False
  then have "run_io e k = k" unfolding run_io_def by (rule if_not_P)
  then show ?thesis using assms(1) by simp
qed

lemma run_ios_unconnected:
  "unconnected k \<Longrightarrow> \<forall>opn. ConnectDone True opn \<notin> set es \<Longrightarrow> unconnected (fold run_io es k)"
  by (induction es arbitrary: k) (simp_all add: run_io_unconnected)

lemma wait_validated_unconnected:
  "m_connection c = Some k \<Longrightarrow> unconnected k \<Longrightarrow>
     \<forall>es \<in> set (io c). \<forall>opn. ConnectDone True opn \<notin> set es \<Longrightarrow> fst (wait_validated c) = Blocked"
proof (induction c arbitrary: k rule: wait_validated.induct)
  case (1 c)
  obtain k' where k': "m_connection (sync c) = Some k'" "unconnected k'"
    "\<forall>es \<in> set (io (sync c)). \<forall>opn. ConnectDone True opn \<notin> set es"
    using 1(2-4) run_ios_unconnected[of k] by (cases "io c") (auto simp: sync_def)
  then have v: "client_isValidated (sync c) = Some False"
    by (simp add: client_isValidated_def isValidated_def unconnected_def)
  show ?case
  proof (cases "io c = []")
    case True
    then show ?thesis using v by (simp add: wait_validated.simps[of c] Let_def)
  next
    case False
    then show ?thesis using v 1(1)[OF False k'] by (simp add: wait_validated.simps[of c] Let_def)
  qed
qed

section \<open>A demonstration client\<close>

text \<open>A client whose connection is set up, and what it runs with.\<close>

definition demo_events :: "conn_event list list" where
  "demo_events = [[ConnectDone True True, ValidationRead (Some 5)], [ValidationWritten True]]"

definition demo_env :: "evp_world client_env" where
  "demo_env = \<lparr>ce_net = \<lparr>resolved = \<lambda>_ _. True, thread_ok = True, ifaddrs_local = None,
       ifaddrs_mask = None, udp_ok = True, scan_rounds = []\<rparr>,
     ce_draws = (0, 1, 2, 3, 4), ce_file = \<lambda>_. Readable [1, 2, 3], ce_file_size = \<lambda>_. Some 3,
     ce_alloc = \<lambda>_. True, ce_api = demo_api True, ce_world = demo_world 0, ce_disk = all_disk,
     ce_out_opens = True, ce_stdin = '' y'', ce_pad = 0, ce_chunksize = 7, ce_size = 0, ce_name_size = 0\<rparr>"

definition demo_accept :: message where
  "demo_accept = encode Accept (PPost (init_PostMetadata\<lparr>max_chunk_size := 2\<rparr>))"

definition demo_sender :: "outcome \<times> file_client" where
  "demo_sender = sendRoutine demo_env \<lparr>op_type = OpSend, filepath = ''a/f'', receival_code_phrase = []\<rparr>
     (new_client demo_events
        [[incoming_msg demo_accept], [], [], [], [incoming_msg (encode Success (PEmpty (Empty 0)))]])"

lemma demo_sender_runs: "demo_sender = (Returned True, snd demo_sender)"
  by code_simp

lemma demo_fifo: "\<forall>es \<in> set demo_events. fifo_tasks es"
  by (simp add: demo_events_def fifo_tasks_def)

text \<open>When only another message comes in answer to the request (an \<open>Abort\<close>, say), the session is
  taken for established, with the chunk size \<open>k\<close> that the caller's variable happened to hold.\<close>

lemma unanswered_send_accepted:
  assumes "ce_file_size env (filepath op) = Some n"
    and "io_send (encode Send (PPre (send_metadata (random_phrase env) (filepath op) n))) c = (True, c1)"
    and "arrivals c1 = [[om]]" and "m_messages_in c1 = new_queue"
    and "\<not> has_type (owned_msg om) Accept" and "\<not> has_type (owned_msg om) Reject"
  shows "\<exists>c'. sender_establishSession env op k c = (Returned True, k, c')"
proof -
  have "answer_loop [] new_queue = (NoAnswer, [], new_queue)"
    by code_simp
  then have "answer_loop [] (push_back om new_queue) = (NoAnswer, [], new_queue)"
    using assms(5,6)
    by (subst answer_loop.simps) (simp add: arrive_def pop_front_def new_queue_def push_back_def)
  then have "wait_answer c1 = Some (NoAnswer, c1\<lparr>arrivals := [], m_messages_in := new_queue\<rparr>)"
    using assms(3,4) by (simp add: wait_answer_def)
  then show ?thesis using assms(1,2) by (simp add: sender_establishSession_def)
qed

section \<open>Properties\<close>



text \<open>C3: What a successful exit of the receiver that accepted the file means, when hashing works, the disk
  takes every write and the network thread runs posted tasks in the order of posting: the file is
  complete. Of the messages that arrived, it took those up to the answer to its request (the first
  \<open>Accept\<close>, with no \<open>Reject\<close> before it; if the queue ran empty before an answer, messages that are none);
  and of all that came after them, those before the first \<open>FinalChunk\<close> contain no \<open>Abort\<close>, every \<open>Chunk\<close>
  among them carries the digest of its payload, and the stored file is these payloads in order. It handed
  the connection exactly the request, the \<open>Receive\<close> and the \<open>FinishReceive\<close>, and whatever of them was
  accepted is completely written, unless the connection was closed.\<close>

theorem receiver_success_meaning:
  assumes "hash_works (ce_api env) sha" and "disk_ok (ce_disk env)" and "\<forall>es \<in> set events. fifo_tasks es"
    and "receive_steps env op (new_client events sch) = (Returned True, c', Some out)"
  shows "(\<exists>p d rest. map owned_msg (concat sch) = p @ rest \<and> answered p d \<and> complete_file sha rest out) \<and>
    map fst (handed c') = [encode RequestReceive (PPre (request_metadata env (receival_code_phrase op))),
      encode Receive (PCode \<lparr>code_size = word_of_nat (length (receival_code_phrase op)),
                             code = receival_code_phrase op\<rparr>),
      encode FinishReceive (PEmpty (Empty (ce_pad env)))] \<and>
    (all_written c' \<or> \<not> client_isConnected c')"
proof -
  note r = assms(4)[unfolded receive_steps_def]
  obtain c1 where c1: "waitForConnection (ce_net env) (new_client events sch) = (Returned True, c1)"
    using r by (auto split: outcome.splits prod.splits bool.splits)
  note g1 = waitForConnection_ready[OF c1 client_ok_new[OF assms(3)] new_client_simps(1)]
  obtain c2 where c2: "receiver_establishSession env op c1 = (Returned True, c2)"
    using r c1 by (auto split: outcome.splits prod.splits bool.splits)
  have ok2: "client_ok c2" using receiver_established[OF c2] g1 by blast
  obtain c3 where c3: "receiver_startSession env op c2 = (Returned True, c3, out)"
    and c': "finish_receive env c3 = (Returned True, c')"
    using r c1 c2 by (auto simp: Let_def split: outcome.splits prod.splits bool.splits if_splits)
  note g3 = receiver_session[OF assms(1,2) ok2 c3]
  then show ?thesis
    using receiver_established[OF c2] g1 finish_receive_written[OF c'] by auto
qed

definition demo_receiver :: "outcome \<times> file_client \<times> bytes option" where
  "demo_receiver = receive_steps demo_env
     \<lparr>op_type = OpReceive, filepath = [], receival_code_phrase = ''ab''\<rparr>
     (new_client (demo_events @ [[], [RunTask 0, HeaderWritten True, BodyWritten True], [],
          [RunTask 0, HeaderWritten True, BodyWritten True], [RunTask 0, HeaderWritten True], [BodyWritten True]])
        [[incoming_msg demo_accept], [], [incoming_msg (chunk_message [1, 2] (demo_digest [1, 2]))],
         [incoming_msg final_message]])"

lemma demo_receiver_runs: "demo_receiver = (Returned True, fst (snd demo_receiver), Some [1, 2])"
  by code_simp

theorem receiver_success_meaning_witness:
  "complete_file demo_digest [chunk_message [1, 2] (demo_digest [1, 2]), final_message] [1, 2]"
proof -
  have "\<forall>es \<in> set (demo_events @ [[], [RunTask 0, HeaderWritten True, BodyWritten True], [],
          [RunTask 0, HeaderWritten True, BodyWritten True], [RunTask 0, HeaderWritten True], [BodyWritten True]]).
      fifo_tasks es"
    using demo_fifo by (auto simp: fifo_tasks_def)
  moreover have "hash_works (ce_api demo_env) demo_digest" "disk_ok (ce_disk demo_env)"
    using demo_hash_works by (simp_all add: demo_env_def)
  ultimately obtain p d rest where "[demo_accept, chunk_message [1, 2] (demo_digest [1, 2]), final_message] = p @ rest"
    "answered p d" "complete_file demo_digest rest [1, 2]"
    using receiver_success_meaning[OF _ _ _ demo_receiver_runs[unfolded demo_receiver_def], of demo_digest]
    by (auto simp: incoming_msg_def)
  moreover have "has_type demo_accept Accept" by (simp add: demo_accept_def encode_simps)
  ultimately have "p = [demo_accept]" using answered_first by metis
  with \<open>_ = p @ rest\<close> \<open>complete_file demo_digest rest [1, 2]\<close> show ?thesis by simp
qed

text \<open>C17: The sender's wait for the confirmation ends exactly when a \<open>Success\<close> or \<open>Abort\<close> is among the
  messages that arrive, with the first of them deciding: if there is none it never ends, also when the
  connection has been closed and nothing can arrive any more.\<close>

theorem confirmation_meaning:
  "fst (waitForConfirmation c) =
     (if m_connection c = None then Undef
      else case find confirms (map owned_msg (client_pending c)) of
        None \<Rightarrow> Blocked
      | Some m \<Rightarrow> Returned (has_type m Success))"
  by (rule confirmation_find)

text \<open>C34: A client whose connection attempt fails never finds out: once \<open>connect\<close> has started the attempt
  and reported success, and the attempt does not succeed (refused, unreachable, or no server at all),
  the wait for the connection goes on for ever, instead of the failure being reported.\<close>

theorem failed_connect_hangs:
  assumes "autoConnect ne 2000 (new_client events sch) = Connected True c"
    and "\<forall>es \<in> set events. \<forall>opn. ConnectDone True opn \<notin> set es"
  shows "fst (waitForConnection ne (new_client events sch)) = Blocked"
proof -
  have "client_ok (new_client [] sch)" by (rule client_ok_new) simp
  obtain host prt where "connect (resolved ne) (thread_ok ne) host prt (new_client events sch) = Some (True, c)"
    using assms(1) by (auto simp: autoConnect_def try_connect_def
      split: scan_outcome.splits scan_result.splits option.splits prod.splits)
  then have "m_connection c = Some client_start" "io c = events"
    by (auto simp: connect_def client_start_def Let_def new_client_def split: if_splits)
  moreover have "unconnected client_start"
    by (simp add: unconnected_def client_start_def connectToServer_def new_connection_def)
  ultimately show ?thesis using assms wait_validated_unconnected[of c client_start]
    by (simp add: waitForConnection_def)
qed

theorem failed_connect_hangs_witness:
  "fst (waitForConnection (ce_net demo_env) (new_client [[AsioOpen True], [ConnectDone False False]] [])) = Blocked"
proof -
  obtain c where "autoConnect (ce_net demo_env) 2000 (new_client [[AsioOpen True], [ConnectDone False False]] []) =
      Connected True c"
    by (simp add: demo_env_def autoConnect_def discoverServerByUnicastBruteforce_def getLocalIPv4_def
        try_connect_def connect_def new_client_def Let_def)
  from failed_connect_hangs[OF this] show ?thesis by simp
qed

text \<open>C40: The port of a response is not checked, and whoever answers first decides: the client connects to
  the sender of the first response, at the number after the slash taken modulo 65536 (port 0 without
  a slash); and if that text is one \<open>stoi\<close> rejects (it does not begin with a number, or with one of
  \<open>2 ^ 31\<close> or more), the exception leaves \<open>main\<close>: any host of the subnet can end the program.\<close>

theorem response_port_unchecked:
  assumes "readArguments exists parsed = Inr op" and "op_type op \<noteq> Help"
    and "getLocalIPv4 (ifaddrs_local (ce_net env)) = Some (ip, ifc)"
    and "getNetmaskForIP (ifaddrs_mask (ce_net env)) ip = Some netmask"
    and "last_host (getSubnetRange ip netmask) \<noteq> - 1" and "udp_ok (ce_net env)"
    and "\<forall>(received, elapsed) \<in> set silent. received = None \<and> elapsed \<le> 2000"
    and "scan_rounds (ce_net env) =
      silent @ (Some (c_response_phrase @ CHR ''/'' # number, source), elapsed) # rounds"
    and "length number \<le> 1000"
  shows "autoConnect (ce_net env) 2000 c = (case stoi number of
        Inl _ \<Rightarrow> DiscoveryThrows
      | Inr v \<Rightarrow> try_connect (ce_net env) source (word_of_int v) c) \<and>
    (isl (stoi number) \<longrightarrow> client_main exists parsed env c = Aborts) \<and>
    (number = [] \<or> \<not> (is_digit (hd number) \<or> is_space (hd number) \<or> hd number \<in> {CHR ''-'', CHR ''+''}) \<longrightarrow>
       stoi number = Inl InvalidArgument) \<and>
    stoi (show_nat n) = (if n < 2 ^ 31 then Inr (int n) else Inl OutOfRange) \<and>
    parse_response c_response_phrase = Some (Inr 0)"
proof -
  let ?d = "c_response_phrase @ CHR ''/'' # number"
  have len: "length ?d \<le> 1024" using assms(9) by (simp add: c_response_phrase_def)
  have parse: "parse_response ?d = Some (case stoi number of Inl e \<Rightarrow> Inl e | Inr v \<Rightarrow> Inr (word_of_int v))"
    by (rule parse_response_phrase)
  have "discoverServerByUnicastBruteforce (ifaddrs_local (ce_net env)) (ifaddrs_mask (ce_net env))
      (udp_ok (ce_net env)) 2000 (scan_rounds (ce_net env)) =
      Scan (the (probe_loop (first_host (getSubnetRange ip netmask)) (last_host (getSubnetRange ip netmask)) ip))
        (case stoi number of Inl e \<Rightarrow> Throws e
         | Inr v \<Rightarrow> Found \<lparr>address = source, port = word_of_int v\<rparr>)"
    using assms(3-6,8) poll_loop_response[OF assms(7) _ len, of source elapsed rounds] parse
    by (simp add: discoverServerByUnicastBruteforce_def probe_loop_stops Let_def split: sum.split)
  then have auto: "autoConnect (ce_net env) 2000 c = (case stoi number of
        Inl _ \<Rightarrow> DiscoveryThrows
      | Inr v \<Rightarrow> try_connect (ce_net env) source (word_of_int v) c)"
    by (simp add: autoConnect_def split: sum.split)
  have "client_main exists parsed env c = Aborts" if "isl (stoi number)"
  proof -
    have "waitForConnection (ce_net env) c = (Exception ''discovery'', c)"
      using that auto by (auto simp: waitForConnection_def isl_def)
    then show ?thesis using assms(1,2)
      by (cases "op_type op")
        (simp_all add: client_main_def sendRoutine_def receiveRoutine_def receive_steps_def leave_def)
  qed
  moreover have "parse_response c_response_phrase = Some (Inr 0)" by code_simp
  ultimately show ?thesis using auto stoi_show_nat[of n] stoi_no_digit[of number] by blast
qed

definition demo_lan :: "ifaddrs list" where
  "demo_lan = [\<lparr>ifa_name = Some ''eth0'', ifa_flags = IFF_UP,
     ifa_addr = Some \<lparr>sa_family = AF_INET, s_addr = 0x0500A8C0\<rparr>,
     ifa_netmask = Some \<lparr>sa_family = AF_INET, s_addr = 0x00FFFFFF\<rparr>\<rparr>]"

theorem response_port_unchecked_witness:
  "client_main (\<lambda>_. Some True) (Inr \<lparr>vm_help = False, vm_send = Some ''f'', vm_receive = None\<rparr>)
     (demo_env\<lparr>ce_net := (ce_net demo_env)\<lparr>ifaddrs_local := Some demo_lan, ifaddrs_mask := Some demo_lan,
        scan_rounds := [(None, 10), (Some (c_response_phrase @ ''/x'', ''192.168.0.9''), 20)]\<rparr>\<rparr>)
     (new_client [] []) = Aborts"
proof -
  let ?env = "demo_env\<lparr>ce_net := (ce_net demo_env)\<lparr>ifaddrs_local := Some demo_lan,
    ifaddrs_mask := Some demo_lan,
    scan_rounds := [(None, 10), (Some (c_response_phrase @ ''/x'', ''192.168.0.9''), 20)]\<rparr>\<rparr>"
  have ip: "getLocalIPv4 (ifaddrs_local (ce_net ?env)) = Some (0xC0A80005, ''eth0'')" by code_simp
  have nm: "getNetmaskForIP (ifaddrs_mask (ce_net ?env)) 0xC0A80005 = Some 0xFFFFFF00" by code_simp
  have last: "last_host (getSubnetRange 0xC0A80005 0xFFFFFF00) \<noteq> - 1" by code_simp
  have udp: "udp_ok (ce_net ?env)" by (simp add: demo_env_def)
  have throws: "isl (stoi ''x'')" by code_simp
  show ?thesis
    using response_port_unchecked[OF _ _ ip nm last udp,
        where silent = "[(None, 10)]" and number = "''x''" and source = "''192.168.0.9''" and
          elapsed = 20 and rounds = "[]" and exists = "\<lambda>_. Some True" and
          parsed = "Inr \<lparr>vm_help = False, vm_send = Some ''f'', vm_receive = None\<rparr>" and
          op = "\<lparr>op_type = OpSend, filepath = ''f'', receival_code_phrase = []\<rparr>"] throws
    by (simp add: readArguments_def)
qed

end
