(* ===== verification/Spec2Isabelle.thy ===== *)
theory Spec2Isabelle
  imports FileServer Client
begin

text \<open>
  A model of pingpong, a tool that sends a file from one client to another through a server, and
  the theorems about it. Paths are relative to the repository's \<^verbatim>\<open>src/\<close>.

  \<^bold>\<open>The program.\<close> A sender registers a random code phrase at the server (\<open>Send\<close>); a receiver asks for
  the phrase (\<open>RequestReceive\<close>), is told what is offered (\<open>Accept\<close> or \<open>Reject\<close>), and starts the
  transfer (\<open>Receive\<close>). The server tells the sender (\<open>Accept\<close>, with the maximal chunk size of 512), and
  relays its \<open>Chunk\<close>s and the \<open>FinalChunk\<close> to the receiver, which checks the digest of each chunk,
  writes the file \<^verbatim>\<open>./out\<close> and reports \<open>FinishReceive\<close>; the server then sends \<open>Success\<close> to the sender.
  \<open>Abort\<close> ends a transfer. All of this runs over TCP connections with their own handshake and framing;
  a client finds the server by UDP.

  \<^bold>\<open>Theories and the code they model.\<close>
  \<^item> \<open>Prelude\<close>: the collections \<open>conn_defs\<close> and \<open>codec_simps\<close>, bytes of words, strings as bytes,
    decimal numbers.
  \<^item> \<open>TSQueue\<close>: \<^verbatim>\<open>tsqueue/include/tsqueue/tsqueue.hpp\<close>. The locale \<open>fifo\<close> is what its clients rely on.
    Blocking is a step relation with a condition variable; for the loops that drain a queue, arrivals
    are a \<open>schedule\<close> of batches.
  \<^item> \<open>Message\<close>, \<open>Connection\<close>: \<^verbatim>\<open>net_common/include/net_common/net_message.hpp\<close> and
    \<^verbatim>\<open>net_connection.hpp\<close>. A connection is a record with its flags and queues and with what it has handed
    to the \<open>io_context\<close> (posted tasks, outstanding operations); \<open>conn_step\<close> is one event: a call of
    the owner, a task, a completed operation.
  \<^item> \<open>PPCommon\<close>: \<^verbatim>\<open>filetransmission/ppcommon/include/ppcommon/ppcommon.hpp\<close>, payloads and message types.
  \<^item> \<open>Hash\<close>: \<^verbatim>\<open>ppcommon/hash.hpp\<close> over a parameter for the OpenSSL calls.
  \<^item> \<open>Session\<close>: \<^verbatim>\<open>ppcommon/session.hpp\<close>, the main loops of both clients and the server's relay.
  \<^item> \<open>ServerBase\<close>: \<^verbatim>\<open>net_common/net_server.hpp\<close>; connections live in a heap of shared pointers.
  \<^item> \<open>ClientStorage\<close>, \<open>FileServer\<close>: \<^verbatim>\<open>filetransmission/ppserver/src/server.cpp\<close>. \<open>boost::bimap\<close> is a
    parameter with the laws of the locale \<open>bimap\<close>, interpreted on association lists; \<open>srv_step\<close> lets
    accepts, network events and handled messages interleave.
  \<^item> \<open>IpUtils\<close>, \<open>Discovery\<close>: \<^verbatim>\<open>ppclient/src/unix_ip_utils.cpp\<close>, \<^verbatim>\<open>ppclient/src/discovery_client.cpp\<close> and
    \<^verbatim>\<open>ppserver/src/discovery_server.cpp\<close>.
  \<^item> \<open>PhraseGen\<close>: \<^verbatim>\<open>filetransmission/ppgenerator/src/phrase_generator.cpp\<close>.
  \<^item> \<open>ClientBase\<close>, \<open>Client\<close>: \<^verbatim>\<open>net_common/net_client.hpp\<close>, \<^verbatim>\<open>ppclient/src/client.hpp\<close>, \<^verbatim>\<open>sender.cpp\<close>,
    \<^verbatim>\<open>receiver.cpp\<close> and \<^verbatim>\<open>main.cpp\<close>. The locale \<open>logging_send\<close> is what the sessions' callers know of a send
    callback; \<open>ClientBase\<close> provides it.
  \<^item> This theory: the composition of sender, server, transport and receiver.

  \<^bold>\<open>What the lemmas show.\<close> Connection: the one event that is undefined (a message write that starts while
  the server's handshake write is outstanding), accepted messages are written in order and whole, flushing and closing after the flush lose nothing, the reader gets exactly what was written,
  the handshake completes and validates only the expected answer. Payloads: decoding inverts encoding;
  which bodies cannot be decoded. Sessions: the receiver's loop refines a specification over the message
  sequence, the sender's loop sends the file. Server: an invariant of every reachable state, the effect
  of each handler, and which connections it can touch. Client: what a successful exit means. Discovery and
  addresses: ranges, round trip, termination of the probe loop. Where the code does not do what it
  means to, a theorem shows what it does.

  \<^bold>\<open>Errors, bounds and termination.\<close> An out-of-bounds read, a dereferenced null pointer, the front of an
  empty queue, a second write or read started on a socket and a buffer used after its destruction are
  \<open>None\<close> or \<open>Undef\<close>; exceptions are values. Memory is unbounded, except for the sender's chunk buffer. Sizes on the wire keep their widths. There
  is no fuel: loops over what arrives are recursive functions that use up the arrivals, and a wait
  that nothing can end is \<open>Blocked\<close> or \<open>None\<close>; the probe loop, whose counter can wrap around, is a
  \<^theory_text>\<open>partial_function\<close>.

  \<^bold>\<open>Parameters.\<close> Boost.Asio (which operation completes when and how, assumed to run posted tasks in order
  where a theorem says so), OpenSSL, \<open>boost::bimap\<close>, the file system (with the moments at which an output stream writes its
  buffer out), the interface list, the
  resolver, standard input, random draws, clocks, and the values of uninitialised objects.

  \<^bold>\<open>Not modelled.\<close> The logger (\<^verbatim>\<open>logger/include/logger/logger.hpp\<close>) and console output, the include list
  \<^verbatim>\<open>net_common.hpp\<close>, the build files and documents; the socket calls of \<open>getLocalSubnet\<close>; the data
  races on plain fields (such as a look at \<open>m_socket\<close> from the owner's thread): single accesses are
  taken as atomic. The transfer theorem lets the server handle the messages of one session without
  others in between; that handlers do not disturb other connections is a theorem of its own.
\<close>

section \<open>A file from one client to the other\<close>

lemma carries_sends:
  assumes "carries acc k" and "isValidated k" and "isConnected k"
  shows "carries (acc @ ms) (fold (\<lambda>m k. snd (send m k)) ms k)"
  using assms
proof (induction ms arbitrary: acc k)
  case (Cons m ms)
  have s: "fst (send m k)" using Cons.prems(2,3) by (simp add: fst_send isValidated_def)
  then have "carries (acc @ [m]) (snd (send m k))" using carries_send[OF Cons.prems(1), of m] by simp
  moreover have "isValidated (snd (send m k))" "isConnected (snd (send m k))"
    using Cons.prems(2,3) s by (simp_all add: snd_send isValidated_def isConnected_def)
  ultimately show ?case using Cons.IH[of "acc @ [m]" "snd (send m k)"] by simp
qed simp

text \<open>What the relay takes: chunks within the limit, and the end.\<close>

definition relayable :: "message \<Rightarrow> bool" where
  "relayable m \<longleftrightarrow> has_type m FinalChunk \<or> has_type m Chunk \<and> 32 \<le> msg_size m \<and> msg_size m \<le> 544"

lemma relay_one:
  assumes "storage_env env okp oks" and "server_ok env okp oks s" and "relayable m"
    and "getSessionBySender a (m_storage s) = Some (ServerOneToOneRetranslatorSession fs mx sink)"
    and "isValidated (heap s sink)" and "isConnected (heap s sink)"
  shows "onMessage (file_server_hooks env) (Some a) m s = Some (send_via sink m s)"
proof -
  have sent: "fst (send m (heap s sink))" using assms(5,6) by (simp add: fst_send isValidated_def)
  have "\<exists>s'. file_server_onMessage env a m s = Some s'"
    using assms(4) by (simp add: file_server_onMessage_def)
  then have "file_server_onMessage env a m s = Some (send_via sink m s)"
    using assms(3,4) storage_env.chunk_effect[OF assms(1,2) _ _ assms(4), of m] sent
    by (auto simp: relayable_def file_server_onMessage_def onSessionedMessage_def run_retranslator
        has_type_unique send_via_def)
  then show ?thesis by (simp add: file_server_hooks_def)
qed

lemma relay_all:
  assumes "storage_env env okp oks" and "\<forall>m \<in> set ms. relayable m"
    and "server_ok env okp oks s"
    and "getSessionBySender a (m_storage s) = Some (ServerOneToOneRetranslatorSession fs mx sink)"
    and "isValidated (heap s sink)" and "isConnected (heap s sink)"
  shows "\<exists>s'. handle_all (file_server_hooks env) (map (msg_from a) ms) s = Some s' \<and>
    heap s' sink = fold (\<lambda>m k. snd (send m k)) ms (heap s sink)"
  using assms(2-6)
proof (induction ms arbitrary: s)
  case (Cons m ms)
  have h: "heap (send_via sink m s) sink = snd (send m (heap s sink))" by simp
  have "isValidated (heap (send_via sink m s) sink)" "isConnected (heap (send_via sink m s) sink)"
    using Cons.prems(4,5) unfolding h by (simp_all add: snd_send isValidated_def isConnected_def)
  with Cons.IH[of "send_via sink m s"] relay_one[OF assms(1) Cons.prems(2) _ Cons.prems(3-5), of m]
    Cons.prems
  show ?case unfolding h[symmetric] by (simp add: msg_from_def)
qed simp

lemma framed_final: "framed (encode FinalChunk (PEmpty (Empty pad)))"
  by (simp add: framed_def encode_def put_Empty_def set_id_def new_message_def)

lemma relayable_chunks:
  assumes "\<forall>d. length (sha d) = sha256_digest_length" and "m \<in> set (chunk_messages sha 512 bs)"
  shows "relayable m" and "framed m"
proof -
  obtain d where d: "d \<in> set (split_chunks 512 bs)" "m = chunk_message d (sha d)"
    using assms(2) by (auto simp: chunk_messages_def)
  have "length d \<le> 512" using split_chunks_bounds[OF d(1)] by simp
  then show "relayable m" "framed m"
    using assms(1) by (simp_all add: relayable_def framed_def d(2) msg_size_def sha256_digest_length_def)
qed

text \<open>What the network has delivered once a connection that was flushed has been flushed again.\<close>

lemma flushed_feed:
  assumes "carries acc k0" and "flush_ready k0" and "carries (acc @ ms) k" and "flush_ready k"
    and "\<forall>m \<in> set ms. framed m" and "ready r"
  shows "feed self (drop (length (sent_bytes k0)) (sent_bytes k)) (r, q) =
    Some (r, fold push_back (map (owned self r) ms) q)"
proof -
  have "drop (length (sent_bytes k0)) (sent_bytes k) = concat (map frame ms) @ []"
    using flush_ready_written[OF assms(1,2)] flush_ready_written[OF assms(3,4)] by simp
  moreover have "feed self [] (r, fold push_back (map (owned self r) ms) q) =
      Some (r, fold push_back (map (owned self r) ms) q)"
    by (simp add: feed.simps)
  ultimately show ?thesis using feed_frames[OF assms(5,6), of self "[]" q] by simp
qed

text \<open>The messages of a session are those the sender has handed over since.\<close>

definition session_messages :: "file_client \<Rightarrow> file_client \<Rightarrow> message list" where
  "session_messages c c' = drop (length (accepted_msgs (handed c))) (accepted_msgs (handed c'))"

lemma session_messages_eq:
  assumes "hash_works (ce_api env) sha" and "ce_alloc env k" and "client_ok c"
    and "sender_startSession env op k c = (Returned True, c')" and "snd (last (handed c'))"
  shows "session_messages c c' = chunk_messages sha k (file_bytes (ce_file env (filepath op))) @
    [encode FinalChunk (PEmpty (Empty (ce_pad env)))]"
proof -
  obtain b where "handed c' = handed c @
      map (\<lambda>m. (m, True)) (chunk_messages sha k (file_bytes (ce_file env (filepath op)))) @
      [(encode FinalChunk (PEmpty (Empty (ce_pad env))), b)]"
    using sender_session_log[OF assms(1-4)] by blast
  then show ?thesis using assms(5)
    by (simp add: session_messages_def accepted_msgs_def filter_map o_def)
qed

text \<open>\<open>delivered a k0 k self r q\<close>: the network thread of connection \<open>a\<close> runs from the state \<open>k\<close>, in
  any way and without further calls of the owner, until everything is written; what has been written
  since the state \<open>k0\<close>, read by the other end \<open>r\<close>, fills the queue \<open>q\<close>.\<close>

definition delivered :: "nat \<Rightarrow> connection \<Rightarrow> connection \<Rightarrow> nat \<Rightarrow> connection \<Rightarrow> owned_message tsqueue \<Rightarrow> bool" where
  "delivered a k0 k self r q \<longleftrightarrow>
     (\<exists>iq es k' iq' r'. conn_run a (k, iq) es (k', iq') \<and> fifo_tasks es \<and> accepted es = [] \<and>
        flush_ready k' \<and> feed self (drop (length (sent_bytes k0)) (sent_bytes k')) (r, new_queue) = Some (r', q))"

lemma delivered_messages:
  assumes "carries acc k0" and "flush_ready k0" and "carries (acc @ ms) k"
    and "\<forall>m \<in> set ms. framed m" and "ready r" and "delivered a k0 k self r q"
  shows "m_deq q = map (owned self r) ms"
proof -
  obtain iq es k' iq' r' where run: "conn_run a (k, iq) es (k', iq')" "fifo_tasks es" "accepted es = []"
    and f: "flush_ready k'" "feed self (drop (length (sent_bytes k0)) (sent_bytes k')) (r, new_queue) = Some (r', q)"
    using assms(6) unfolding delivered_def by blast
  have "carries (acc @ ms) k'" using conn_run_carries[OF run(1) _ run(2), of "acc @ ms"] assms(3) run(3) by simp
  note ff = flushed_feed[OF assms(1,2) this f(1) assms(4,5), of self new_queue]
  have "q = fold push_back (map (owned self r) ms) new_queue"
    using trans[OF f(2)[symmetric] ff] by simp
  then show ?thesis by simp
qed

text \<open>C1: The transfer from end to end. Let a sender's session succeed with the server's limit of 512
  bytes, with its \<open>FinalChunk\<close> accepted by the connection, and let the server, which has a session from
  that sender to a receiver whose connection is validated, open and flushed, handle the messages of the
  session in order. Then it handles every one of them, and however the receiver's connection then writes
  what it was given, running posted tasks in order and without an error until it is flushed, and in
  whatever batches the messages reach the receiver's main loop, the receiver, which opened its output
  file, reports success with exactly the bytes of the sender's file on its disk. This is for
  clients whose hashing works, a sender that can allocate the chunk buffer, and a receiver's disk that
  takes every write. (The bytes of the sender's file are those that reading it delivers before the end
  or an error.)\<close>

theorem file_transfer_end_to_end:
  assumes "hash_works (ce_api cenv) sha" and "hash_works rapi sha" and "disk_ok disk"
    and "client_ok c" and "ce_alloc cenv 512"
    and "sender_startSession cenv op 512 c = (Returned True, c')" and "snd (last (handed c'))"
    and "storage_env env okp oks" and "server_ok env okp oks s"
    and "getSessionBySender a (m_storage s) = Some (ServerOneToOneRetranslatorSession fs mx sink)"
    and "carries acc (heap s sink)" and "flush_ready (heap s sink)"
    and "isValidated (heap s sink)" and "isConnected (heap s sink)" and "ready r"
  shows "\<exists>s'. handle_all (file_server_hooks env) (map (msg_from a) (session_messages c c')) s = Some s' \<and>
    (delivered sink (heap s sink) (heap s' sink) self r q \<and> m_deq q0 @ concat sch = m_deq q \<longrightarrow>
       (\<exists>rs. receiver_mainLoop rapi disk pad True cb sch q0 w cs = (Returned True, rs, cs) \<and>
          ofs_data (rs_ofs rs) = file_bytes (ce_file cenv (filepath op))))"
proof -
  let ?bs = "file_bytes (ce_file cenv (filepath op))"
  define fin where "fin = encode FinalChunk (PEmpty (Empty (ce_pad cenv)))"
  define ms where "ms = chunk_messages sha 512 ?bs @ [fin]"
  have len: "\<forall>d. length (sha d) = sha256_digest_length" using assms(1) by (simp add: hash_works_def)
  have ms: "session_messages c c' = ms"
    using session_messages_eq[OF assms(1,5,4,6,7)] by (simp add: ms_def fin_def)
  have rel: "\<forall>m \<in> set ms. relayable m" and fr: "\<forall>m \<in> set ms. framed m"
    using relayable_chunks[OF len] by (auto simp: ms_def fin_def relayable_def framed_final)
  obtain s' where s': "handle_all (file_server_hooks env) (map (msg_from a) ms) s = Some s'"
    and h: "heap s' sink = fold (\<lambda>m k. snd (send m k)) ms (heap s sink)"
    using relay_all[OF assms(8) rel assms(9,10,13,14)] by blast
  have car: "carries (acc @ ms) (heap s' sink)"
    unfolding h by (rule carries_sends[OF assms(11,13,14)])
  have "\<exists>rs. receiver_mainLoop rapi disk pad True cb sch q0 w cs = (Returned True, rs, cs) \<and>
      ofs_data (rs_ofs rs) = ?bs"
    if d: "delivered sink (heap s sink) (heap s' sink) self r q" and q: "m_deq q0 @ concat sch = m_deq q"
  proof -
    have p: "map owned_msg (pending_in sch q0) = ms"
      using q delivered_messages[OF assms(11,12) car fr assms(15) d]
      by (simp add: pending_in_def owned_def o_def)
    obtain res rs cs' where l: "receiver_mainLoop rapi disk pad True cb sch q0 w cs = (res, rs, cs')"
      by (metis prod.exhaust)
    note sp = receiver_mainLoop_spec[OF assms(2,3) l, unfolded p]
    have "receive_spec sha [] ms = (Returned True, ?bs)"
      using receive_spec_chunk_messages[OF len, of 512 fin ?bs "[]"] by (simp add: ms_def fin_def)
    then have "res = Returned True" "ofs_text (rs_ofs rs) = ?bs" using sp(1) by simp_all
    then show ?thesis using l sp(2,3) by (simp add: ofs_text_def)
  qed
  then show ?thesis using s' ms by blast
qed

text \<open>A complete run: a file of three bytes.\<close>

definition demo_connecting :: file_client where
  "demo_connecting = snd (the (connect (\<lambda>_ _. True) True [] 0 (new_client demo_events [])))"

definition demo_client :: file_client where
  "demo_client = snd (wait_validated demo_connecting)"

definition demo_session :: "outcome \<times> file_client" where
  "demo_session = sender_startSession demo_env \<lparr>op_type = OpSend, filepath = [], receival_code_phrase = []\<rparr>
     512 demo_client"

definition demo_reader :: connection where
  "demo_reader = client_start\<lparr>m_socket_open := True, connecting := False, m_validated := True, reading := RHeader\<rparr>"

lemma demo_session_runs: "demo_session = (Returned True, snd demo_session)"
  "snd (last (handed (snd demo_session)))"
  by code_simp+

lemma demo_client_ok: "client_ok demo_client"
proof -
  have "connect (\<lambda>_ _. True) True [] 0 (new_client demo_events []) = Some (True, demo_connecting)"
    by code_simp
  from connect_ok[OF client_ok_new[OF demo_fifo] _ this] have "client_ok demo_connecting" by simp
  moreover have "wait_validated demo_connecting = (Returned True, demo_client)" by code_simp
  ultimately show ?thesis using wait_validated_ready by blast
qed

lemma demo_sink: "carries [] (heap (demo_after 3) 2)" "flush_ready (heap (demo_after 3) 2)"
  "isValidated (heap (demo_after 3) 2)" "isConnected (heap (demo_after 3) 2)"
  "sent_bytes (heap (demo_after 3) 2) = []"
proof -
  have h: "heap (demo_after 3) 2 = (new_connection Server True 0)\<lparr>m_validated := True,
      m_handshake_in := obfuscate 0, reading := RHeader\<rparr>"
    by code_simp
  show "carries [] (heap (demo_after 3) 2)" "flush_ready (heap (demo_after 3) 2)"
    "isValidated (heap (demo_after 3) 2)" "isConnected (heap (demo_after 3) 2)"
    "sent_bytes (heap (demo_after 3) 2) = []"
    unfolding h by (auto simp: carries_def conn_inv_def write_inv_def read_inv_def wire_def flush_ready_def
        isValidated_def isConnected_def new_connection_def)
qed

definition demo_relayed :: "((nat \<times> string) list, (nat \<times> nat) list) file_server" where
  "demo_relayed = the (handle_all (file_server_hooks alist_env)
     (map (msg_from 0) (session_messages demo_client (snd demo_session))) (demo_after 3))"

definition demo_written :: conn_state where
  "demo_written = the (conn_play 2 [RunTask 0, RunTask 0, HeaderWritten True, BodyWritten True,
     HeaderWritten True, BodyWritten True] (heap demo_relayed 2, new_queue))"

definition demo_read :: conn_state where
  "demo_read = the (feed 0 (sent_bytes (fst demo_written)) (demo_reader, new_queue))"

lemma demo_delivery:
  "conn_play 2 [RunTask 0, RunTask 0, HeaderWritten True, BodyWritten True,
     HeaderWritten True, BodyWritten True] (heap demo_relayed 2, new_queue) = Some demo_written"
  "feed 0 (sent_bytes (fst demo_written)) (demo_reader, new_queue) = Some demo_read"
  "flush_ready (fst demo_written)"
  by code_simp+

lemma demo_delivered: "delivered 2 (heap (demo_after 3) 2) (heap demo_relayed 2) 0 demo_reader (snd demo_read)"
proof -
  obtain k iq r q where w: "demo_written = (k, iq)" and rd: "demo_read = (r, q)" by fastforce
  let ?es = "[RunTask 0, RunTask 0, HeaderWritten True, BodyWritten True, HeaderWritten True, BodyWritten True]"
  have "conn_run 2 (heap demo_relayed 2, new_queue) ?es (k, iq)"
    using conn_play_run[OF demo_delivery(1)] by (simp add: w)
  moreover have "flush_ready k" "feed 0 (sent_bytes k) (demo_reader, new_queue) = Some (r, q)"
    using demo_delivery(2,3) by (simp_all add: w rd)
  moreover have "fifo_tasks ?es" "accepted ?es = []" by (simp_all add: fifo_tasks_def)
  ultimately show ?thesis unfolding delivered_def rd snd_conv
    by (intro exI[of _ new_queue] exI[of _ ?es] exI[of _ k] exI[of _ iq] exI[of _ r])
      (simp add: demo_sink(5))
qed

theorem file_transfer_end_to_end_witness:
  "\<exists>rs. receiver_mainLoop (demo_api True) all_disk 0 True (\<lambda>_ cs. cs) [m_deq (snd demo_read)] new_queue
     (demo_world 0) () = (Returned True, rs, ()) \<and> ofs_data (rs_ofs rs) = [1, 2, 3]"
proof -
  have env: "ce_api demo_env = demo_api True" "ce_alloc demo_env 512"
    "file_bytes (ce_file demo_env []) = [1, 2, 3]"
    by (simp_all add: demo_env_def file_bytes_def)
  have r: "ready demo_reader"
    by (simp add: ready_def demo_reader_def client_start_def connectToServer_def new_connection_def)
  note e2e = file_transfer_end_to_end[of demo_env, unfolded env(1), OF demo_hash_works demo_hash_works
      disk_ok_all_disk demo_client_ok env(2) demo_session_runs(1)[unfolded demo_session_def]
      demo_session_runs(2)[unfolded demo_session_def] alist_storage_env demo_after_ok demo_sessions(1)
      demo_sink(1-4) r, of 0 "snd demo_read" new_queue "[m_deq (snd demo_read)]" 0 "\<lambda>_ cs. cs" "demo_world 0" "()"]
  then obtain s' where s': "handle_all (file_server_hooks alist_env)
      (map (msg_from 0) (session_messages demo_client (snd demo_session))) (demo_after 3) = Some s'"
    and d: "delivered 2 (heap (demo_after 3) 2) (heap s' 2) 0 demo_reader (snd demo_read) \<longrightarrow>
      (\<exists>rs. receiver_mainLoop (demo_api True) all_disk 0 True (\<lambda>_ cs. cs) [m_deq (snd demo_read)] new_queue
         (demo_world 0) () = (Returned True, rs, ()) \<and> ofs_data (rs_ofs rs) = [1, 2, 3])"
    by (auto simp: demo_session_def env(3))
  have "s' = demo_relayed" using s' by (simp add: demo_relayed_def)
  then show ?thesis using d demo_delivered by simp
qed

end
